(* ===== verification/Kern_Prelude.thy ===== *)
theory Kern_Prelude
  imports Main "HOL-Library.Monad_Syntax" "HOL-Library.Word" "HOL-Library.Signed_Division"
begin

text \<open>
  Shared vocabulary of the OS/161 kernel model.

  Conventions. A C function that may stop the machine (a failed \<^verbatim>\<open>assert\<close>, a
  \<^verbatim>\<open>panic\<close>, an access outside an allocated object) or that may loop forever
  returns an \<open>option\<close>; \<open>None\<close> is "does not return". A C function that returns an
  error code, or hands back a value through a pointer and returns an error code, returns
  \<open>errno + 'a\<close>; \<open>Inl e\<close> is the error code and \<open>Inr x\<close> is code 0 with the result.
  Every call of \<^verbatim>\<open>kmalloc\<close> whose failure the code handles is a boolean argument
  that says whether that call succeeds; the theorems hold for every choice. The C type
  \<^verbatim>\<open>int\<close> is \<open>int\<close>, with the wrap-around at 32 bits written as \<open>c_int\<close> where
  the source can reach it; addresses, masks and bit sets are words.
\<close>

unbundle bit_operations_syntax

section \<open>Error codes\<close>

text \<open>The codes of \<^verbatim>\<open>kern/include/kern/errno.h\<close>.\<close>

datatype errno =
    EINVAL | EFAULT | ENAMETOOLONG | ENOMEM | EIO | ENOENT | ENOTDIR | EISDIR | EEXIST
  | EXDEV | EAGAIN | ESPIPE | EUNIMP | ENXIO | ENODEV | EBUSY | EIOCTL | ENOTEMPTY
  | ERANGE | ENOSPC | EMFILE | ENFILE | ENOSYS | ENOEXEC | E2BIG | EBADF

fun errno_code :: "errno \<Rightarrow> nat" where
  "errno_code EINVAL = 1"
| "errno_code EFAULT = 2"
| "errno_code ENAMETOOLONG = 3"
| "errno_code ENOMEM = 4"
| "errno_code EIO = 5"
| "errno_code ENOENT = 6"
| "errno_code ENOTDIR = 7"
| "errno_code EISDIR = 8"
| "errno_code EEXIST = 9"
| "errno_code EXDEV = 10"
| "errno_code EAGAIN = 11"
| "errno_code ESPIPE = 12"
| "errno_code EUNIMP = 13"
| "errno_code ENXIO = 14"
| "errno_code ENODEV = 15"
| "errno_code EBUSY = 16"
| "errno_code EIOCTL = 17"
| "errno_code ENOTEMPTY = 18"
| "errno_code ERANGE = 19"
| "errno_code ENOSPC = 20"
| "errno_code EMFILE = 21"
| "errno_code ENFILE = 22"
| "errno_code ENOSYS = 23"
| "errno_code ENOEXEC = 24"
| "errno_code E2BIG = 25"
| "errno_code EBADF = 26"

lemma errno_code_pos [simp]: "0 < errno_code e"
  by (cases e) simp_all

section \<open>Assertions and memory cells\<close>

text \<open>\<^verbatim>\<open>assert(x)\<close> of \<^verbatim>\<open>kern/include/lib.h\<close>: a false condition panics.\<close>

definition kassert :: "bool \<Rightarrow> unit option" where
  "kassert b = (if b then Some () else None)"

lemma kassert_True [simp]: "kassert True = Some ()"
  by (simp add: kassert_def)

lemma kassert_False [simp]: "kassert False = None"
  by (simp add: kassert_def)

lemma kassert_eq_Some [simp]: "kassert b = Some u \<longleftrightarrow> b"
  by (simp add: kassert_def)

lemma kassert_eq_None [simp]: "kassert b = None \<longleftrightarrow> \<not> b"
  by (simp add: kassert_def)

lemma kassert_bind: "Option.bind (kassert b) f = (if b then f () else None)"
  by (simp add: kassert_def)

text \<open>Reading and writing cell \<open>i\<close> of an object of \<open>length xs\<close> cells.\<close>

definition cell :: "'a list \<Rightarrow> int \<Rightarrow> 'a option" where
  "cell xs i = (if 0 \<le> i \<and> i < int (length xs) then Some (xs ! nat i) else None)"

definition set_cell :: "'a list \<Rightarrow> int \<Rightarrow> 'a \<Rightarrow> 'a list option" where
  "set_cell xs i x = (if 0 \<le> i \<and> i < int (length xs) then Some (xs[nat i := x]) else None)"

lemma cell_int [simp]: "i < length xs \<Longrightarrow> cell xs (int i) = Some (xs ! i)"
  by (simp add: cell_def)

lemma set_cell_int [simp]: "i < length xs \<Longrightarrow> set_cell xs (int i) x = Some (xs[i := x])"
  by (simp add: set_cell_def)

lemma cell_in_range [simp]:
  "0 \<le> i \<Longrightarrow> i < int (length xs) \<Longrightarrow> cell xs i = Some (xs ! nat i)"
  by (simp add: cell_def)

lemma set_cell_in_range [simp]:
  "0 \<le> i \<Longrightarrow> i < int (length xs) \<Longrightarrow> set_cell xs i x = Some (xs[nat i := x])"
  by (simp add: set_cell_def)

lemma cell_eq_Some_iff:
  "cell xs i = Some x \<longleftrightarrow> 0 \<le> i \<and> i < int (length xs) \<and> xs ! nat i = x"
  by (auto simp: cell_def)

lemma set_cell_eq_Some_iff:
  "set_cell xs i x = Some ys \<longleftrightarrow> 0 \<le> i \<and> i < int (length xs) \<and> ys = xs[nat i := x]"
  by (auto simp: set_cell_def)

text \<open>
  The loop \<^verbatim>\<open>for (i = i0; i < i0 + n; i++) dst[i] = src[i];\<close>, which appears wherever
  the kernel copies a table into a larger one.
\<close>

fun copy_loop :: "nat \<Rightarrow> nat \<Rightarrow> 'a list \<Rightarrow> 'a list \<Rightarrow> 'a list option" where
  "copy_loop 0 i src dst = Some dst"
| "copy_loop (Suc n) i src dst =
     do { x \<leftarrow> cell src (int i);
          dst' \<leftarrow> set_cell dst (int i) x;
          copy_loop n (Suc i) src dst' }"

lemma copy_loop_eq:
  assumes "i + n \<le> length src" "i + n \<le> length dst"
  shows "copy_loop n i src dst = Some (take i dst @ take n (drop i src) @ drop (i + n) dst)"
  using assms
proof (induction n arbitrary: i dst)
  case 0
  then show ?case by simp
next
  case (Suc n)
  have step: "copy_loop (Suc n) i src dst = copy_loop n (Suc i) src (dst[i := src ! i])"
    using Suc.prems by simp
  have "copy_loop n (Suc i) src (dst[i := src ! i]) =
      Some (take (Suc i) (dst[i := src ! i]) @ take n (drop (Suc i) src)
        @ drop (Suc i + n) (dst[i := src ! i]))"
    by (rule Suc.IH) (use Suc.prems in simp_all)
  also have "take (Suc i) (dst[i := src ! i]) = take i dst @ [src ! i]"
    using Suc.prems by (simp add: take_Suc_conv_app_nth)
  also have "drop (Suc i + n) (dst[i := src ! i]) = drop (i + Suc n) dst"
    by simp
  also have "(take i dst @ [src ! i]) @ take n (drop (Suc i) src) @ drop (i + Suc n) dst
      = take i dst @ take (Suc n) (drop i src) @ drop (i + Suc n) dst"
    using Suc.prems by (simp add: Cons_nth_drop_Suc [symmetric])
  finally show ?case using step by simp
qed

corollary copy_loop_0:
  "n \<le> length src \<Longrightarrow> n \<le> length dst \<Longrightarrow> copy_loop n 0 src dst = Some (take n src @ drop n dst)"
  by (simp add: copy_loop_eq)

section \<open>Machine integers\<close>

text \<open>The value a 32-bit \<^verbatim>\<open>int\<close> and a 32-bit \<^verbatim>\<open>size_t\<close> hold after an assignment.\<close>

definition c_int :: "int \<Rightarrow> int" where
  "c_int x = (x + 2 ^ 31) mod 2 ^ 32 - 2 ^ 31"

definition c_size :: "int \<Rightarrow> int" where
  "c_size x = x mod 2 ^ 32"

lemma c_int_id [simp]: "- (2 ^ 31) \<le> x \<Longrightarrow> x < 2 ^ 31 \<Longrightarrow> c_int x = x"
  by (simp add: c_int_def)

lemma c_int_range: "- (2 ^ 31) \<le> c_int x \<and> c_int x < 2 ^ 31"
proof -
  have "0 \<le> (x + 2 ^ 31) mod 2 ^ 32" "(x + 2 ^ 31) mod 2 ^ 32 < 2 ^ 32" by simp_all
  then show ?thesis by (simp add: c_int_def)
qed

lemma c_size_id [simp]: "0 \<le> x \<Longrightarrow> x < 2 ^ 32 \<Longrightarrow> c_size x = x"
  by (simp add: c_size_def)

text \<open>Doubling a positive \<^verbatim>\<open>int\<close>: exact, or negative after the wrap.\<close>

lemma c_int_double:
  assumes "0 < n" "n < 2 ^ 31"
  shows "c_int (n * 2) = (if n < 2 ^ 30 then n * 2 else n * 2 - 2 ^ 32)"
proof (cases "n < 2 ^ 30")
  case True
  with assms show ?thesis by simp
next
  case False
  have "(n * 2 + 2 ^ 31) mod 2 ^ 32 = (n * 2 + 2 ^ 31 - 2 ^ 32) mod (2 ^ 32 :: int)"
    by (metis mod_add_self2 diff_add_cancel)
  also have "\<dots> = n * 2 + 2 ^ 31 - 2 ^ 32"
    using False assms by (intro mod_pos_pos_trivial) simp_all
  finally show ?thesis using False by (simp add: c_int_def)
qed

text \<open>C's remainder truncates towards zero; on the non-negative values used as indices it
  is \<open>mod\<close>.\<close>

lemma smod_nonneg [simp]: "0 \<le> a \<Longrightarrow> 0 < b \<Longrightarrow> a smod b = a mod (b::int)"
  by (simp add: signed_modulo_int_def signed_divide_int_def minus_mult_div_eq_mod sgn_if)

text \<open>Unsigned 32-bit arithmetic that does not wrap.\<close>

lemma unat_add_32: "unat x + unat y < 2 ^ 32 \<Longrightarrow> unat (x + y :: 32 word) = unat x + unat y"
  by (simp add: unat_word_ariths)

lemma unat_of_nat_32: "n < 2 ^ 32 \<Longrightarrow> unat (of_nat n :: 32 word) = n"
  by (simp add: unat_of_nat)

section \<open>Scanning loops\<close>

text \<open>
  \<^verbatim>\<open>for (i = i0; i < i0 + n; i++) { g = get(i); if (p(g)) break; }\<close>: the index of the
  first hit, if any. The linear searches of the kernel (sleepers, vnodes, known devices,
  page table entries) are instances.
\<close>

fun scan :: "(int \<Rightarrow> 'a option) \<Rightarrow> ('a \<Rightarrow> bool) \<Rightarrow> nat \<Rightarrow> int \<Rightarrow> int option option" where
  "scan get p 0 i = Some None"
| "scan get p (Suc n) i =
     do { g \<leftarrow> get i; if p g then Some (Some i) else scan get p n (i + 1) }"

fun first_index :: "('a \<Rightarrow> bool) \<Rightarrow> 'a list \<Rightarrow> nat option" where
  "first_index p [] = None"
| "first_index p (x # xs) = (if p x then Some 0 else map_option Suc (first_index p xs))"

lemma first_index_Some_iff:
  "first_index p xs = Some i \<longleftrightarrow> i < length xs \<and> p (xs ! i) \<and> (\<forall>j < i. \<not> p (xs ! j))"
proof (induction xs arbitrary: i)
  case Nil
  then show ?case by simp
next
  case (Cons x xs)
  show ?case
  proof (cases i)
    case 0
    then show ?thesis by auto
  next
    case (Suc k)
    then show ?thesis using Cons.IH [of k] by (auto simp: less_Suc_eq_0_disj nth_Cons')
  qed
qed

lemma first_index_None_iff: "first_index p xs = None \<longleftrightarrow> (\<forall>x \<in> set xs. \<not> p x)"
  by (induction xs) auto

lemma scan_list:
  assumes "\<And>j. j < length xs \<Longrightarrow> get (i + int j) = Some (xs ! j)"
  shows "scan get p (length xs) i = Some (map_option (\<lambda>j. i + int j) (first_index p xs))"
  using assms
proof (induction xs arbitrary: i)
  case Nil
  then show ?case by simp
next
  case (Cons x xs)
  have hd: "get i = Some x" using Cons.prems [of 0] by simp
  have "get (i + 1 + int j) = Some (xs ! j)" if "j < length xs" for j
    using Cons.prems [of "Suc j"] that by (simp add: algebra_simps)
  then have "scan get p (length xs) (i + 1)
      = Some (map_option (\<lambda>j. i + 1 + int j) (first_index p xs))"
    by (rule Cons.IH)
  with hd show ?case by (simp add: option.map_comp comp_def algebra_simps)
qed

end
