(* ===== verification/Kern_Array.thy ===== *)
theory Kern_Array
  imports Kern_Prelude
begin

text \<open>
  The resizable array of \<^verbatim>\<open>kern/lib/array.c\<close>: its record, its operations, and the
  \<open>vector\<close> interface through which the table, the thread system and the file systems
  use it.
\<close>

section \<open>Data\<close>

text \<open>
  \<^verbatim>\<open>struct array\<close>. \<open>arr_v\<close> is \<open>None\<close> for the null pointer; otherwise it is the block of
  cells \<^verbatim>\<open>kmalloc\<close> returned, in which \<open>None\<close> is a cell nobody has written.
\<close>

record 'a karray =
  arr_num :: int
  arr_max :: int
  arr_v :: "'a option list option"

datatype array_block = Blk_array | Blk_array_v

section \<open>Operations\<close>

definition array_create :: "bool \<Rightarrow> 'a karray option" where
  "array_create ok =
     (if \<not> ok then None else Some \<lparr>arr_num = 0, arr_max = 0, arr_v = None\<rparr>)"

definition array_getnum :: "'a karray \<Rightarrow> int" where
  "array_getnum a = arr_num a"

text \<open>Reading a cell nobody has written is undefined, hence \<open>None\<close>.\<close>

definition array_getguy :: "'a karray \<Rightarrow> int \<Rightarrow> 'a option" where
  "array_getguy a index = do {
     kassert (arr_num a \<le> arr_max a);
     kassert (0 \<le> index \<and> index < arr_num a);
     v \<leftarrow> arr_v a;
     guy \<leftarrow> cell v index;
     guy }"

text \<open>
  \<^verbatim>\<open>while (nguys > newmax) newmax = newmax*2;\<close> on 32-bit integers: past \<open>2 ^ 30\<close> the
  doubling overflows, reaches 0 and the loop never ends.
\<close>

partial_function (option) grow_max :: "int \<Rightarrow> int \<Rightarrow> int option" where
  "grow_max nguys newmax =
     (if nguys > newmax then grow_max nguys (c_int (newmax * 2)) else Some newmax)"

declare grow_max.simps [code]

text \<open>A fresh block of \<^verbatim>\<open>n * sizeof(void *)\<close> bytes, the product taken at 32 bits.\<close>

definition fresh_cells :: "int \<Rightarrow> 'a option list" where
  "fresh_cells n = replicate (nat (c_size (n * 4) div 4)) None"

definition array_preallocate ::
    "bool \<Rightarrow> 'a karray \<Rightarrow> int \<Rightarrow> ((errno + unit) \<times> 'a karray) option" where
  "array_preallocate ok a nguys = do {
     kassert (0 \<le> arr_num a \<and> arr_num a \<le> arr_max a);
     newmax \<leftarrow> grow_max nguys (if arr_max a = 0 then 1 else arr_max a);
     if \<not> ok then Some (Inl ENOMEM, a)
     else do {
       newv \<leftarrow> copy_loop (nat (arr_num a)) 0
                 (case arr_v a of None \<Rightarrow> [] | Some v \<Rightarrow> v) (fresh_cells newmax);
       Some (Inr (), a\<lparr>arr_max := newmax, arr_v := Some newv\<rparr>) } }"

definition array_setsize ::
    "bool \<Rightarrow> 'a karray \<Rightarrow> int \<Rightarrow> ((errno + unit) \<times> 'a karray) option" where
  "array_setsize ok a nguys = do {
     kassert (0 \<le> arr_num a \<and> arr_num a \<le> arr_max a);
     if nguys > arr_max a then do {
       (result, a') \<leftarrow> array_preallocate ok a nguys;
       (case result of
          Inl e \<Rightarrow> Some (Inl e, a')
        | Inr _ \<Rightarrow> Some (Inr (), a'\<lparr>arr_num := nguys\<rparr>)) }
     else if nguys = 0 \<and> arr_max a > 16 then do {
       kassert (arr_v a \<noteq> None);
       Some (Inr (), a\<lparr>arr_num := nguys, arr_max := 0, arr_v := None\<rparr>) }
     else Some (Inr (), a\<lparr>arr_num := nguys\<rparr>) }"

definition array_setguy :: "'a karray \<Rightarrow> int \<Rightarrow> 'a \<Rightarrow> 'a karray option" where
  "array_setguy a index ptr = do {
     kassert (arr_num a \<le> arr_max a);
     kassert (0 \<le> index \<and> index < arr_num a);
     v \<leftarrow> arr_v a;
     v' \<leftarrow> set_cell v index (Some ptr);
     Some (a\<lparr>arr_v := Some v'\<rparr>) }"

definition array_add :: "bool \<Rightarrow> 'a karray \<Rightarrow> 'a \<Rightarrow> ((errno + unit) \<times> 'a karray) option" where
  "array_add ok a guy = do {
     let ix = arr_num a;
     (result, a') \<leftarrow> array_setsize ok a (ix + 1);
     (case result of
        Inl e \<Rightarrow> Some (Inl e, a')
      | Inr _ \<Rightarrow> do {
          v \<leftarrow> arr_v a';
          v' \<leftarrow> set_cell v ix (Some guy);
          Some (Inr (), a'\<lparr>arr_v := Some v'\<rparr>) }) }"

text \<open>\<^verbatim>\<open>memmove\<close> of \<open>n\<close> cells inside one block, from \<open>src\<close> to \<open>dst\<close>.\<close>

definition move_cells :: "'a list \<Rightarrow> nat \<Rightarrow> nat \<Rightarrow> nat \<Rightarrow> 'a list option" where
  "move_cells v dst src n =
     (if dst + n \<le> length v \<and> src + n \<le> length v
      then Some (take dst v @ take n (drop src v) @ drop (dst + n) v) else None)"

definition array_remove :: "'a karray \<Rightarrow> int \<Rightarrow> 'a karray option" where
  "array_remove a index = do {
     kassert (arr_num a \<le> arr_max a);
     kassert (0 \<le> index \<and> index < arr_num a);
     let nmove = arr_num a - (index + 1);
     v \<leftarrow> arr_v a;
     v' \<leftarrow> move_cells v (nat index) (nat index + 1) (nat nmove);
     Some (a\<lparr>arr_num := arr_num a - 1, arr_v := Some v'\<rparr>) }"

text \<open>The blocks handed to \<^verbatim>\<open>kfree\<close>, in order.\<close>

definition array_destroy :: "'a karray \<Rightarrow> array_block list" where
  "array_destroy a = (if arr_v a \<noteq> None then [Blk_array_v] else []) @ [Blk_array]"

section \<open>The vector interface\<close>

text \<open>
  What the clients of an array rely on: the visible elements form a list, access inside the
  bounds succeeds and outside panics, adding appends or reports \<open>ENOMEM\<close> and changes nothing,
  removing closes the hole.
\<close>

locale vector =
  fixes getnum :: "'v \<Rightarrow> int"
    and getguy :: "'v \<Rightarrow> int \<Rightarrow> 'a option"
    and setguy :: "'v \<Rightarrow> int \<Rightarrow> 'a \<Rightarrow> 'v option"
    and add :: "bool \<Rightarrow> 'v \<Rightarrow> 'a \<Rightarrow> ((errno + unit) \<times> 'v) option"
    and remove :: "'v \<Rightarrow> int \<Rightarrow> 'v option"
    and elems :: "'v \<Rightarrow> 'a list"
    and invar :: "'v \<Rightarrow> bool"
  assumes getnum: "invar v \<Longrightarrow> getnum v = int (length (elems v))"
    and getguy: "invar v \<Longrightarrow> getguy v i = cell (elems v) i"
    and setguy_in: "invar v \<Longrightarrow> 0 \<le> i \<Longrightarrow> i < getnum v \<Longrightarrow>
          \<exists>v'. setguy v i x = Some v' \<and> invar v' \<and> elems v' = (elems v)[nat i := x]"
    and setguy_out: "invar v \<Longrightarrow> \<not> (0 \<le> i \<and> i < getnum v) \<Longrightarrow> setguy v i x = None"
    and add_room: "invar v \<Longrightarrow> getnum v < 2 ^ 29 \<Longrightarrow>
          \<exists>r v'. add ok v x = Some (r, v') \<and> invar v' \<and>
            (r = Inr () \<and> elems v' = elems v @ [x] \<or>
             r = Inl ENOMEM \<and> \<not> ok \<and> elems v' = elems v)"
    and remove_in: "invar v \<Longrightarrow> 0 \<le> i \<Longrightarrow> i < getnum v \<Longrightarrow>
          \<exists>v'. remove v i = Some v' \<and> invar v' \<and>
            elems v' = take (nat i) (elems v) @ drop (Suc (nat i)) (elems v)"
    and remove_out: "invar v \<Longrightarrow> \<not> (0 \<le> i \<and> i < getnum v) \<Longrightarrow> remove v i = None"
begin

text \<open>A linear search over a vector finds the first element that matches.\<close>

lemma scan_vector:
  assumes "invar v"
  shows "scan (getguy v) p (nat (getnum v)) 0 = Some (map_option int (first_index p (elems v)))"
proof -
  have "getguy v (0 + int j) = Some (elems v ! j)" if "j < length (elems v)" for j
    using that by (simp add: getguy [OF assms])
  then have "scan (getguy v) p (length (elems v)) 0
      = Some (map_option (\<lambda>j. 0 + int j) (first_index p (elems v)))"
    by (rule scan_list)
  then show ?thesis by (simp add: getnum [OF assms])
qed

lemma add_success:
  assumes "invar v" "getnum v < 2 ^ 29"
  obtains v' where "add True v x = Some (Inr (), v')" "invar v'" "elems v' = elems v @ [x]"
  using add_room [OF assms, of True x] by auto

lemma getguy_after_add:
  assumes "invar v" "getnum v < 2 ^ 29" "add ok v x = Some (Inr (), v')"
  shows "getguy v' (getnum v) = Some x" and "getnum v' = getnum v + 1"
proof -
  have "elems v' = elems v @ [x]" "invar v'"
    using add_room [OF assms(1,2), of ok x] assms(3) by auto
  then show "getguy v' (getnum v) = Some x" "getnum v' = getnum v + 1"
    using assms(1) by (simp_all add: getguy getnum nth_append)
qed

end

section \<open>Well-formed arrays\<close>

abbreviation arr_cells :: "'a karray \<Rightarrow> 'a option list" where
  "arr_cells a \<equiv> (case arr_v a of None \<Rightarrow> [] | Some v \<Rightarrow> v)"

definition array_wf :: "'a karray \<Rightarrow> bool" where
  "array_wf a \<longleftrightarrow> 0 \<le> arr_num a \<and> arr_num a \<le> arr_max a \<and> arr_max a < 2 ^ 30
     \<and> int (length (arr_cells a)) = arr_max a
     \<and> (arr_v a = None \<longleftrightarrow> arr_max a = 0)"

text \<open>Every visible cell has been written.\<close>

definition array_full :: "'a karray \<Rightarrow> bool" where
  "array_full a \<longleftrightarrow> None \<notin> set (take (nat (arr_num a)) (arr_cells a))"

definition array_invar :: "'a karray \<Rightarrow> bool" where
  "array_invar a \<longleftrightarrow> array_wf a \<and> array_full a"

definition array_elems :: "'a karray \<Rightarrow> 'a list" where
  "array_elems a = map the (take (nat (arr_num a)) (arr_cells a))"

lemma array_wf_length:
  "array_wf a \<Longrightarrow> nat (arr_num a) \<le> length (arr_cells a)"
  unfolding array_wf_def by linarith

lemma length_array_elems:
  "array_wf a \<Longrightarrow> length (array_elems a) = nat (arr_num a)"
  using array_wf_length [of a] by (simp add: array_elems_def)

text \<open>The growth loop: it ends, at the first sufficient doubling, as long as the request
  is at most \<open>2 ^ 30\<close>.\<close>

lemma grow_max_returns:
  assumes "0 < m" "m < 2 ^ 31" "nguys \<le> 2 ^ 30"
  shows "\<exists>r. grow_max nguys m = Some r \<and> nguys \<le> r \<and> m \<le> r \<and> (r = m \<or> r < 2 * nguys)"
  using assms
proof (induction "nat (nguys - m)" arbitrary: m rule: less_induct)
  case less
  show ?case
  proof (cases "nguys > m")
    case False
    then show ?thesis by (simp add: grow_max.simps [of nguys m])
  next
    case True
    with less.prems have dbl: "c_int (m * 2) = m * 2" by simp
    have "\<exists>r. grow_max nguys (m * 2) = Some r \<and> nguys \<le> r \<and> m * 2 \<le> r
        \<and> (r = m * 2 \<or> r < 2 * nguys)"
      by (rule less.hyps) (use True less.prems in simp_all)
    with True less.prems show ?thesis
      by (auto simp: grow_max.simps [of nguys m] dbl)
  qed
qed

lemma length_fresh_cells: "0 \<le> n \<Longrightarrow> n < 2 ^ 30 \<Longrightarrow> length (fresh_cells n) = nat n"
  by (simp add: fresh_cells_def)

lemma array_preallocate_wf:
  assumes "array_wf a" "nguys \<le> 2 ^ 29"
  shows "\<exists>r a'. array_preallocate ok a nguys = Some (r, a') \<and> array_wf a' \<and>
           arr_num a' = arr_num a \<and>
           take (nat (arr_num a)) (arr_cells a') = take (nat (arr_num a)) (arr_cells a) \<and>
           (r = Inr () \<and> nguys \<le> arr_max a' \<and> arr_max a \<le> arr_max a' \<and> ok \<or>
            r = Inl ENOMEM \<and> \<not> ok \<and> a' = a)"
proof -
  let ?m = "if arr_max a = 0 then 1 else arr_max a"
  have m: "0 < ?m" "?m < 2 ^ 30" using assms(1) by (auto simp: array_wf_def)
  obtain r where r: "grow_max nguys ?m = Some r" "nguys \<le> r" "?m \<le> r" "r = ?m \<or> r < 2 * nguys"
    using grow_max_returns [of ?m nguys] m assms(2) by auto
  have r30: "0 < r" "r < 2 ^ 30" using r m assms(2) by auto
  have num: "0 \<le> arr_num a" "arr_num a \<le> arr_max a" "arr_max a \<le> r"
    using assms(1) r(3) by (auto simp: array_wf_def split: if_splits)
  have len: "length (fresh_cells r :: 'a option list) = nat r"
    using r30 by (simp add: length_fresh_cells)
  let ?n = "nat (arr_num a)"
  have cp: "copy_loop ?n 0 (arr_cells a) (fresh_cells r)
      = Some (take ?n (arr_cells a) @ drop ?n (fresh_cells r))"
    using num len array_wf_length [OF assms(1)] by (intro copy_loop_0) simp_all
  show ?thesis
  proof (cases ok)
    case False
    then show ?thesis using assms(1) r num by (simp add: array_preallocate_def)
  next
    case True
    then show ?thesis
      using num r r30 len cp array_wf_length [OF assms(1)]
      by (simp add: array_preallocate_def array_wf_def)
  qed
qed

text \<open>Growing the visible size, shrinking it, and the special case that frees the cells.\<close>

lemma array_setsize_wf:
  assumes "array_wf a" "0 \<le> nguys" "nguys \<le> 2 ^ 29"
  shows "\<exists>r a'. array_setsize ok a nguys = Some (r, a') \<and> array_wf a' \<and>
           (r = Inr () \<and> arr_num a' = nguys \<and>
              (let k = nat (min nguys (arr_num a))
               in take k (arr_cells a') = take k (arr_cells a)) \<or>
            r = Inl ENOMEM \<and> \<not> ok \<and> a' = a)"
proof (cases "nguys > arr_max a")
  case True
  obtain r a' where pre: "array_preallocate ok a nguys = Some (r, a')" "array_wf a'"
      "arr_num a' = arr_num a"
      "take (nat (arr_num a)) (arr_cells a') = take (nat (arr_num a)) (arr_cells a)"
      "r = Inr () \<and> nguys \<le> arr_max a' \<or> r = Inl ENOMEM \<and> \<not> ok \<and> a' = a"
    using array_preallocate_wf [OF assms(1,3), of ok] by blast
  have num: "0 \<le> arr_num a" "arr_num a \<le> arr_max a" using assms(1) by (auto simp: array_wf_def)
  show ?thesis
    using pre(5)
  proof
    assume ok: "r = Inr () \<and> nguys \<le> arr_max a'"
    then have "array_wf (a'\<lparr>arr_num := nguys\<rparr>)"
      using pre(2) assms(2) by (simp add: array_wf_def)
    with ok pre num True show ?thesis
      by (auto simp: array_setsize_def Let_def min_def)
  next
    assume "r = Inl ENOMEM \<and> \<not> ok \<and> a' = a"
    with pre num True assms(1) show ?thesis by (auto simp: array_setsize_def)
  qed
next
  case False
  then show ?thesis
    using assms by (auto simp: array_setsize_def array_wf_def Let_def split: option.splits)
qed

lemma array_elems_nth:
  "array_wf a \<Longrightarrow> i < nat (arr_num a) \<Longrightarrow> array_elems a ! i = the (arr_cells a ! i)"
  using array_wf_length [of a] by (simp add: array_elems_def)

lemma array_full_nth:
  "array_invar a \<Longrightarrow> i < nat (arr_num a) \<Longrightarrow> arr_cells a ! i = Some (array_elems a ! i)"
proof -
  assume inv: "array_invar a" and i: "i < nat (arr_num a)"
  then have len: "i < length (take (nat (arr_num a)) (arr_cells a))"
    using array_wf_length [of a] by (simp add: array_invar_def)
  have "arr_cells a ! i \<in> set (take (nat (arr_num a)) (arr_cells a))"
    using nth_mem [OF len] i by simp
  then have "arr_cells a ! i \<noteq> None"
    using inv by (metis array_invar_def array_full_def)
  then show ?thesis
    using inv i by (simp add: array_elems_nth array_invar_def)
qed

lemma array_getguy_eq: "array_invar a \<Longrightarrow> array_getguy a i = cell (array_elems a) i"
  using array_full_nth [of a "nat i"] array_wf_length [of a] length_array_elems [of a]
  by (auto simp: array_getguy_def array_invar_def array_wf_def kassert_bind cell_def
      split: option.splits)

lemma array_setguy_in:
  assumes "array_invar a" "0 \<le> i" "i < array_getnum a"
  shows "\<exists>a'. array_setguy a i x = Some a' \<and> array_invar a'
           \<and> array_elems a' = (array_elems a)[nat i := x]"
proof -
  obtain v where v: "arr_v a = Some v"
    using assms by (cases "arr_v a") (auto simp: array_invar_def array_wf_def array_getnum_def)
  have len: "nat i < nat (arr_num a)" "nat (arr_num a) \<le> length v" "i < int (length v)"
    using assms v by (auto simp: array_invar_def array_wf_def array_getnum_def)
  have "array_setguy a i x = Some (a\<lparr>arr_v := Some (v[nat i := Some x])\<rparr>)"
    using assms v len
    by (simp add: array_setguy_def array_invar_def array_wf_def array_getnum_def)
  moreover have "array_invar (a\<lparr>arr_v := Some (v[nat i := Some x])\<rparr>)"
    using assms(1) v len set_update_subset_insert [of "take (nat (arr_num a)) v" "nat i" "Some x"]
    by (auto simp: array_invar_def array_wf_def array_full_def take_update_swap)
  moreover have "array_elems (a\<lparr>arr_v := Some (v[nat i := Some x])\<rparr>) = (array_elems a)[nat i := x]"
    using v by (simp add: array_elems_def take_update_swap map_update)
  ultimately show ?thesis by blast
qed

lemma array_setguy_out:
  "array_invar a \<Longrightarrow> \<not> (0 \<le> i \<and> i < array_getnum a) \<Longrightarrow> array_setguy a i x = None"
  by (auto simp: array_setguy_def array_getnum_def kassert_bind)

lemma array_add_room:
  assumes "array_invar a" "array_getnum a < 2 ^ 29"
  shows "\<exists>r a'. array_add ok a x = Some (r, a') \<and> array_invar a' \<and>
           (r = Inr () \<and> array_elems a' = array_elems a @ [x] \<or>
            r = Inl ENOMEM \<and> \<not> ok \<and> array_elems a' = array_elems a)"
proof -
  let ?n = "arr_num a"
  have n: "0 \<le> ?n" "?n + 1 \<le> 2 ^ 29" and wf: "array_wf a"
    using assms by (auto simp: array_invar_def array_wf_def array_getnum_def)
  obtain r b where set: "array_setsize ok a (?n + 1) = Some (r, b)" "array_wf b"
      and cases: "r = Inr () \<and> arr_num b = ?n + 1 \<and>
                   take (nat ?n) (arr_cells b) = take (nat ?n) (arr_cells a) \<or>
                  r = Inl ENOMEM \<and> \<not> ok \<and> b = a"
    using array_setsize_wf [OF wf, of "?n + 1" ok] n by (auto simp: Let_def min_def)
  show ?thesis
    using cases
  proof
    assume ok: "r = Inr () \<and> arr_num b = ?n + 1 \<and>
      take (nat ?n) (arr_cells b) = take (nat ?n) (arr_cells a)"
    then obtain v where v: "arr_v b = Some v" and len: "nat ?n < length v"
      using set(2) n by (cases "arr_v b") (auto simp: array_wf_def)
    let ?b = "b\<lparr>arr_v := Some (v[nat ?n := Some x])\<rparr>"
    have add: "array_add ok a x = Some (Inr (), ?b)"
      using set ok v n len by (simp add: array_add_def)
    have tk: "take (nat (?n + 1)) (v[nat ?n := Some x]) = take (nat ?n) (arr_cells a) @ [Some x]"
      using ok v n len by (simp add: nat_add_distrib take_Suc_conv_app_nth)
    have "array_invar ?b"
      using set(2) v tk ok assms(1) by (auto simp: array_invar_def array_wf_def array_full_def)
    moreover have "array_elems ?b = array_elems a @ [x]"
      using ok tk by (simp add: array_elems_def)
    ultimately show ?thesis using add by blast
  next
    assume "r = Inl ENOMEM \<and> \<not> ok \<and> b = a"
    with set assms show ?thesis by (auto simp: array_add_def)
  qed
qed

lemma length_move_cells: "move_cells v dst src n = Some w \<Longrightarrow> length w = length v"
  by (auto simp: move_cells_def min_def split: if_splits)

text \<open>Closing the hole at \<open>i\<close> in the first \<open>n\<close> cells.\<close>

lemma move_cells_hole:
  assumes "i < n" "n \<le> length v"
  obtains w where "move_cells v i (Suc i) (n - Suc i) = Some w" "length w = length v"
    "take (n - 1) w = take i (take n v) @ drop (Suc i) (take n v)"
proof -
  let ?p = "take i v @ take (n - Suc i) (drop (Suc i) v)"
  let ?w = "?p @ drop (i + (n - Suc i)) v"
  have mv: "move_cells v i (Suc i) (n - Suc i) = Some ?w"
    using assms by (auto simp: move_cells_def)
  have "length ?p = n - 1" using assms by simp
  then have "take (n - 1) ?w = ?p" by (metis append_eq_conv_conj)
  also have "?p = take i (take n v) @ drop (Suc i) (take n v)"
    using assms by (simp add: drop_take min_def)
  finally show thesis using mv length_move_cells [OF mv] by (intro that)
qed

lemma set_take_drop_hole: "set (take i xs @ drop (Suc i) xs) \<subseteq> set xs"
  by (auto dest: in_set_takeD in_set_dropD)

lemma array_remove_in:
  assumes "array_invar a" "0 \<le> i" "i < array_getnum a"
  shows "\<exists>a'. array_remove a i = Some a' \<and> array_invar a'
           \<and> array_elems a' = take (nat i) (array_elems a) @ drop (Suc (nat i)) (array_elems a)"
proof -
  let ?n = "nat (arr_num a)" and ?i = "nat i"
  obtain v where v: "arr_v a = Some v"
    using assms by (cases "arr_v a") (auto simp: array_invar_def array_wf_def array_getnum_def)
  have len: "?i < ?n" "?n \<le> length v"
    using assms v by (auto simp: array_invar_def array_wf_def array_getnum_def)
  obtain w where w: "move_cells v ?i (Suc ?i) (?n - Suc ?i) = Some w" "length w = length v"
      "take (?n - 1) w = take ?i (take ?n v) @ drop (Suc ?i) (take ?n v)"
    using len by (rule move_cells_hole)
  have nm: "nat (arr_num a - (i + 1)) = ?n - Suc ?i" "nat (arr_num a - 1) = ?n - 1"
    using assms len by (auto simp: array_getnum_def)
  let ?a = "a\<lparr>arr_num := arr_num a - 1, arr_v := Some w\<rparr>"
  have "array_remove a i = Some ?a"
    using assms v w(1) nm
    by (simp add: array_remove_def array_invar_def array_wf_def array_getnum_def Let_def)
  moreover have "array_wf ?a"
    using assms v w(2) by (simp add: array_invar_def array_wf_def array_getnum_def)
  moreover have "array_full ?a"
    using assms(1) v nm(2) w(3) set_take_drop_hole [of ?i "take ?n v"]
    unfolding array_invar_def array_full_def by (simp del: take_take set_append) blast
  moreover have "array_elems ?a = take ?i (array_elems a) @ drop (Suc ?i) (array_elems a)"
    using v nm(2) w(3) by (simp add: array_elems_def take_map drop_map del: take_take)
  ultimately show ?thesis unfolding array_invar_def by blast
qed

lemma array_remove_out:
  "array_invar a \<Longrightarrow> \<not> (0 \<le> i \<and> i < array_getnum a) \<Longrightarrow> array_remove a i = None"
  by (auto simp: array_remove_def array_getnum_def kassert_bind)

interpretation arr: vector array_getnum array_getguy array_setguy array_add array_remove
  array_elems array_invar
proof (unfold_locales, goal_cases)
  case (1 v)
  then show ?case
    by (simp add: array_getnum_def length_array_elems array_invar_def array_wf_def)
next
  case (2 v i)
  then show ?case by (rule array_getguy_eq)
next
  case (3 v i x)
  then show ?case by (rule array_setguy_in)
next
  case (4 v i x)
  then show ?case by (rule array_setguy_out)
next
  case (5 v ok x)
  then show ?case by (rule array_add_room)
next
  case (6 v i)
  then show ?case by (rule array_remove_in)
next
  case (7 v i)
  then show ?case by (rule array_remove_out)
qed

lemma array_create_invar: "array_create True = Some a \<Longrightarrow> array_invar a \<and> array_elems a = []"
  by (auto simp: array_create_def array_invar_def array_wf_def array_full_def array_elems_def)

section \<open>Properties\<close>

text \<open>While the visible size is below the allocated one, adding needs no memory.\<close>

lemma array_add_no_alloc:
  assumes "array_invar a" "arr_num a < arr_max a"
  shows "\<exists>a'. array_add ok a x = Some (Inr (), a') \<and> array_invar a' \<and>
           array_elems a' = array_elems a @ [x] \<and> arr_max a' = arr_max a"
proof -
  obtain v where v: "arr_v a = Some v"
    using assms by (cases "arr_v a") (auto simp: array_invar_def array_wf_def)
  have n: "0 \<le> arr_num a" "arr_num a < int (length v)" "arr_num a \<noteq> -1"
    using assms v by (auto simp: array_invar_def array_wf_def)
  let ?n = "nat (arr_num a)"
  let ?a = "a\<lparr>arr_num := arr_num a + 1, arr_v := Some (v[?n := Some x])\<rparr>"
  have "array_add ok a x = Some (Inr (), ?a)"
    using assms n v
    by (simp add: array_add_def array_setsize_def array_invar_def array_wf_def Let_def)
  moreover have tk: "take (nat (arr_num a + 1)) (v[?n := Some x]) = take ?n v @ [Some x]"
    using n by (simp add: nat_add_distrib take_Suc_conv_app_nth)
  have "array_invar ?a"
    using assms v n tk by (auto simp: array_invar_def array_wf_def array_full_def)
  moreover have "array_elems ?a = array_elems a @ [x]"
    using v tk by (simp add: array_elems_def)
  ultimately show ?thesis by simp
qed

text \<open>Growing keeps the elements and reaches the requested capacity.\<close>

lemma array_preallocate_keeps:
  assumes "array_invar a" "nguys \<le> 2 ^ 29"
  shows "\<exists>a'. array_preallocate True a nguys = Some (Inr (), a') \<and> array_invar a' \<and>
           array_elems a' = array_elems a \<and> nguys \<le> arr_max a'"
proof -
  have wf: "array_wf a" and full: "array_full a" using assms(1) by (simp_all add: array_invar_def)
  obtain r a' where ra: "array_preallocate True a nguys = Some (r, a')" "array_wf a'"
      "arr_num a' = arr_num a"
      "take (nat (arr_num a)) (arr_cells a') = take (nat (arr_num a)) (arr_cells a)"
      and r: "r = Inr () \<and> nguys \<le> arr_max a' \<and> arr_max a \<le> arr_max a' \<and> True \<or>
            r = Inl ENOMEM \<and> \<not> True \<and> a' = a"
    using array_preallocate_wf [OF wf assms(2), of True] by (elim exE conjE) (rule that)
  have "array_invar a'" "array_elems a' = array_elems a"
    using full ra(2) unfolding array_invar_def array_full_def array_elems_def ra(3,4) by simp_all
  then show ?thesis using ra(1) r by (intro exI [of _ a']) simp
qed

text \<open>
  Claim C31: adding to an array of fewer than \<open>2 ^ 29\<close> elements always returns; it appends the
  element when memory can be had or a spare cell exists, and otherwise reports
  \<open>ENOMEM\<close> and leaves the array exactly as it was.
\<close>

theorem array_add_appends:
  assumes "array_invar a" "array_getnum a < 2 ^ 29"
  shows "\<exists>r a'. array_add ok a x = Some (r, a') \<and> array_invar a' \<and>
           (if ok \<or> arr_num a < arr_max a then r = Inr () \<and> array_elems a' = array_elems a @ [x]
            else r = Inl ENOMEM \<and> array_elems a' = array_elems a)"
proof (cases "arr_num a < arr_max a")
  case True
  then show ?thesis using array_add_no_alloc [OF assms(1), of ok x] by auto
next
  case False
  show ?thesis
  proof (cases ok)
    case True
    then show ?thesis using arr.add_room [OF assms, of ok x] by auto
  next
    case nok: False
    obtain r a' where ra: "array_add ok a x = Some (r, a')" "array_invar a'"
        "r = Inr () \<and> array_elems a' = array_elems a @ [x] \<or>
         r = Inl ENOMEM \<and> array_elems a' = array_elems a"
      using arr.add_room [OF assms, of ok x] by blast
    have "arr_num a + 1 > arr_max a" "0 \<le> arr_num a" "arr_num a \<le> arr_max a" "array_wf a"
      using assms(1) False by (auto simp: array_invar_def array_wf_def)
    moreover obtain r' b where "array_preallocate ok a (arr_num a + 1) = Some (Inl ENOMEM, b)"
      using array_preallocate_wf [of a "arr_num a + 1" ok] calculation assms(2) nok
      by (auto simp: array_getnum_def)
    ultimately have "r = Inl ENOMEM"
      using ra(1) by (auto simp: array_add_def array_setsize_def)
    then show ?thesis using ra False nok by auto
  qed
qed

theorem array_add_appends_witness:
  "array_invar \<lparr>arr_num = 1, arr_max = 1, arr_v = Some [Some (7::nat)]\<rparr> \<and>
   (\<exists>r a'. array_add False \<lparr>arr_num = 1, arr_max = 1, arr_v = Some [Some (7::nat)]\<rparr> 8 = Some (r, a')
      \<and> r = Inl ENOMEM \<and> array_elems a' = [7])"
proof -
  let ?a = "\<lparr>arr_num = 1, arr_max = 1, arr_v = Some [Some (7::nat)]\<rparr>"
  have inv: "array_invar ?a" "array_getnum ?a < 2 ^ 29"
    by (simp_all add: array_invar_def array_wf_def array_full_def array_getnum_def)
  then show ?thesis
    using array_add_appends [OF inv, of False 8] by (auto simp: array_elems_def)
qed

text \<open>
  The contract of \<^verbatim>\<open>array_preallocate\<close> that the thread system builds on.
  A successful call keeps the elements, raises the capacity to at least the
  request, and from then on adding an element below that capacity cannot fail, whatever
  the allocator does, and does not consume the reserved capacity.
\<close>

lemma array_preallocate_reserves:
  assumes "array_invar a" "nguys \<le> 2 ^ 29"
  shows "\<exists>a'. array_preallocate True a nguys = Some (Inr (), a') \<and> array_invar a' \<and>
           array_elems a' = array_elems a \<and> nguys \<le> arr_max a' \<and>
           (\<forall>b x ok. array_invar b \<and> arr_max b = arr_max a' \<and> array_getnum b < arr_max a' \<longrightarrow>
              (\<exists>b'. array_add ok b x = Some (Inr (), b') \<and> array_invar b' \<and>
                 arr_max b' = arr_max a' \<and> array_elems b' = array_elems b @ [x]))"
proof -
  obtain a' where pre: "array_preallocate True a nguys = Some (Inr (), a')" "nguys \<le> arr_max a'"
      and el: "array_invar a'" "array_elems a' = array_elems a"
    using array_preallocate_keeps [OF assms] by (elim exE conjE) (rule that)
  have add: "\<exists>b'. array_add ok b x = Some (Inr (), b') \<and> array_invar b' \<and>
      arr_max b' = arr_max a' \<and> array_elems b' = array_elems b @ [x]"
    if b: "array_invar b \<and> arr_max b = arr_max a' \<and> array_getnum b < arr_max a'" for b x ok
  proof -
    have "array_invar b" "arr_num b < arr_max b" using b by (simp_all add: array_getnum_def)
    from array_add_no_alloc [OF this, of ok x] show ?thesis using b by (elim exE) auto
  qed
  show ?thesis
    by (rule exI [of _ a'], intro conjI allI impI)
      (rule pre(1) el pre(2) add, assumption?)+
qed

lemma array_preallocate_reserves_witness:
  "array_invar \<lparr>arr_num = 1, arr_max = 1, arr_v = Some [Some (7::nat)]\<rparr> \<and>
   (\<exists>a'. array_preallocate True \<lparr>arr_num = 1, arr_max = 1, arr_v = Some [Some (7::nat)]\<rparr> 3
      = Some (Inr (), a') \<and> 3 \<le> arr_max a')"
proof -
  let ?a = "\<lparr>arr_num = 1, arr_max = 1, arr_v = Some [Some (7::nat)]\<rparr>"
  have inv: "array_invar ?a"
    by (simp add: array_invar_def array_wf_def array_full_def)
  then show ?thesis using array_preallocate_reserves [OF inv, of 3] by auto
qed

lemma cell_hole:
  assumes "i < length xs"
  shows "cell (take i xs @ drop (Suc i) xs) j = (if j < int i then cell xs j else cell xs (j + 1))"
proof (cases "0 \<le> j")
  case True
  then obtain k where "j = int k" using nonneg_int_cases by blast
  moreover have "int k + 1 = int (Suc k)" by simp
  ultimately show ?thesis
    using assms by (auto simp: cell_def nth_append nat_add_distrib)
qed (simp add: cell_def)

text \<open>
  Removing element \<open>i\<close> keeps the order of the others and closes the hole, and an
  index outside the array panics.
\<close>

lemma array_remove_closes_hole:
  assumes "array_invar a"
  shows "if 0 \<le> i \<and> i < array_getnum a
         then \<exists>a'. array_remove a i = Some a' \<and> array_invar a' \<and> array_getnum a' = array_getnum a - 1 \<and>
                (\<forall>j. array_getguy a' j = (if j < i then array_getguy a j else array_getguy a (j + 1)))
         else array_remove a i = None"
proof (cases "0 \<le> i \<and> i < array_getnum a")
  case True
  then obtain a' where a': "array_remove a i = Some a'" "array_invar a'"
      and el: "array_elems a' = take (nat i) (array_elems a) @ drop (Suc (nat i)) (array_elems a)"
    using arr.remove_in [OF assms, of i] by blast
  have i: "nat i < length (array_elems a)" using True arr.getnum [OF assms] by linarith
  then have "array_getnum a' = array_getnum a - 1"
    using arr.getnum [OF assms] arr.getnum [OF a'(2)] by (simp add: el)
  moreover have "array_getguy a' j = (if j < i then array_getguy a j else array_getguy a (j + 1))" for j
    using cell_hole [OF i, of j] True unfolding arr.getguy [OF assms] arr.getguy [OF a'(2)] el by simp
  ultimately show ?thesis using a' True by simp
next
  case False
  then show ?thesis using arr.remove_out [OF assms, of i] by auto
qed

lemma array_remove_closes_hole_witness:
  "array_invar \<lparr>arr_num = 2, arr_max = 2, arr_v = Some [Some (7::nat), Some 8]\<rparr> \<and>
   (\<exists>a'. array_remove \<lparr>arr_num = 2, arr_max = 2, arr_v = Some [Some (7::nat), Some 8]\<rparr> 0 = Some a'
      \<and> array_getguy a' 0 = Some 8)"
proof -
  let ?a = "\<lparr>arr_num = 2, arr_max = 2, arr_v = Some [Some (7::nat), Some 8]\<rparr>"
  have inv: "array_invar ?a"
    by (simp add: array_invar_def array_wf_def array_full_def)
  then obtain a' where a': "array_remove ?a 0 = Some a'"
      "array_getguy a' 0 = array_getguy ?a (0 + 1)"
    using array_remove_closes_hole [OF inv, of 0] by (auto simp: array_getnum_def)
  moreover have "array_getguy ?a (0 + 1) = Some 8" by (simp add: array_getguy_def)
  ultimately show ?thesis using inv by (metis)
qed

text \<open>
  The doubling loop never ends on a request above \<open>2 ^ 30\<close>: from 1 it visits only powers of
  two up to \<open>2 ^ 30\<close>, then the negative \<open>- 2 ^ 31\<close>, then stays at 0.
\<close>

definition doubling_orbit :: "int set" where
  "doubling_orbit = {0, - (2 ^ 31)} \<union> (\<lambda>k. 2 ^ k) ` {..30}"

lemma doubling_orbit_step: "m \<in> doubling_orbit \<Longrightarrow> c_int (m * 2) \<in> doubling_orbit"
proof -
  assume "m \<in> doubling_orbit"
  then consider "m = 0" | "m = - (2 ^ 31)" | "m = 2 ^ 30" | k where "m = 2 ^ k" "k < 30"
    by (fastforce simp: doubling_orbit_def le_less)
  then show ?thesis
  proof cases
    case 4
    then have "(2::int) ^ k \<le> 2 ^ 29" by (intro power_increasing) simp_all
    with 4 have "c_int (m * 2) = 2 ^ Suc k" using c_int_double [of m] by simp
    moreover have "(2::int) ^ Suc k \<in> (\<lambda>k. 2 ^ k) ` {..30}" using 4(2) by (intro imageI) simp
    ultimately show ?thesis unfolding doubling_orbit_def by (simp only:) blast
  qed (simp_all add: c_int_def doubling_orbit_def)
qed

lemma doubling_orbit_le: "m \<in> doubling_orbit \<Longrightarrow> m \<le> 2 ^ 30"
proof -
  have "(2::int) ^ k \<le> 2 ^ 30" if "k \<le> 30" for k
    using that by (intro power_increasing) simp_all
  then show "m \<in> doubling_orbit \<Longrightarrow> m \<le> 2 ^ 30" by (auto simp: doubling_orbit_def)
qed

lemma one_in_orbit: "1 \<in> doubling_orbit"
  unfolding doubling_orbit_def by (rule UnI2) (rule image_eqI [of _ _ 0]; simp)

lemma grow_max_leaves_orbit:
  assumes "grow_max n m = Some r"
  shows "2 ^ 30 < n \<longrightarrow> m \<notin> doubling_orbit"
proof (rule grow_max.raw_induct [OF _ assms])
  fix g :: "int \<Rightarrow> int \<Rightarrow> int option" and n m r
  assume IH: "\<And>n m r. g n m = Some r \<Longrightarrow> 2 ^ 30 < n \<longrightarrow> m \<notin> doubling_orbit"
    and eq: "(if n > m then g n (c_int (m * 2)) else Some m) = Some r"
  show "2 ^ 30 < n \<longrightarrow> m \<notin> doubling_orbit"
    using IH [of n "c_int (m * 2)" r] eq doubling_orbit_step [of m] doubling_orbit_le [of m]
    by (cases "n > m") auto
qed

text \<open>
  Claim C40: \<^verbatim>\<open>array_preallocate\<close> on a fresh array never returns when it is asked for
  more than \<open>2 ^ 30\<close> elements: the 32-bit doubling overflows and the loop does not end.
\<close>

theorem array_preallocate_overflow_diverges:
  assumes "array_create True = Some a" "2 ^ 30 < nguys"
  shows "array_preallocate ok a nguys = None"
proof -
  have "r \<noteq> Some m" if "r = grow_max nguys 1" for r m
    using that grow_max_leaves_orbit [of nguys 1 m] assms(2) one_in_orbit by auto
  then have "grow_max nguys 1 = None" by (cases "grow_max nguys 1") auto
  with assms show ?thesis
    by (auto simp: array_create_def array_preallocate_def)
qed

theorem array_preallocate_overflow_diverges_witness:
  "array_preallocate True (\<lparr>arr_num = 0, arr_max = 0, arr_v = None\<rparr> :: nat karray) (2 ^ 30 + 1) = None"
  using array_preallocate_overflow_diverges [of "\<lparr>arr_num = 0, arr_max = 0, arr_v = None\<rparr>" "2 ^ 30 + 1" True]
  by (simp add: array_create_def)

end
