(* ===== verification/Kern_Fifo.thy ===== *)
theory Kern_Fifo
  imports Kern_Prelude
begin

text \<open>
  The first-in first-out interface that the scheduler, the sleep queues of the
  synchronisation primitives, the free slots of a table and the page replacement order rely on.
  The ring buffer and the linked list both provide it.
\<close>

section \<open>Operation sequences\<close>

datatype 'a q_op = Enq 'a | Deq

text \<open>The reference machine: a list, added to at the end and taken from at the front.\<close>

fun list_run :: "'a list \<Rightarrow> 'a q_op list \<Rightarrow> ('a list \<times> 'a list) option" where
  "list_run xs [] = Some ([], xs)"
| "list_run xs (Enq x # ops) = list_run (xs @ [x]) ops"
| "list_run [] (Deq # ops) = None"
| "list_run (x # xs) (Deq # ops) = do { (out, ys) \<leftarrow> list_run xs ops; Some (x # out, ys) }"

text \<open>The same sequence on an implementation whose memory requests succeed.\<close>

fun run_ops ::
    "(bool \<Rightarrow> 'q \<Rightarrow> 'a \<Rightarrow> (('e + unit) \<times> 'q) option) \<Rightarrow> ('q \<Rightarrow> ('a \<times> 'q) option) \<Rightarrow>
     'q \<Rightarrow> 'a q_op list \<Rightarrow> ('a list \<times> 'q) option" where
  "run_ops add rem q [] = Some ([], q)"
| "run_ops add rem q (Enq x # ops) = do {
     (r, q') \<leftarrow> add True q x;
     kassert (r = Inr ());
     run_ops add rem q' ops }"
| "run_ops add rem q (Deq # ops) = do {
     (x, q') \<leftarrow> rem q;
     (out, q'') \<leftarrow> run_ops add rem q' ops;
     Some (x # out, q'') }"

section \<open>The interface\<close>

text \<open>\<open>limit\<close> bounds the number of elements up to which an addition returns at all.\<close>

locale fifo =
  fixes addtail :: "bool \<Rightarrow> 'q \<Rightarrow> 'a \<Rightarrow> (('e + unit) \<times> 'q) option"
    and remhead :: "'q \<Rightarrow> ('a \<times> 'q) option"
    and isempty :: "'q \<Rightarrow> bool"
    and elems :: "'q \<Rightarrow> 'a list"
    and invar :: "'q \<Rightarrow> bool"
    and nomem :: 'e
    and limit :: nat
  assumes isempty: "invar q \<Longrightarrow> isempty q \<longleftrightarrow> elems q = []"
    and addtail: "invar q \<Longrightarrow> length (elems q) < limit \<Longrightarrow>
          \<exists>r q'. addtail ok q x = Some (r, q') \<and> invar q' \<and>
            (r = Inr () \<and> elems q' = elems q @ [x] \<or>
             r = Inl nomem \<and> \<not> ok \<and> elems q' = elems q)"
    and remhead_Cons: "invar q \<Longrightarrow> elems q = x # xs \<Longrightarrow>
          \<exists>q'. remhead q = Some (x, q') \<and> invar q' \<and> elems q' = xs"
    and remhead_Nil: "invar q \<Longrightarrow> elems q = [] \<Longrightarrow> remhead q = None"
begin

lemma addtail_success:
  assumes "invar q" "length (elems q) < limit"
  obtains q' where "addtail True q x = Some (Inr (), q')" "invar q'" "elems q' = elems q @ [x]"
  using addtail [OF assms, of True x] by auto

text \<open>Any interleaving of additions and removals behaves as on the list, panics included.\<close>

lemma run_ops_refines:
  assumes "invar q" "length (elems q) + length ops \<le> limit"
  shows "case list_run (elems q) ops of
           None \<Rightarrow> run_ops addtail remhead q ops = None
         | Some (out, xs) \<Rightarrow>
             \<exists>q'. run_ops addtail remhead q ops = Some (out, q') \<and> invar q' \<and> elems q' = xs"
  using assms
proof (induction ops arbitrary: q)
  case Nil
  then show ?case by simp
next
  case (Cons op ops)
  show ?case
  proof (cases op)
    case (Enq x)
    obtain q' where q': "addtail True q x = Some (Inr (), q')" "invar q'" "elems q' = elems q @ [x]"
      using addtail_success [OF Cons.prems(1), of x] Cons.prems(2) by auto
    then show ?thesis using Cons.IH [OF q'(2)] Cons.prems(2) unfolding Enq by (auto split: option.splits)
  next
    case Deq
    show ?thesis
    proof (cases "elems q")
      case Nil
      then show ?thesis using remhead_Nil [OF Cons.prems(1)] unfolding Deq by simp
    next
      case (Cons x xs)
      then obtain q' where q': "remhead q = Some (x, q')" "invar q'" "elems q' = xs"
        using remhead_Cons [OF \<open>invar q\<close>] by blast
      then show ?thesis
        using Cons.IH [OF q'(2)] \<open>length (elems q) + length (op # ops) \<le> limit\<close> Cons
        unfolding Deq by (auto split: option.splits)
    qed
  qed
qed

end

end
