(* ===== verification/Kern_Queue.thy ===== *)
theory Kern_Queue
  imports Kern_Fifo
begin

text \<open>
  The ring buffer of \<^verbatim>\<open>kern/lib/queue.c\<close> and the proof that it provides the
  \<open>fifo\<close> interface.
\<close>

section \<open>Data\<close>

text \<open>\<^verbatim>\<open>struct queue\<close>; \<open>None\<close> in the data block is a cell nobody has written.\<close>

record 'a kqueue =
  q_size :: int
  q_nextwrite :: int
  q_nextread :: int
  q_data :: "'a option list"

datatype queue_block = Blk_queue | Blk_queue_data

section \<open>Operations\<close>

text \<open>
  The loop of \<^verbatim>\<open>q_grow\<close>: doubling at 32 bits, with the assertion that stops it when
  the product is no longer positive.
\<close>

partial_function (option) grow_size :: "int \<Rightarrow> int \<Rightarrow> int option" where
  "grow_size nsize targetsize =
     (if nsize < targetsize
      then do { kassert (c_int (nsize * 2) > 0); grow_size (c_int (nsize * 2)) targetsize }
      else Some nsize)"

declare grow_size.simps [code]

definition q_fresh :: "int \<Rightarrow> 'a option list" where
  "q_fresh n = replicate (nat (c_size (n * 4) div 4)) None"

text \<open>
  \<^verbatim>\<open>for (i=onr; i!=onw; i = (i+1)%osize) q_addtail(q, olddata[i])\<close>. The index repeats
  after \<open>osize\<close> rounds, so \<open>osize + 1\<close> units of fuel cover every run that ends.
\<close>

type_synonym 'a adder = "'a kqueue \<Rightarrow> 'a \<Rightarrow> ((errno + unit) \<times> 'a kqueue) option"

fun q_refill :: "'a adder \<Rightarrow> nat \<Rightarrow> 'a option list \<Rightarrow> int \<Rightarrow> int \<Rightarrow> int \<Rightarrow> 'a kqueue \<Rightarrow> 'a kqueue option" where
  "q_refill add 0 olddata osize onw i q = None"
| "q_refill add (Suc fuel) olddata osize onw i q =
     (if i = onw then Some q
      else do {
        c \<leftarrow> cell olddata i;
        ptr \<leftarrow> c;
        (result, q') \<leftarrow> add q ptr;
        kassert (result = Inr ());
        q_refill add fuel olddata osize onw ((i + 1) smod osize) q' })"

definition q_grow_with ::
    "'a adder \<Rightarrow> bool \<Rightarrow> 'a kqueue \<Rightarrow> int \<Rightarrow> ((errno + unit) \<times> 'a kqueue) option" where
  "q_grow_with add ok q targetsize = do {
     let olddata = q_data q;
     let onr = q_nextread q;
     let onw = q_nextwrite q;
     let osize = q_size q;
     nsize \<leftarrow> grow_size osize targetsize;
     if \<not> ok then Some (Inl ENOMEM, q)
     else do {
       q' \<leftarrow> q_refill add (Suc (nat osize)) olddata osize onw onr
               (q\<lparr>q_size := nsize, q_data := q_fresh nsize, q_nextread := 0, q_nextwrite := 0\<rparr>);
       Some (Inr (), q') } }"

text \<open>
  \<^verbatim>\<open>q_addtail\<close> calls \<^verbatim>\<open>q_grow\<close>, which calls \<^verbatim>\<open>q_addtail\<close> on the enlarged
  queue. The first argument bounds the depth of that recursion; the calls made from inside
  \<^verbatim>\<open>q_grow\<close> find room and do not grow again, so depth 2 is enough
  (\<open>q_addtail_depth\<close> below).
\<close>

fun q_addtail_at :: "nat \<Rightarrow> bool \<Rightarrow> 'a adder" where
  "q_addtail_at 0 ok q ptr = None"
| "q_addtail_at (Suc depth) ok q ptr = do {
     kassert (q_size q > 0);
     let nextnext = (q_nextwrite q + 1) smod q_size q;
     (result, q') \<leftarrow>
       (if nextnext = q_nextread q then q_grow_with (q_addtail_at depth ok) ok q (q_size q + 1)
        else Some (Inr (), q));
     (case result of
        Inl e \<Rightarrow> Some (Inl e, q')
      | Inr _ \<Rightarrow> do {
          let nextnext' = (q_nextwrite q' + 1) smod q_size q';
          data \<leftarrow> set_cell (q_data q') (q_nextwrite q') (Some ptr);
          Some (Inr (), q'\<lparr>q_data := data, q_nextwrite := nextnext'\<rparr>) }) }"

declare q_addtail_at.simps [simp del]

definition q_addtail :: "bool \<Rightarrow> 'a adder" where
  "q_addtail ok = q_addtail_at 2 ok"

definition q_grow :: "bool \<Rightarrow> 'a kqueue \<Rightarrow> int \<Rightarrow> ((errno + unit) \<times> 'a kqueue) option" where
  "q_grow ok = q_grow_with (q_addtail ok) ok"

definition q_create :: "bool \<Rightarrow> bool \<Rightarrow> int \<Rightarrow> 'a kqueue option" where
  "q_create ok1 ok2 sz =
     (if \<not> ok1 then None
      else if \<not> ok2 then None
      else Some \<lparr>q_size = sz, q_nextwrite = 0, q_nextread = 0, q_data = q_fresh sz\<rparr>)"

definition q_preallocate :: "bool \<Rightarrow> 'a kqueue \<Rightarrow> int \<Rightarrow> ((errno + unit) \<times> 'a kqueue) option" where
  "q_preallocate ok q sz = do {
     kassert (q_size q > 0);
     if sz > q_size q then q_grow ok q sz else Some (Inr (), q) }"

definition q_empty :: "'a kqueue \<Rightarrow> bool" where
  "q_empty q = (q_nextwrite q = q_nextread q)"

definition q_remhead :: "'a kqueue \<Rightarrow> ('a \<times> 'a kqueue) option" where
  "q_remhead q = do {
     kassert (q_size q > 0);
     kassert (\<not> q_empty q);
     c \<leftarrow> cell (q_data q) (q_nextread q);
     ret \<leftarrow> c;
     Some (ret, q\<lparr>q_nextread := (q_nextread q + 1) smod q_size q\<rparr>) }"

definition q_destroy :: "'a kqueue \<Rightarrow> queue_block list option" where
  "q_destroy q = do { kassert (q_empty q); Some [Blk_queue_data, Blk_queue] }"

definition q_getstart :: "'a kqueue \<Rightarrow> int" where
  "q_getstart q = q_nextread q"

definition q_getend :: "'a kqueue \<Rightarrow> int" where
  "q_getend q = q_nextwrite q"

definition q_getsize :: "'a kqueue \<Rightarrow> int" where
  "q_getsize q = q_size q"

definition q_getguy :: "'a kqueue \<Rightarrow> int \<Rightarrow> 'a option" where
  "q_getguy q index = do {
     kassert (index \<ge> 0 \<and> index < q_size q);
     c \<leftarrow> cell (q_data q) index;
     c }"

section \<open>The ring as a list\<close>

lemma ring_dist:
  "0 \<le> i \<Longrightarrow> i < s \<Longrightarrow> 0 \<le> w \<Longrightarrow> w < s \<Longrightarrow>
     (w - i) mod s = (if i \<le> w then w - i else w - i + (s::int))"
  using mod_pos_pos_trivial [of "w - i + s" s] by auto

lemma ring_pos:
  "0 \<le> i \<Longrightarrow> i < s \<Longrightarrow> 0 \<le> k \<Longrightarrow> k < s \<Longrightarrow>
     (i + k) mod s = (if i + k < s then i + k else i + k - (s::int))"
  using mod_pos_pos_trivial [of "i + k - s" s] by auto

definition ring_cells :: "'a option list \<Rightarrow> int \<Rightarrow> int \<Rightarrow> int \<Rightarrow> 'a option list" where
  "ring_cells d s i w = map (\<lambda>k. d ! nat ((i + int k) mod s)) [0..<nat ((w - i) mod s)]"

lemma ring_cells_same [simp]: "ring_cells d s i i = []"
  by (simp add: ring_cells_def)

lemma length_ring_cells: "length (ring_cells d s i w) = nat ((w - i) mod s)"
  by (simp add: ring_cells_def)

lemma ring_dist_step:
  fixes s :: int
  assumes "0 \<le> i" "i < s" "0 \<le> w" "w < s" "i \<noteq> w"
  shows "(w - i) mod s = (w - (i + 1) mod s) mod s + 1" "1 < s"
proof -
  show "1 < s" using assms by linarith
  have "0 < (w - i) mod s" using assms by (auto simp: ring_dist)
  then have "((w - i) mod s - 1) mod s = (w - i) mod s - 1"
    using assms pos_mod_bound [of s "w - i"] by (intro mod_pos_pos_trivial) linarith+
  moreover have "(w - (i + 1) mod s) mod s = ((w - i) mod s - 1) mod s"
    by (simp add: mod_diff_right_eq mod_diff_left_eq algebra_simps)
  ultimately show "(w - i) mod s = (w - (i + 1) mod s) mod s + 1" by simp
qed

lemma ring_cells_Cons:
  assumes "0 \<le> i" "i < s" "0 \<le> w" "w < s" "i \<noteq> w"
  shows "ring_cells d s i w = d ! nat i # ring_cells d s ((i + 1) mod s) w"
proof -
  let ?n = "nat ((w - (i + 1) mod s) mod s)"
  have "nat ((w - i) mod s) = Suc ?n"
    using ring_dist_step [OF assms] assms by (simp add: nat_add_distrib)
  moreover have "(i + int (Suc k)) mod s = ((i + 1) mod s + int k) mod s" for k
    by (simp add: mod_simps algebra_simps)
  ultimately show ?thesis
    using assms by (simp add: ring_cells_def map_upt_Suc del: upt_Suc)
qed

lemma ring_dist_snoc:
  fixes s :: int
  assumes "0 \<le> i" "i < s" "0 \<le> w" "w < s" "(w + 1) mod s \<noteq> i"
  shows "((w + 1) mod s - i) mod s = (w - i) mod s + 1"
proof -
  let ?w = "(w + 1) mod s"
  have "?w = (if w + 1 < s then w + 1 else 0)"
    using assms ring_pos [of w s 1] by (cases "s = 1") auto
  moreover have "0 \<le> ?w" "?w < s" using assms by simp_all
  then have "(?w - i) mod s = (if i \<le> ?w then ?w - i else ?w - i + s)"
    using assms by (intro ring_dist) simp_all
  ultimately show ?thesis
    using assms ring_dist [of i s w] by (simp split: if_splits)
qed

lemma ring_cells_snoc:
  assumes "0 \<le> i" "i < s" "0 \<le> w" "w < s" "(w + 1) mod s \<noteq> i" "int (length d) = s"
  shows "ring_cells (d[nat w := x]) s i ((w + 1) mod s) = ring_cells d s i w @ [x]"
proof -
  let ?n = "nat ((w - i) mod s)"
  have n: "nat (((w + 1) mod s - i) mod s) = Suc ?n"
    using ring_dist_snoc [OF assms(1-5)] assms by (simp add: nat_add_distrib)
  have last: "nat ((i + int ?n) mod s) = nat w"
    using assms by (simp add: mod_add_right_eq)
  have "nat ((i + int k) mod s) \<noteq> nat w" if "k < ?n" for k
  proof -
    have "int k < (w - i) mod s" "(w - i) mod s < s" using that assms by auto
    then have "int k < s" "(i + int k) mod s \<noteq> w"
      using assms by (auto simp: ring_pos ring_dist split: if_splits)
    moreover have "0 \<le> (i + int k) mod s" using assms by simp
    ultimately show ?thesis using assms by (metis nat_eq_iff2 nat_0_le)
  qed
  then have "map (\<lambda>k. d[nat w := x] ! nat ((i + int k) mod s)) [0..<?n]
      = map (\<lambda>k. d ! nat ((i + int k) mod s)) [0..<?n]"
    by (intro map_cong refl nth_list_update_neq) (metis atLeastLessThan_iff set_upt)
  moreover have "nat w < length d" using assms by linarith
  ultimately show ?thesis
    unfolding ring_cells_def n by (simp only: upt_Suc_append map_append list.map last zero_le
      nth_list_update_eq)
qed

section \<open>Well-formed queues\<close>

definition q_wf :: "'a kqueue \<Rightarrow> bool" where
  "q_wf q \<longleftrightarrow> 0 < q_size q \<and> q_size q < 2 ^ 30 \<and> int (length (q_data q)) = q_size q
     \<and> 0 \<le> q_nextread q \<and> q_nextread q < q_size q
     \<and> 0 \<le> q_nextwrite q \<and> q_nextwrite q < q_size q
     \<and> None \<notin> set (ring_cells (q_data q) (q_size q) (q_nextread q) (q_nextwrite q))"

definition q_elems :: "'a kqueue \<Rightarrow> 'a list" where
  "q_elems q = map the (ring_cells (q_data q) (q_size q) (q_nextread q) (q_nextwrite q))"

definition q_room :: "'a kqueue \<Rightarrow> bool" where
  "q_room q \<longleftrightarrow> length (q_elems q) < 2 ^ 28"

lemma q_elems_bound: "q_wf q \<Longrightarrow> int (length (q_elems q)) < q_size q"
  by (simp add: q_wf_def q_elems_def length_ring_cells)

lemma q_empty_iff: "q_wf q \<Longrightarrow> q_empty q \<longleftrightarrow> q_elems q = []"
proof -
  assume wf: "q_wf q"
  then have "q_nextread q \<noteq> q_nextwrite q \<Longrightarrow> q_elems q \<noteq> []"
    by (simp add: q_elems_def q_wf_def ring_cells_Cons)
  then show ?thesis by (metis q_empty_def q_elems_def ring_cells_same list.map(1))
qed

text \<open>The slot after the write position is the read position exactly when all but one slot is used.\<close>

lemma ring_has_slot:
  fixes s :: int
  assumes "0 \<le> i" "i < s" "0 \<le> w" "w < s" "(w - i) mod s + 1 < s"
  shows "(w + 1) mod s \<noteq> i"
proof -
  have "(w + 1) mod s = (if w + 1 < s then w + 1 else 0)"
    using assms ring_pos [of w s 1] by (cases "s = 1") auto
  then show ?thesis using assms ring_dist [of i s w] by (auto split: if_splits)
qed

lemma q_addtail_fits:
  assumes "q_wf q" "(q_nextwrite q + 1) mod q_size q \<noteq> q_nextread q"
  shows "\<exists>q'. q_addtail_at (Suc d) ok q x = Some (Inr (), q') \<and> q_wf q' \<and>
           q_elems q' = q_elems q @ [x] \<and> q_size q' = q_size q"
proof -
  let ?w = "(q_nextwrite q + 1) mod q_size q"
  let ?d = "(q_data q)[nat (q_nextwrite q) := Some x]"
  let ?q = "q\<lparr>q_data := ?d, q_nextwrite := ?w\<rparr>"
  have wf: "0 < q_size q" "int (length (q_data q)) = q_size q" "0 \<le> q_nextread q"
      "q_nextread q < q_size q" "0 \<le> q_nextwrite q" "q_nextwrite q < q_size q"
    using assms(1) by (simp_all add: q_wf_def)
  have "q_addtail_at (Suc d) ok q x = Some (Inr (), ?q)"
    using wf assms(2) by (simp add: q_addtail_at.simps Let_def)
  moreover have cells: "ring_cells ?d (q_size q) (q_nextread q) ?w
      = ring_cells (q_data q) (q_size q) (q_nextread q) (q_nextwrite q) @ [Some x]"
    using wf assms(2) by (intro ring_cells_snoc) simp_all
  moreover have "q_wf ?q"
    using assms(1) wf cells by (simp add: q_wf_def)
  moreover have "q_elems ?q = q_elems q @ [x]"
    using cells by (simp add: q_elems_def)
  ultimately show ?thesis by (intro exI [of _ ?q]) simp
qed

lemma q_addtail_slot:
  assumes "q_wf q" "int (length (q_elems q)) + 1 < q_size q"
  shows "\<exists>q'. q_addtail_at (Suc d) ok q x = Some (Inr (), q') \<and> q_wf q' \<and>
           q_elems q' = q_elems q @ [x] \<and> q_size q' = q_size q"
proof (rule q_addtail_fits [OF assms(1)], rule ring_has_slot)
  show "(q_nextwrite q - q_nextread q) mod q_size q + 1 < q_size q"
    using assms by (simp add: q_elems_def length_ring_cells q_wf_def)
qed (use assms(1) in \<open>simp_all add: q_wf_def\<close>)

lemma q_refill_all:
  assumes "0 \<le> i" "i < s" "0 \<le> w" "w < s" "int (length old) = s"
    and "None \<notin> set (ring_cells old s i w)" "length (ring_cells old s i w) < fuel"
    and "q_wf q" "int (length (q_elems q) + length (ring_cells old s i w)) < q_size q"
  shows "\<exists>q'. q_refill (q_addtail_at (Suc d) ok) fuel old s w i q = Some q' \<and> q_wf q' \<and>
           q_elems q' = q_elems q @ map the (ring_cells old s i w) \<and> q_size q' = q_size q"
  using assms
proof (induction fuel arbitrary: i q)
  case 0
  then show ?case by simp
next
  case (Suc fuel)
  show ?case
  proof (cases "i = w")
    case True
    then show ?thesis using Suc.prems by simp
  next
    case False
    let ?i = "(i + 1) mod s"
    have ring: "ring_cells old s i w = old ! nat i # ring_cells old s ?i w"
      using Suc.prems False by (intro ring_cells_Cons) simp_all
    then obtain x where x: "old ! nat i = Some x" using Suc.prems(6) by (cases "old ! nat i") auto
    have "int (length (q_elems q)) + 1 < q_size q" using Suc.prems(9) ring by simp
    then obtain q1 where q1: "q_addtail_at (Suc d) ok q x = Some (Inr (), q1)" "q_wf q1"
        "q_elems q1 = q_elems q @ [x]" "q_size q1 = q_size q"
      using q_addtail_slot [OF Suc.prems(8)] by blast
    have "\<exists>q'. q_refill (q_addtail_at (Suc d) ok) fuel old s w ?i q1 = Some q' \<and> q_wf q' \<and>
        q_elems q' = q_elems q1 @ map the (ring_cells old s ?i w) \<and> q_size q' = q_size q1"
      by (rule Suc.IH) (use Suc.prems q1 ring in simp_all)
    moreover have "q_refill (q_addtail_at (Suc d) ok) (Suc fuel) old s w i q
        = q_refill (q_addtail_at (Suc d) ok) fuel old s w ?i q1"
      using False Suc.prems(1-5) x q1(1) by simp
    ultimately show ?thesis using q1 ring x by simp
  qed
qed

lemma grow_size_returns:
  assumes "0 < n" "n < 2 ^ 30" "t \<le> 2 ^ 29"
  shows "\<exists>r. grow_size n t = Some r \<and> t \<le> r \<and> n \<le> r \<and> (r = n \<or> r < 2 * t)"
  using assms
proof (induction "nat (t - n)" arbitrary: n rule: less_induct)
  case less
  show ?case
  proof (cases "n < t")
    case False
    then show ?thesis by (simp add: grow_size.simps [of n t])
  next
    case True
    then have dbl: "c_int (n * 2) = n * 2" using less.prems by simp
    have "\<exists>r. grow_size (n * 2) t = Some r \<and> t \<le> r \<and> n * 2 \<le> r \<and> (r = n * 2 \<or> r < 2 * t)"
      using less.prems True by (intro less.hyps) simp_all
    then show ?thesis
      using True less.prems(1) by (auto simp: grow_size.simps [of n t] dbl)
  qed
qed

lemma q_fresh_length: "0 \<le> n \<Longrightarrow> n < 2 ^ 30 \<Longrightarrow> int (length (q_fresh n)) = n"
  by (simp add: q_fresh_def)

lemma q_grow_with_wf:
  assumes "q_wf q" "target \<le> 2 ^ 29"
  shows "\<exists>r q'. q_grow_with (q_addtail_at (Suc d) ok) ok q target = Some (r, q') \<and> q_wf q' \<and>
           q_elems q' = q_elems q \<and>
           (if ok then r = Inr () \<and> target \<le> q_size q' \<and> q_size q \<le> q_size q'
            else r = Inl ENOMEM \<and> q' = q)"
proof -
  obtain n where n: "grow_size (q_size q) target = Some n" "target \<le> n" "q_size q \<le> n"
      "n = q_size q \<or> n < 2 * target"
    using grow_size_returns [of "q_size q" target] assms by (auto simp: q_wf_def)
  show ?thesis
  proof (cases ok)
    case False
    then show ?thesis using n(1) assms(1) by (simp add: q_grow_with_def)
  next
    case True
    let ?q = "q\<lparr>q_size := n, q_data := q_fresh n, q_nextread := 0, q_nextwrite := 0\<rparr>"
    have nb: "0 < n" "n < 2 ^ 30" using n assms by (auto simp: q_wf_def)
    have new: "q_wf ?q" "q_elems ?q = []"
      using nb q_fresh_length [of n] by (simp_all add: q_wf_def q_elems_def)
    have len: "int (length (ring_cells (q_data q) (q_size q) (q_nextread q) (q_nextwrite q))) < q_size q"
      using q_elems_bound [OF assms(1)] by (simp add: q_elems_def)
    have "\<exists>q'. q_refill (q_addtail_at (Suc d) ok) (Suc (nat (q_size q))) (q_data q) (q_size q)
        (q_nextwrite q) (q_nextread q) ?q = Some q' \<and> q_wf q' \<and>
        q_elems q' = q_elems ?q @
          map the (ring_cells (q_data q) (q_size q) (q_nextread q) (q_nextwrite q)) \<and>
        q_size q' = q_size ?q"
      by (rule q_refill_all) (use assms(1) new len n in \<open>simp_all add: q_wf_def\<close>)
    then obtain q' where "q_refill (q_addtail_at (Suc d) ok) (Suc (nat (q_size q))) (q_data q) (q_size q)
        (q_nextwrite q) (q_nextread q) ?q = Some q'" "q_wf q'" "q_elems q' = q_elems q" "q_size q' = n"
      using new(2) by (auto simp: q_elems_def)
    then show ?thesis
      using n True by (simp add: q_grow_with_def Let_def del: q_refill.simps)
  qed
qed

lemma q_addtail_wf:
  assumes "q_wf q" "q_room q"
  shows "\<exists>r q'. q_addtail_at (Suc (Suc d)) ok q x = Some (r, q') \<and> q_wf q' \<and>
           (if ok \<or> int (length (q_elems q)) + 1 < q_size q
            then r = Inr () \<and> q_elems q' = q_elems q @ [x] \<and> q_size q \<le> q_size q'
            else r = Inl ENOMEM \<and> q' = q)"
proof (cases "int (length (q_elems q)) + 1 < q_size q")
  case True
  then show ?thesis using q_addtail_slot [OF assms(1), of "Suc d" ok x] by auto
next
  case full: False
  have sz: "int (length (q_elems q)) + 1 = q_size q" using q_elems_bound [OF assms(1)] full by simp
  have rng: "0 < q_size q" "0 \<le> q_nextread q" "q_nextread q < q_size q"
      "0 \<le> q_nextwrite q" "q_nextwrite q < q_size q"
    using assms(1) by (simp_all add: q_wf_def)
  have grow: "(q_nextwrite q + 1) smod q_size q = q_nextread q"
  proof (rule ccontr)
    assume "\<not> ?thesis"
    then have "((q_nextwrite q + 1) mod q_size q - q_nextread q) mod q_size q = q_size q"
      using rng sz ring_dist_snoc [of "q_nextread q" "q_size q" "q_nextwrite q"]
      by (simp add: q_elems_def length_ring_cells)
    then show False using rng pos_mod_bound [of "q_size q"] by (metis less_irrefl)
  qed
  have t: "q_size q + 1 \<le> 2 ^ 29" using assms(2) sz by (simp add: q_room_def)
  obtain r q1 where g: "q_grow_with (q_addtail_at (Suc d) ok) ok q (q_size q + 1) = Some (r, q1)"
      "q_wf q1" "q_elems q1 = q_elems q"
      "if ok then r = Inr () \<and> q_size q + 1 \<le> q_size q1 \<and> q_size q \<le> q_size q1
       else r = Inl ENOMEM \<and> q1 = q"
    using q_grow_with_wf [OF assms(1) t, of d ok] by (elim exE conjE) (rule that)
  show ?thesis
  proof (cases ok)
    case False
    then show ?thesis using g full grow rng assms(1) by (simp add: q_addtail_at.simps(2) [of "Suc d"] Let_def)
  next
    case True
    then have slot: "int (length (q_elems q1)) + 1 < q_size q1" "r = Inr ()" using g sz by simp_all
    then obtain q2 where q2: "q_addtail_at (Suc d) ok q1 x = Some (Inr (), q2)" "q_wf q2"
        "q_elems q2 = q_elems q1 @ [x]" "q_size q2 = q_size q1"
      using q_addtail_slot [OF g(2)] by blast
    have "(q_nextwrite q1 + 1) mod q_size q1 \<noteq> q_nextread q1"
      using slot(1) g(2) by (intro ring_has_slot) (simp_all add: q_wf_def q_elems_def length_ring_cells)
    moreover have "0 < q_size q1" "0 \<le> q_nextwrite q1" using g(2) by (simp_all add: q_wf_def)
    ultimately have "q_addtail_at (Suc (Suc d)) ok q x = q_addtail_at (Suc d) ok q1 x"
      using g(1) slot(2) grow rng
      by (simp add: q_addtail_at.simps(2) [of "Suc d"] q_addtail_at.simps(2) [of d ok q1] Let_def)
    then show ?thesis using q2 g(3,4) True by simp
  qed
qed

lemma q_addtail_depth:
  assumes "q_wf q" "q_room q"
  shows "q_addtail_at (Suc (Suc d)) ok q x \<noteq> None"
  using q_addtail_wf [OF assms, of d ok x] by auto

lemma q_remhead_wf:
  assumes "q_wf q" "q_elems q = x # xs"
  shows "\<exists>q'. q_remhead q = Some (x, q') \<and> q_wf q' \<and> q_elems q' = xs"
proof -
  let ?q = "q\<lparr>q_nextread := (q_nextread q + 1) mod q_size q\<rparr>"
  have rng: "0 < q_size q" "0 \<le> q_nextread q" "q_nextread q < q_size q"
      "0 \<le> q_nextwrite q" "q_nextwrite q < q_size q" "int (length (q_data q)) = q_size q"
    using assms(1) by (simp_all add: q_wf_def)
  have ne: "q_nextread q \<noteq> q_nextwrite q" using assms q_empty_iff [OF assms(1)] by (auto simp: q_empty_def)
  then have ring: "ring_cells (q_data q) (q_size q) (q_nextread q) (q_nextwrite q) =
      q_data q ! nat (q_nextread q)
        # ring_cells (q_data q) (q_size q) ((q_nextread q + 1) mod q_size q) (q_nextwrite q)"
    using rng by (intro ring_cells_Cons) simp_all
  then have "q_data q ! nat (q_nextread q) = Some x"
    using assms by (cases "q_data q ! nat (q_nextread q)") (simp_all add: q_wf_def q_elems_def)
  then have "q_remhead q = Some (x, ?q)"
    using rng ne by (simp add: q_remhead_def q_empty_def)
  moreover have "q_wf ?q" "q_elems ?q = xs"
    using assms ring by (simp_all add: q_wf_def q_elems_def)
  ultimately show ?thesis by blast
qed

interpretation rq: fifo q_addtail q_remhead q_empty q_elems q_wf ENOMEM "2 ^ 28"
proof (unfold_locales, goal_cases)
  case (1 q)
  then show ?case by (rule q_empty_iff)
next
  case (2 q ok x)
  then show ?case
    using q_addtail_wf [of q 0 ok x] by (auto simp: q_room_def q_addtail_def numeral_2_eq_2 split: if_splits)
next
  case (3 q x xs)
  then show ?case by (rule q_remhead_wf)
next
  case (4 q)
  then show ?case using q_empty_iff [of q] by (simp add: q_remhead_def kassert_bind)
qed

section \<open>Properties\<close>

text \<open>
  Claim C21: the ring buffer refines the list queue. Any sequence of \<^verbatim>\<open>q_addtail\<close> and
  \<^verbatim>\<open>q_remhead\<close> calls on a well-formed queue returns the elements that the same
  sequence on a list returns, across wrap-arounds and growth, and panics exactly when the list
  sequence takes from an empty list.
\<close>

theorem queue_refines_list:
  assumes "q_wf q" "length (q_elems q) + length ops \<le> 2 ^ 28"
  shows "case list_run (q_elems q) ops of
           None \<Rightarrow> run_ops q_addtail q_remhead q ops = None
         | Some (out, xs) \<Rightarrow>
             \<exists>q'. run_ops q_addtail q_remhead q ops = Some (out, q') \<and> q_wf q' \<and> q_elems q' = xs"
  by (rule rq.run_ops_refines) (fact assms)+

theorem queue_refines_list_witness:
  "\<exists>q'. run_ops q_addtail q_remhead
       \<lparr>q_size = 2, q_nextwrite = 1, q_nextread = 0, q_data = [Some (1::nat), None]\<rparr>
       [Enq 2, Deq, Enq 3, Deq] = Some ([1, 2], q') \<and> q_wf q' \<and> q_elems q' = [3]"
proof -
  let ?q = "\<lparr>q_size = 2, q_nextwrite = 1, q_nextread = 0, q_data = [Some (1::nat), None]\<rparr>"
  have wf: "q_wf ?q" by (simp add: q_wf_def ring_cells_def)
  have el: "q_elems ?q = [1]" by (simp add: q_elems_def ring_cells_def)
  then show ?thesis using queue_refines_list [OF wf, of "[Enq 2, Deq, Enq 3, Deq]"] by simp
qed

text \<open>
  \<^verbatim>\<open>q_preallocate\<close> keeps the elements and reserves space: after a
  successful call for \<open>n\<close>, every \<^verbatim>\<open>q_addtail\<close> while at most \<open>n - 2\<close> elements are queued
  succeeds whatever the allocator does. A failed call changes nothing. The scheduler relies on
  this when it makes threads runnable.
\<close>

lemma q_preallocate_reserves:
  assumes "q_wf q" "n \<le> 2 ^ 28"
  shows "\<exists>r q'. q_preallocate ok q n = Some (r, q') \<and> q_wf q' \<and> q_elems q' = q_elems q \<and>
           (if ok \<or> n \<le> q_size q
            then r = Inr () \<and> n \<le> q_size q' \<and>
              (\<forall>p x okp. q_wf p \<and> q_size p = q_size q' \<and> int (length (q_elems p)) + 1 < n \<longrightarrow>
                 (\<exists>p'. q_addtail okp p x = Some (Inr (), p') \<and> q_wf p' \<and>
                    q_elems p' = q_elems p @ [x] \<and> q_size p' = q_size q'))
            else r = Inl ENOMEM \<and> q' = q)"
proof -
  have add: "\<forall>p x okp. q_wf p \<and> q_size p = s \<and> int (length (q_elems p)) + 1 < n \<longrightarrow>
      (\<exists>p'. q_addtail okp p x = Some (Inr (), p') \<and> q_wf p' \<and>
        q_elems p' = q_elems p @ [x] \<and> q_size p' = s)" if "n \<le> s" for s
  proof (intro allI impI)
    fix p x okp
    assume p: "q_wf p \<and> q_size p = s \<and> int (length (q_elems p)) + 1 < n"
    then have "q_wf p" "int (length (q_elems p)) + 1 < q_size p" using that by linarith+
    from q_addtail_slot [OF this, of 1 okp x]
    show "\<exists>p'. q_addtail okp p x = Some (Inr (), p') \<and> q_wf p' \<and>
        q_elems p' = q_elems p @ [x] \<and> q_size p' = s"
      using p by (simp add: q_addtail_def numeral_2_eq_2)
  qed
  have pos: "0 < q_size q" and t: "n \<le> 2 ^ 29" using assms by (simp_all add: q_wf_def)
  show ?thesis
  proof (cases "n \<le> q_size q")
    case True
    then have "q_preallocate ok q n = Some (Inr (), q)" using pos by (simp add: q_preallocate_def)
    then show ?thesis using True assms(1) add [OF True] by simp
  next
    case False
    then have pre: "q_preallocate ok q n = q_grow_with (q_addtail_at (Suc 1) ok) ok q n"
      using pos by (simp add: q_preallocate_def q_grow_def q_addtail_def numeral_2_eq_2)
    obtain r q1 where g: "q_grow_with (q_addtail_at (Suc 1) ok) ok q n = Some (r, q1)"
        "q_wf q1" "q_elems q1 = q_elems q"
        "if ok then r = Inr () \<and> n \<le> q_size q1 \<and> q_size q \<le> q_size q1 else r = Inl ENOMEM \<and> q1 = q"
      using q_grow_with_wf [OF assms(1) t, of 1 ok] by (elim exE conjE) (rule that)
    show ?thesis
    proof (cases ok)
      case True
      then show ?thesis using pre g add [of "q_size q1"] by simp
    next
      case False
      then show ?thesis using pre g \<open>\<not> n \<le> q_size q\<close> by simp
    qed
  qed
qed

lemma q_preallocate_reserves_witness:
  "q_wf \<lparr>q_size = 2, q_nextwrite = 1, q_nextread = 0, q_data = [Some (1::nat), None]\<rparr> \<and>
   (\<exists>q'. q_preallocate True \<lparr>q_size = 2, q_nextwrite = 1, q_nextread = 0, q_data = [Some (1::nat), None]\<rparr> 5
      = Some (Inr (), q') \<and> 5 \<le> q_size q' \<and> q_elems q' = [1])"
proof -
  let ?q = "\<lparr>q_size = 2, q_nextwrite = 1, q_nextread = 0, q_data = [Some (1::nat), None]\<rparr>"
  have wf: "q_wf ?q" by (simp add: q_wf_def ring_cells_def)
  have el: "q_elems ?q = [1]" by (simp add: q_elems_def ring_cells_def)
  obtain r q' where "q_preallocate True ?q 5 = Some (r, q')" "q_elems q' = q_elems ?q"
      "r = Inr ()" "5 \<le> q_size q'"
    using q_preallocate_reserves [OF wf, of 5 True] by auto
  then show ?thesis using wf el by auto
qed

end
