(* ===== verification/Kern_List.thy ===== *)
theory Kern_List
  imports Kern_Fifo
begin

text \<open>
  The singly linked list of \<^verbatim>\<open>kern/lib/linkedlist.c\<close> over an explicit heap of nodes,
  and the proof that it provides the \<open>fifo\<close> interface.
\<close>

section \<open>Data\<close>

record 'a node =
  n_data :: 'a
  n_next :: "nat option"

text \<open>
  \<^verbatim>\<open>struct linkedlist\<close> together with the nodes it owns: \<open>ll_nodes\<close> is the part of the
  heap that holds them, \<open>ll_brk\<close> an address above every node ever handed out. A freed node leaves
  the map, so that touching it again is an access outside an allocated object.
\<close>

record 'a linkedlist =
  ll_head :: "nat option"
  ll_tail :: "nat option"
  ll_size :: int
  ll_nodes :: "nat \<Rightarrow> 'a node option"
  ll_brk :: nat

section \<open>Operations\<close>

definition n_create :: "bool \<Rightarrow> 'a \<Rightarrow> nat option \<Rightarrow> 'a linkedlist \<Rightarrow> nat option \<times> 'a linkedlist" where
  "n_create ok x nxt ll =
     (if \<not> ok then (None, ll)
      else (Some (ll_brk ll),
            ll\<lparr>ll_nodes := (ll_nodes ll)(ll_brk ll \<mapsto> \<lparr>n_data = x, n_next = nxt\<rparr>),
               ll_brk := Suc (ll_brk ll)\<rparr>))"

definition n_destroy :: "nat option \<Rightarrow> 'a linkedlist \<Rightarrow> 'a linkedlist option" where
  "n_destroy n ll = do {
     a \<leftarrow> n;
     kassert (ll_nodes ll a \<noteq> None);
     Some (ll\<lparr>ll_nodes := (ll_nodes ll)(a := None)\<rparr>) }"

definition deref :: "'a linkedlist \<Rightarrow> nat option \<Rightarrow> 'a node option" where
  "deref ll p = do { a \<leftarrow> p; ll_nodes ll a }"

definition ll_create :: "bool \<Rightarrow> 'a linkedlist option" where
  "ll_create ok =
     (if \<not> ok then None
      else Some \<lparr>ll_head = None, ll_tail = None, ll_size = 0, ll_nodes = Map.empty, ll_brk = 0\<rparr>)"

definition ll_empty :: "'a linkedlist \<Rightarrow> bool" where
  "ll_empty ll = (ll_size ll = 0)"

definition ll_getsize :: "'a linkedlist \<Rightarrow> int" where
  "ll_getsize ll = ll_size ll"

text \<open>\<^verbatim>\<open>while (curr != NULL) { tmp = curr; curr = curr->next; kfree(tmp); }\<close>, with the
  nodes freed.\<close>

partial_function (option) free_nodes :: "'a linkedlist \<Rightarrow> nat option \<Rightarrow> (nat list \<times> 'a linkedlist) option" where
  "free_nodes ll cur = (case cur of
     None \<Rightarrow> Some ([], ll)
   | Some a \<Rightarrow> do {
       n \<leftarrow> ll_nodes ll a;
       (freed, ll') \<leftarrow> free_nodes (ll\<lparr>ll_nodes := (ll_nodes ll)(a := None)\<rparr>) (n_next n);
       Some (a # freed, ll') })"

declare free_nodes.simps [code]

definition ll_destroy :: "'a linkedlist \<Rightarrow> (nat list \<times> 'a linkedlist) option" where
  "ll_destroy ll =
     (if \<not> ll_empty ll then do { kassert (ll_head ll \<noteq> None); free_nodes ll (ll_head ll) }
      else Some ([], ll))"

definition ll_push_front :: "bool \<Rightarrow> 'a linkedlist \<Rightarrow> 'a \<Rightarrow> ((int + unit) \<times> 'a linkedlist) option" where
  "ll_push_front ok ll ptr = (case n_create ok ptr None ll of
     (None, ll1) \<Rightarrow> Some (Inl (-1), ll1)
   | (Some n, ll1) \<Rightarrow> do {
       ll2 \<leftarrow>
         (if ll_head ll1 = None then Some (ll1\<lparr>ll_head := Some n, ll_tail := Some n\<rparr>)
          else do {
            nd \<leftarrow> ll_nodes ll1 n;
            Some (ll1\<lparr>ll_nodes := (ll_nodes ll1)(n \<mapsto> nd\<lparr>n_next := ll_head ll1\<rparr>), ll_head := Some n\<rparr>) });
       Some (Inr (), ll2\<lparr>ll_size := c_int (ll_size ll2 + 1)\<rparr>) })"

definition ll_push_back :: "bool \<Rightarrow> 'a linkedlist \<Rightarrow> 'a \<Rightarrow> ((int + unit) \<times> 'a linkedlist) option" where
  "ll_push_back ok ll ptr = (case n_create ok ptr None ll of
     (None, ll1) \<Rightarrow> Some (Inl (-1), ll1)
   | (Some n, ll1) \<Rightarrow> do {
       ll2 \<leftarrow>
         (if ll_head ll1 = None then Some (ll1\<lparr>ll_head := Some n, ll_tail := Some n\<rparr>)
          else do {
            t \<leftarrow> ll_tail ll1;
            nd \<leftarrow> ll_nodes ll1 t;
            Some (ll1\<lparr>ll_nodes := (ll_nodes ll1)(t \<mapsto> nd\<lparr>n_next := Some n\<rparr>), ll_tail := Some n\<rparr>) });
       Some (Inr (), ll2\<lparr>ll_size := c_int (ll_size ll2 + 1)\<rparr>) })"

definition ll_pop_front :: "'a linkedlist \<Rightarrow> ('a \<times> 'a linkedlist) option" where
  "ll_pop_front ll = do {
     kassert (\<not> ll_empty ll);
     let n = ll_head ll;
     nd \<leftarrow> deref ll n;
     let ll1 = ll\<lparr>ll_head := n_next nd\<rparr>;
     let ll2 = (if ll_head ll1 = None then ll1\<lparr>ll_tail := None\<rparr> else ll1);
     ll3 \<leftarrow> n_destroy n ll2;
     Some (n_data nd, ll3\<lparr>ll_size := c_int (ll_size ll3 - 1)\<rparr>) }"

text \<open>\<^verbatim>\<open>while (curr->next != ll->tail) curr = curr->next;\<close>\<close>

partial_function (option) find_prev :: "'a linkedlist \<Rightarrow> nat option \<Rightarrow> nat option" where
  "find_prev ll cur = do {
     nd \<leftarrow> deref ll cur;
     if n_next nd \<noteq> ll_tail ll then find_prev ll (n_next nd) else cur }"

declare find_prev.simps [code]

definition ll_pop_back :: "'a linkedlist \<Rightarrow> ('a \<times> 'a linkedlist) option" where
  "ll_pop_back ll = do {
     kassert (\<not> ll_empty ll);
     if ll_head ll = ll_tail ll then do {
       nd \<leftarrow> deref ll (ll_tail ll);
       ll1 \<leftarrow> n_destroy (ll_tail ll) ll;
       Some (n_data nd, ll1\<lparr>ll_head := None, ll_tail := None, ll_size := 0\<rparr>) }
     else do {
       cur \<leftarrow> find_prev ll (ll_head ll);
       nd \<leftarrow> ll_nodes ll cur;
       let n = n_next nd;
       let ll1 = ll\<lparr>ll_nodes := (ll_nodes ll)(cur \<mapsto> nd\<lparr>n_next := None\<rparr>), ll_tail := Some cur\<rparr>;
       nn \<leftarrow> deref ll1 n;
       ll2 \<leftarrow> n_destroy n ll1;
       Some (n_data nn, ll2\<lparr>ll_size := c_int (ll_size ll2 - 1)\<rparr>) } }"

text \<open>The inner \<open>None\<close> is the null pointer returned for an empty list.\<close>

definition ll_front :: "'a linkedlist \<Rightarrow> 'a option option" where
  "ll_front ll =
     (if ll_empty ll then Some None else do { nd \<leftarrow> deref ll (ll_head ll); Some (Some (n_data nd)) })"

definition ll_back :: "'a linkedlist \<Rightarrow> 'a option option" where
  "ll_back ll =
     (if ll_empty ll then Some None else do { nd \<leftarrow> deref ll (ll_tail ll); Some (Some (n_data nd)) })"

text \<open>
  \<^verbatim>\<open>ll_copy\<close>; \<open>oks k\<close> says whether the allocation for the \<open>k\<close>-th node succeeds. The code
  does not look at the result of \<^verbatim>\<open>ll_push_back\<close>.
\<close>

partial_function (option) copy_nodes ::
    "(nat \<Rightarrow> bool) \<Rightarrow> nat \<Rightarrow> 'a linkedlist \<Rightarrow> nat option \<Rightarrow> 'a linkedlist \<Rightarrow> 'a linkedlist option" where
  "copy_nodes oks k ll cur new_ll = (case cur of
     None \<Rightarrow> Some new_ll
   | Some a \<Rightarrow> do {
       n \<leftarrow> ll_nodes ll a;
       (_, new_ll') \<leftarrow> ll_push_back (oks k) new_ll (n_data n);
       copy_nodes oks (Suc k) ll (n_next n) new_ll' })"

declare copy_nodes.simps [code]

definition ll_copy :: "bool \<Rightarrow> (nat \<Rightarrow> bool) \<Rightarrow> 'a linkedlist \<Rightarrow> 'a linkedlist option option" where
  "ll_copy ok oks ll = (case ll_create ok of
     None \<Rightarrow> Some None
   | Some new_ll \<Rightarrow> do {
       new_ll' \<leftarrow> copy_nodes oks 0 ll (ll_head ll) new_ll;
       Some (Some new_ll') })"

section \<open>The nodes as a list\<close>

fun lseg :: "(nat \<Rightarrow> 'a node option) \<Rightarrow> nat option \<Rightarrow> nat list \<Rightarrow> nat option \<Rightarrow> bool" where
  "lseg h p [] q \<longleftrightarrow> p = q"
| "lseg h p (a # as) q \<longleftrightarrow>
     p = Some a \<and> (case h a of None \<Rightarrow> False | Some n \<Rightarrow> lseg h (n_next n) as q)"

lemma lseg_append:
  "lseg h p (as @ bs) q \<longleftrightarrow> (\<exists>r. lseg h p as r \<and> lseg h r bs q)"
  by (induction as arbitrary: p) (auto split: option.splits)

lemma lseg_frame [simp]: "b \<notin> set as \<Longrightarrow> lseg (h(b := v)) p as q = lseg h p as q"
  by (induction as arbitrary: p) (auto split: option.splits)

lemma lseg_dom: "lseg h p as q \<Longrightarrow> a \<in> set as \<Longrightarrow> \<exists>n. h a = Some n"
  by (induction as arbitrary: p) (auto split: option.splits)

abbreviation data_of :: "(nat \<Rightarrow> 'a node option) \<Rightarrow> nat \<Rightarrow> 'a" where
  "data_of h a \<equiv> n_data (the (h a))"

fun walk :: "nat \<Rightarrow> (nat \<Rightarrow> 'a node option) \<Rightarrow> nat option \<Rightarrow> 'a list" where
  "walk 0 h p = []"
| "walk (Suc k) h None = []"
| "walk (Suc k) h (Some a) = (case h a of None \<Rightarrow> [] | Some n \<Rightarrow> n_data n # walk k h (n_next n))"

lemma walk_lseg: "lseg h p as q \<Longrightarrow> walk (length as) h p = map (data_of h) as"
  by (induction as arbitrary: p) (auto split: option.splits)

definition ll_elems :: "'a linkedlist \<Rightarrow> 'a list" where
  "ll_elems ll = walk (nat (ll_size ll)) (ll_nodes ll) (ll_head ll)"

definition ll_rep :: "'a linkedlist \<Rightarrow> nat list \<Rightarrow> bool" where
  "ll_rep ll as \<longleftrightarrow> lseg (ll_nodes ll) (ll_head ll) as None \<and> distinct as \<and>
     ll_tail ll = (if as = [] then None else Some (last as)) \<and>
     ll_size ll = int (length as) \<and> length as < 2 ^ 31 \<and> (\<forall>a \<in> set as. a < ll_brk ll)"

definition ll_invar :: "'a linkedlist \<Rightarrow> bool" where
  "ll_invar ll \<longleftrightarrow> (\<exists>as. ll_rep ll as)"

lemma ll_rep_elems: "ll_rep ll as \<Longrightarrow> ll_elems ll = map (data_of (ll_nodes ll)) as"
  by (auto simp: ll_rep_def ll_elems_def walk_lseg)

lemma ll_rep_Nil: "ll_rep ll [] \<longleftrightarrow> ll_head ll = None \<and> ll_tail ll = None \<and> ll_size ll = 0"
  by (simp add: ll_rep_def)

lemma ll_rep_empty: "ll_rep ll as \<Longrightarrow> ll_empty ll \<longleftrightarrow> as = []"
  by (simp add: ll_rep_def ll_empty_def)

lemma ll_rep_head: "ll_rep ll as \<Longrightarrow> ll_head ll = (case as of [] \<Rightarrow> None | a # _ \<Rightarrow> Some a)"
  by (cases as) (simp_all add: ll_rep_def)

lemma ll_rep_fresh: "ll_rep ll as \<Longrightarrow> ll_brk ll \<notin> set as"
  by (auto simp: ll_rep_def)

lemma ll_create_rep: "ll_create ok = Some ll \<Longrightarrow> ll_rep ll []"
  by (auto simp: ll_create_def ll_rep_def split: if_splits)

subsection \<open>Adding\<close>

lemma ll_push_back_rep:
  assumes "ll_rep ll as" "Suc (length as) < 2 ^ 31"
  shows "\<exists>ll'. ll_push_back True ll x = Some (Inr (), ll') \<and> ll_rep ll' (as @ [ll_brk ll]) \<and>
           ll_elems ll' = ll_elems ll @ [x]"
proof (cases as rule: rev_cases)
  case Nil
  with assms show ?thesis
    by (auto simp: ll_push_back_def n_create_def ll_rep_def ll_elems_def)
next
  case (snoc cs t)
  let ?b = "ll_brk ll"
  have b: "?b \<notin> set as" using assms(1) by (rule ll_rep_fresh)
  have seg: "lseg (ll_nodes ll) (ll_head ll) as None" and dist: "distinct as"
      and tl: "ll_tail ll = Some t" and sz: "ll_size ll = int (length as)"
      and below: "\<forall>a \<in> set as. a < ll_brk ll"
    using assms(1) snoc by (simp_all add: ll_rep_def)
  obtain nt where nt: "ll_nodes ll t = Some nt" "n_next nt = None" "lseg (ll_nodes ll) (ll_head ll) cs (Some t)"
    using seg snoc by (auto simp: lseg_append split: option.splits)
  obtain y where hd: "ll_head ll = Some y" using seg snoc by (cases cs) auto
  have tb: "t \<noteq> ?b" "t \<notin> set cs" "?b \<notin> set cs" using b snoc dist by auto
  let ?h = "(ll_nodes ll)(?b \<mapsto> \<lparr>n_data = x, n_next = None\<rparr>, t \<mapsto> nt\<lparr>n_next := Some ?b\<rparr>)"
  let ?ll = "ll\<lparr>ll_nodes := ?h, ll_brk := Suc ?b, ll_tail := Some ?b, ll_size := int (length as) + 1\<rparr>"
  have "ll_push_back True ll x = Some (Inr (), ?ll)"
    using hd tl nt tb sz assms(2) by (simp add: ll_push_back_def n_create_def)
  moreover have "lseg ?h (ll_head ll) (as @ [?b]) None"
    using nt tb snoc by (auto simp: lseg_append)
  then have rep: "ll_rep ?ll (as @ [?b])"
    using dist b below assms(2) by (auto simp: ll_rep_def)
  moreover have "map (data_of ?h) (as @ [?b]) = map (data_of (ll_nodes ll)) as @ [x]"
    using b nt tb by (auto simp: snoc)
  then have "ll_elems ?ll = ll_elems ll @ [x]"
    using ll_rep_elems [OF rep] ll_rep_elems [OF assms(1)] by simp
  ultimately show ?thesis by blast
qed

lemma ll_push_front_rep:
  assumes "ll_rep ll as" "Suc (length as) < 2 ^ 31"
  shows "\<exists>ll'. ll_push_front True ll x = Some (Inr (), ll') \<and> ll_rep ll' (ll_brk ll # as) \<and>
           ll_elems ll' = x # ll_elems ll"
proof (cases as)
  case Nil
  with assms show ?thesis
    by (auto simp: ll_push_front_def n_create_def ll_rep_def ll_elems_def)
next
  case (Cons a cs)
  then have ne: "as \<noteq> []" by simp
  let ?b = "ll_brk ll"
  let ?h = "(ll_nodes ll)(?b \<mapsto> \<lparr>n_data = x, n_next = ll_head ll\<rparr>)"
  let ?ll = "ll\<lparr>ll_nodes := ?h, ll_brk := Suc ?b, ll_head := Some ?b, ll_size := int (length as) + 1\<rparr>"
  have b: "?b \<notin> set as" using assms(1) by (rule ll_rep_fresh)
  have "ll_push_front True ll x = Some (Inr (), ?ll)"
    using assms Cons ll_rep_head [OF assms(1)]
    by (simp add: ll_push_front_def n_create_def ll_rep_def)
  moreover have "lseg ?h (ll_head ll) as None" using assms(1) b by (simp add: ll_rep_def)
  then have rep: "ll_rep ?ll (?b # as)"
    using assms b ne by (simp add: ll_rep_def less_SucI)
  moreover have "map (data_of ?h) (?b # as) = x # map (data_of (ll_nodes ll)) as"
    using b by auto
  then have "ll_elems ?ll = x # ll_elems ll"
    using ll_rep_elems [OF rep] ll_rep_elems [OF assms(1)] by simp
  ultimately show ?thesis by blast
qed

lemma ll_push_fail [simp]:
  "ll_push_back False ll x = Some (Inl (-1), ll)"
  "ll_push_front False ll x = Some (Inl (-1), ll)"
  by (simp_all add: ll_push_back_def ll_push_front_def n_create_def)

subsection \<open>Removing\<close>

lemma ll_pop_front_rep:
  assumes "ll_rep ll (a # as)"
  shows "\<exists>ll'. ll_pop_front ll = Some (data_of (ll_nodes ll) a, ll') \<and> ll_rep ll' as \<and>
           ll_elems ll = data_of (ll_nodes ll) a # ll_elems ll'"
proof -
  obtain n where n: "ll_nodes ll a = Some n" "lseg (ll_nodes ll) (n_next n) as None"
      "ll_head ll = Some a"
    using assms by (auto simp: ll_rep_def split: option.splits)
  have a: "a \<notin> set as" and sz: "ll_size ll = int (length as) + 1" "length as < 2 ^ 31 - 1"
    using assms by (auto simp: ll_rep_def)
  have nx: "n_next n = None \<longleftrightarrow> as = []" using n(2) by (cases as) auto
  let ?ll = "ll\<lparr>ll_nodes := (ll_nodes ll)(a := None), ll_head := n_next n,
      ll_tail := (if as = [] then None else ll_tail ll), ll_size := int (length as)\<rparr>"
  have "ll_pop_front ll = Some (n_data n, ?ll)"
    using n sz nx by (simp add: ll_pop_front_def ll_empty_def deref_def n_destroy_def Let_def)
  moreover have rep: "ll_rep ?ll as"
    using assms n a by (auto simp: ll_rep_def)
  moreover have "map (data_of ((ll_nodes ll)(a := None))) as = map (data_of (ll_nodes ll)) as"
    using a by auto
  then have "ll_elems ll = n_data n # ll_elems ?ll"
    using ll_rep_elems [OF rep] ll_rep_elems [OF assms] n by simp
  ultimately show ?thesis using n by auto
qed

lemma find_prev_rep:
  assumes "lseg (ll_nodes ll) p (cs @ [c]) (Some t)" "t \<notin> set (cs @ [c])" "ll_tail ll = Some t"
  shows "find_prev ll p = Some c"
  using assms
proof (induction cs arbitrary: p)
  case Nil
  then show ?case by (subst find_prev.simps) (auto simp: deref_def split: option.splits)
next
  case (Cons b cs)
  then obtain n where n: "p = Some b" "ll_nodes ll b = Some n"
      "lseg (ll_nodes ll) (n_next n) (cs @ [c]) (Some t)"
    by (auto split: option.splits)
  then have "n_next n \<noteq> Some t" using Cons.prems(2) by (cases cs) auto
  then show ?case
    using Cons.IH [OF n(3)] Cons.prems(2,3) n by (subst find_prev.simps) (simp add: deref_def)
qed

lemma ll_pop_back_rep:
  assumes "ll_rep ll (as @ [t])"
  shows "\<exists>ll'. ll_pop_back ll = Some (data_of (ll_nodes ll) t, ll') \<and> ll_rep ll' as \<and>
           ll_elems ll = ll_elems ll' @ [data_of (ll_nodes ll) t]"
proof (cases as rule: rev_cases)
  case Nil
  with assms obtain n where n: "ll_nodes ll t = Some n" "ll_head ll = Some t" "ll_tail ll = Some t"
      "ll_size ll = 1" "n_next n = None"
    by (auto simp: ll_rep_def split: option.splits)
  then show ?thesis
    using Nil by (auto simp: ll_pop_back_def ll_empty_def deref_def n_destroy_def ll_rep_def ll_elems_def)
next
  case (snoc cs c)
  have seg: "lseg (ll_nodes ll) (ll_head ll) (cs @ [c, t]) None" and dist: "distinct (cs @ [c, t])"
      and tl: "ll_tail ll = Some t" and sz: "ll_size ll = int (length as) + 1" "length as < 2 ^ 31 - 1"
    using assms snoc by (auto simp: ll_rep_def)
  obtain nt nc where nt: "ll_nodes ll t = Some nt" "ll_nodes ll c = Some nc" "n_next nc = Some t"
      and seg': "lseg (ll_nodes ll) (ll_head ll) cs (Some c)"
    using seg by (auto simp: lseg_append split: option.splits)
  have prev: "find_prev ll (ll_head ll) = Some c"
    using seg' nt dist tl by (intro find_prev_rep [of ll _ cs c t]) (auto simp: lseg_append)
  have hd: "ll_head ll \<noteq> Some t" using seg' dist by (cases cs) auto
  let ?h = "(ll_nodes ll)(c \<mapsto> nc\<lparr>n_next := None\<rparr>, t := None)"
  let ?ll = "ll\<lparr>ll_nodes := ?h, ll_tail := Some c, ll_size := int (length as)\<rparr>"
  have tc: "t \<noteq> c" "t \<notin> set cs" "c \<notin> set cs" using dist by auto
  have "ll_pop_back ll = Some (n_data nt, ?ll)"
    using prev hd nt tl sz tc
    by (simp add: ll_pop_back_def ll_empty_def deref_def n_destroy_def Let_def)
  moreover have rep: "ll_rep ?ll as"
    using assms seg' tc dist snoc by (auto simp: ll_rep_def lseg_append)
  moreover have "map (data_of (ll_nodes ll)) as = map (data_of ?h) as"
    using tc nt by (auto simp: snoc)
  then have "ll_elems ll = ll_elems ?ll @ [n_data nt]"
    using ll_rep_elems [OF rep] ll_rep_elems [OF assms] nt by simp
  ultimately show ?thesis using nt by auto
qed

subsection \<open>Destroying and copying\<close>

lemma free_nodes_rep:
  assumes "lseg (ll_nodes ll) p as None" "distinct as"
  shows "free_nodes ll p =
     Some (as, ll\<lparr>ll_nodes := (\<lambda>a. if a \<in> set as then None else ll_nodes ll a)\<rparr>)"
  using assms
proof (induction as arbitrary: p ll)
  case Nil
  then show ?case by (simp add: free_nodes.simps)
next
  case (Cons a as)
  then obtain n where n: "p = Some a" "ll_nodes ll a = Some n" "lseg (ll_nodes ll) (n_next n) as None"
    by (auto split: option.splits)
  let ?ll = "ll\<lparr>ll_nodes := (ll_nodes ll)(a := None)\<rparr>"
  have "free_nodes ?ll (n_next n) =
      Some (as, ?ll\<lparr>ll_nodes := (\<lambda>b. if b \<in> set as then None else ll_nodes ?ll b)\<rparr>)"
    by (rule Cons.IH) (use n(3) Cons.prems(2) in \<open>simp_all del: fun_upd_apply\<close>)
  moreover have "(\<lambda>b. if b \<in> set as then None else ll_nodes ?ll b)
      = (\<lambda>b. if b \<in> set (a # as) then None else ll_nodes ll b)" by auto
  ultimately show ?case using n by (simp add: free_nodes.simps [of ll])
qed

lemma copy_nodes_rep:
  assumes "lseg (ll_nodes ll) p as None" "ll_rep new bs" "length as + length bs < 2 ^ 31"
  shows "\<exists>new' bs'. copy_nodes oks k ll p new = Some new' \<and> ll_rep new' bs' \<and>
     ll_elems new' = ll_elems new @
       map (data_of (ll_nodes ll) \<circ> nth as) (filter (\<lambda>j. oks (k + j)) [0..<length as])"
  using assms
proof (induction as arbitrary: p new bs k)
  case Nil
  then show ?case by (auto simp: copy_nodes.simps)
next
  case (Cons a as)
  then obtain n where n: "p = Some a" "ll_nodes ll a = Some n" "lseg (ll_nodes ll) (n_next n) as None"
    by (auto split: option.splits)
  have upt: "[0..<Suc (length as)] = 0 # map Suc [0..<length as]"
    by (simp add: map_Suc_upt upt_conv_Cons del: upt_Suc)
  obtain r new1 bs1 where new1: "ll_push_back (oks k) new (n_data n) = Some (r, new1)" "ll_rep new1 bs1"
      "length bs1 \<le> Suc (length bs)"
      "ll_elems new1 = ll_elems new @ (if oks k then [n_data n] else [])"
  proof (cases "oks k")
    case True
    then show ?thesis
      using ll_push_back_rep [OF Cons.prems(2), of "n_data n"] Cons.prems(3)
        that [of "Inr ()" _ "bs @ [ll_brk new]"] by auto
  next
    case False
    then show ?thesis using that [of "Inl (-1)" new bs] Cons.prems(2) by simp
  qed
  obtain new' bs' where "copy_nodes oks (Suc k) ll (n_next n) new1 = Some new'" "ll_rep new' bs'"
      "ll_elems new' = ll_elems new1 @
         map (data_of (ll_nodes ll) \<circ> nth as) (filter (\<lambda>j. oks (Suc k + j)) [0..<length as])"
    using Cons.IH [OF n(3) new1(2), of "Suc k"] Cons.prems(3) new1(3) by auto
  then show ?case
    using n new1 by (intro exI [of _ new'] exI [of _ bs'])
      (simp add: copy_nodes.simps [of oks k] upt filter_map comp_def del: upt_Suc)
qed

subsection \<open>The fifo interface\<close>

lemma ll_push_back_fifo:
  assumes "ll_invar ll" "length (ll_elems ll) < 2 ^ 31 - 1"
  shows "\<exists>r ll'. ll_push_back ok ll x = Some (r, ll') \<and> ll_invar ll' \<and>
           (r = Inr () \<and> ll_elems ll' = ll_elems ll @ [x] \<or>
            r = Inl (-1) \<and> \<not> ok \<and> ll_elems ll' = ll_elems ll)"
proof -
  obtain as where as: "ll_rep ll as" using assms(1) by (auto simp: ll_invar_def)
  then have "Suc (length as) < 2 ^ 31" using assms(2) by (simp add: ll_rep_elems)
  from ll_push_back_rep [OF as this, of x] assms(1) show ?thesis
    by (cases ok) (auto simp: ll_invar_def)
qed

lemma ll_pop_front_fifo:
  assumes "ll_invar ll" "ll_elems ll = x # xs"
  shows "\<exists>ll'. ll_pop_front ll = Some (x, ll') \<and> ll_invar ll' \<and> ll_elems ll' = xs"
proof -
  obtain a as where as: "ll_rep ll (a # as)"
    using assms by (metis ll_invar_def ll_rep_elems list.exhaust list.map(1) list.distinct(1))
  from ll_pop_front_rep [OF this] assms(2) show ?thesis by (auto simp: ll_invar_def)
qed

interpretation lq: fifo ll_push_back ll_pop_front ll_empty ll_elems ll_invar "-1" "2 ^ 31 - 1"
proof (unfold_locales, goal_cases)
  case (1 q)
  then show ?case using ll_rep_elems ll_rep_empty by (fastforce simp: ll_invar_def)
next
  case (2 q ok x)
  then show ?case by (rule ll_push_back_fifo)
next
  case (3 q x xs)
  then show ?case by (rule ll_pop_front_fifo)
next
  case (4 q)
  then obtain as where "ll_rep q as" "as = []" using ll_rep_elems by (fastforce simp: ll_invar_def)
  then show ?case using ll_rep_empty [of q as] by (simp add: ll_pop_front_def kassert_bind)
qed

lemma ll_copy_filter:
  assumes "ll_invar ll"
  shows "\<exists>new. ll_copy True oks ll = Some (Some new) \<and> ll_invar new \<and>
           ll_elems new = map (nth (ll_elems ll)) (filter oks [0..<length (ll_elems ll)])"
proof -
  obtain as where as: "ll_rep ll as" using assms(1) by (auto simp: ll_invar_def)
  obtain new where new: "ll_create True = Some (new :: 'a linkedlist)" by (simp add: ll_create_def)
  have seg: "lseg (ll_nodes ll) (ll_head ll) as None" "length as + length ([] :: nat list) < 2 ^ 31"
    using as by (simp_all add: ll_rep_def)
  obtain new' bs' where c: "copy_nodes oks 0 ll (ll_head ll) new = Some new'" "ll_rep new' bs'"
      "ll_elems new' = ll_elems new @
         map (data_of (ll_nodes ll) \<circ> nth as) (filter (\<lambda>j. oks (0 + j)) [0..<length as])"
    using copy_nodes_rep [OF seg(1) ll_create_rep [OF new] seg(2), of oks 0] by blast
  have "ll_elems new = []" using ll_create_rep [OF new] ll_rep_elems by fastforce
  moreover have "map (data_of (ll_nodes ll) \<circ> nth as) (filter oks [0..<length as])
      = map (nth (ll_elems ll)) (filter oks [0..<length (ll_elems ll)])"
    using ll_rep_elems [OF as] by auto
  ultimately show ?thesis using new c by (auto simp: ll_copy_def ll_invar_def)
qed

lemma ll_copy_all:
  "ll_invar ll \<Longrightarrow> \<exists>new. ll_copy True (\<lambda>_. True) ll = Some (Some new) \<and> ll_invar new \<and> ll_elems new = ll_elems ll"
  using ll_copy_filter [of ll "\<lambda>_. True"] by (simp add: map_nth)

section \<open>Properties\<close>

text \<open>
  Claim C22: the linked list, used as a queue, refines the list queue: any sequence of
  \<^verbatim>\<open>ll_push_back\<close> and \<^verbatim>\<open>ll_pop_front\<close> calls returns what the same sequence on a
  list returns, touches no freed node, and panics exactly when it pops from an empty list.
\<close>

theorem linkedlist_refines_list:
  assumes "ll_invar ll" "length (ll_elems ll) + length ops \<le> 2 ^ 31 - 1"
  shows "case list_run (ll_elems ll) ops of
           None \<Rightarrow> run_ops ll_push_back ll_pop_front ll ops = None
         | Some (out, xs) \<Rightarrow>
             \<exists>ll'. run_ops ll_push_back ll_pop_front ll ops = Some (out, ll') \<and> ll_invar ll' \<and>
               ll_elems ll' = xs"
  by (rule lq.run_ops_refines) (fact assms)+

theorem linkedlist_refines_list_witness:
  "\<exists>ll'. run_ops ll_push_back ll_pop_front
     \<lparr>ll_head = None, ll_tail = None, ll_size = 0, ll_nodes = Map.empty, ll_brk = 0\<rparr>
     [Enq (5::nat), Enq 6, Deq] = Some ([5], ll') \<and> ll_invar ll' \<and> ll_elems ll' = [6]"
proof -
  let ?l = "\<lparr>ll_head = None, ll_tail = None, ll_size = 0, ll_nodes = Map.empty, ll_brk = 0\<rparr>
    :: nat linkedlist"
  have inv: "ll_invar ?l" by (auto simp: ll_invar_def ll_rep_Nil intro!: exI [of _ "[]"])
  have "ll_elems ?l = []" by (simp add: ll_elems_def)
  moreover have "list_run [] [Enq (5::nat), Enq 6, Deq] = Some ([5], [6])" by simp
  ultimately show ?thesis
    using linkedlist_refines_list [OF inv, of "[Enq (5::nat), Enq 6, Deq]"]
    by (simp del: run_ops.simps list_run.simps)
qed

text \<open>
  Both ends of the list work, and destroying it frees every node exactly once. Pushing
  adds the element at its end of the list, popping from the back removes the last element
  although only forward links exist, and \<^verbatim>\<open>ll_destroy\<close> returns after freeing as many
  distinct nodes as the list has elements, leaving none allocated.
\<close>

lemma linkedlist_ends_and_destroy:
  assumes "ll_invar ll" "length (ll_elems ll) < 2 ^ 31 - 1"
  shows "(\<exists>l1. ll_push_front True ll x = Some (Inr (), l1) \<and> ll_invar l1 \<and> ll_elems l1 = x # ll_elems ll) \<and>
         (\<forall>ys y. ll_elems ll = ys @ [y] \<longrightarrow>
            (\<exists>l1. ll_pop_back ll = Some (y, l1) \<and> ll_invar l1 \<and> ll_elems l1 = ys)) \<and>
         (\<exists>freed l1. ll_destroy ll = Some (freed, l1) \<and> distinct freed \<and>
            length freed = length (ll_elems ll) \<and> (\<forall>a \<in> set freed. ll_nodes l1 a = None))"
proof (intro conjI allI impI)
  obtain as where as: "ll_rep ll as" using assms(1) by (auto simp: ll_invar_def)
  then have len: "Suc (length as) < 2 ^ 31" using assms(2) by (simp add: ll_rep_elems)
  show "\<exists>l1. ll_push_front True ll x = Some (Inr (), l1) \<and> ll_invar l1 \<and> ll_elems l1 = x # ll_elems ll"
    using ll_push_front_rep [OF as len, of x] by (auto simp: ll_invar_def)
  show "\<exists>l1. ll_pop_back ll = Some (y, l1) \<and> ll_invar l1 \<and> ll_elems l1 = ys"
    if el: "ll_elems ll = ys @ [y]" for ys y
  proof -
    obtain cs t where "as = cs @ [t]"
      using el ll_rep_elems [OF as] by (cases as rule: rev_cases) auto
    with ll_pop_back_rep [of ll cs t] as el show ?thesis by (auto simp: ll_invar_def)
  qed
  have seg: "lseg (ll_nodes ll) (ll_head ll) as None" "distinct as" using as by (simp_all add: ll_rep_def)
  show "\<exists>freed l1. ll_destroy ll = Some (freed, l1) \<and> distinct freed \<and>
      length freed = length (ll_elems ll) \<and> (\<forall>a \<in> set freed. ll_nodes l1 a = None)"
  proof (cases "as = []")
    case True
    then show ?thesis using ll_rep_empty [OF as] ll_rep_elems [OF as] by (simp add: ll_destroy_def)
  next
    case False
    then have "ll_head ll \<noteq> None" using seg(1) by (cases as) auto
    then show ?thesis
      using free_nodes_rep [OF seg] ll_rep_empty [OF as] ll_rep_elems [OF as] seg(2) False
      by (simp add: ll_destroy_def)
  qed
qed

lemma linkedlist_ends_and_destroy_witness:
  "\<exists>l1. ll_pop_back
     \<lparr>ll_head = Some 0, ll_tail = Some 1, ll_size = 2,
      ll_nodes = [0 \<mapsto> \<lparr>n_data = (7::nat), n_next = Some 1\<rparr>, 1 \<mapsto> \<lparr>n_data = 8, n_next = None\<rparr>],
      ll_brk = 2\<rparr> = Some (8, l1) \<and> ll_elems l1 = [7]"
proof -
  let ?l = "\<lparr>ll_head = Some 0, ll_tail = Some 1, ll_size = 2,
      ll_nodes = [0 \<mapsto> \<lparr>n_data = (7::nat), n_next = Some 1\<rparr>, 1 \<mapsto> \<lparr>n_data = 8, n_next = None\<rparr>],
      ll_brk = 2\<rparr>"
  have inv: "ll_invar ?l" by (auto simp: ll_invar_def ll_rep_def intro!: exI [of _ "[0, 1]"])
  have el: "ll_elems ?l = [7] @ [8]" by (simp add: ll_elems_def numeral_2_eq_2)
  then have "length (ll_elems ?l) < 2 ^ 31 - 1" by simp
  from linkedlist_ends_and_destroy [OF inv this, of 0] el show ?thesis by blast
qed

text \<open>
  \<^verbatim>\<open>ll_copy\<close> returns a list of exactly those elements whose node could be allocated,
  in order; it is a complete copy when every allocation succeeds, and silently a shorter list
  otherwise, because the result of \<^verbatim>\<open>ll_push_back\<close> is not looked at.
\<close>

lemma ll_copy_keeps_allocated:
  assumes "ll_invar ll"
  shows "\<exists>new. ll_copy True oks ll = Some (Some new) \<and> ll_invar new \<and>
           ll_elems new = map (nth (ll_elems ll)) (filter oks [0..<length (ll_elems ll)])"
  using assms by (rule ll_copy_filter)

lemma ll_copy_keeps_allocated_witness:
  "\<exists>new. ll_copy True (\<lambda>k. k = 1)
     \<lparr>ll_head = Some 0, ll_tail = Some 1, ll_size = 2,
      ll_nodes = [0 \<mapsto> \<lparr>n_data = (7::nat), n_next = Some 1\<rparr>, 1 \<mapsto> \<lparr>n_data = 8, n_next = None\<rparr>],
      ll_brk = 2\<rparr> = Some (Some new) \<and> ll_elems new = [8]"
proof -
  let ?l = "\<lparr>ll_head = Some 0, ll_tail = Some 1, ll_size = 2,
      ll_nodes = [0 \<mapsto> \<lparr>n_data = (7::nat), n_next = Some 1\<rparr>, 1 \<mapsto> \<lparr>n_data = 8, n_next = None\<rparr>],
      ll_brk = 2\<rparr>"
  have inv: "ll_invar ?l" by (auto simp: ll_invar_def ll_rep_def intro!: exI [of _ "[0, 1]"])
  have "ll_elems ?l = [7, 8]" by (simp add: ll_elems_def numeral_2_eq_2)
  then show ?thesis using ll_copy_keeps_allocated [OF inv, of "\<lambda>k. k = 1"] by (auto simp: numeral_2_eq_2)
qed

end
