(* ===== verification/Kern_Bitmap.thy ===== *)
theory Kern_Bitmap
  imports Kern_Prelude
begin

text \<open>
  The bitmap of \<^verbatim>\<open>kern/lib/bitmap.c\<close> on 8-bit words, and the \<open>bit_allocator\<close> interface
  through which a file system hands out disk blocks.
\<close>

section \<open>Data\<close>

record bitmap =
  bm_nbits :: nat
  bm_v :: "8 word list"

section \<open>Operations\<close>

text \<open>\<^verbatim>\<open>DIVROUNDUP(nbits, BITS_PER_WORD)\<close> on \<^verbatim>\<open>u_int32_t\<close>.\<close>

definition bm_words :: "nat \<Rightarrow> nat" where
  "bm_words nbits = (nbits + 7) mod 2 ^ 32 div 8"

definition bitmap_create :: "bool \<Rightarrow> bool \<Rightarrow> nat \<Rightarrow> bitmap option option" where
  "bitmap_create ok1 ok2 nbits = do {
     let words = bm_words nbits;
     if \<not> ok1 then Some None
     else if \<not> ok2 then Some None
     else do {
       let v = replicate words (0 :: 8 word);
       v' \<leftarrow>
         (if nbits div 8 < words then do {
            let ix = words - 1;
            let overbits = nbits - ix * 8;
            kassert (nbits div 8 = words - 1);
            kassert (overbits > 0 \<and> overbits < 8);
            w \<leftarrow> cell v (int ix);
            set_cell v (int ix) (foldl (\<lambda>w j. w OR push_bit j 1) w [overbits..<8]) }
          else Some v);
       Some (Some \<lparr>bm_nbits = nbits, bm_v = v'\<rparr>) } }"

definition bitmap_getdata :: "bitmap \<Rightarrow> 8 word list" where
  "bitmap_getdata b = bm_v b"

text \<open>The inner loop of \<^verbatim>\<open>bitmap_alloc\<close>; running off the end is its \<^verbatim>\<open>assert(0)\<close>.\<close>

function find_clear :: "8 word \<Rightarrow> nat \<Rightarrow> nat option" where
  "find_clear w offset =
     (if offset < 8
      then if w AND push_bit offset 1 = 0 then Some offset else find_clear w (Suc offset)
      else None)"
  by pat_completeness auto
termination by (relation "measure (\<lambda>(w, offset). 8 - offset)") auto

declare find_clear.simps [simp del]

function alloc_scan :: "bitmap \<Rightarrow> nat \<Rightarrow> nat \<Rightarrow> ((errno + nat) \<times> bitmap) option" where
  "alloc_scan b maxix ix =
     (if ix < maxix then do {
        w \<leftarrow> cell (bm_v b) (int ix);
        if w \<noteq> 0xff then do {
          offset \<leftarrow> find_clear w 0;
          let mask = push_bit offset 1;
          v' \<leftarrow> set_cell (bm_v b) (int ix) (w OR mask);
          let index = ix * 8 + offset;
          kassert (index < bm_nbits b);
          Some (Inr index, b\<lparr>bm_v := v'\<rparr>) }
        else alloc_scan b maxix (Suc ix) }
      else Some (Inl ENOSPC, b))"
  by pat_completeness auto
termination by (relation "measure (\<lambda>(b, maxix, ix). maxix - ix)") auto

declare alloc_scan.simps [simp del]

definition bitmap_alloc :: "bitmap \<Rightarrow> ((errno + nat) \<times> bitmap) option" where
  "bitmap_alloc b = alloc_scan b (bm_words (bm_nbits b)) 0"

definition bitmap_translate :: "nat \<Rightarrow> nat \<times> 8 word" where
  "bitmap_translate bitno = (bitno div 8, push_bit (bitno mod 8) 1)"

definition bitmap_mark :: "bitmap \<Rightarrow> nat \<Rightarrow> bitmap option" where
  "bitmap_mark b index = do {
     kassert (index < bm_nbits b);
     let (ix, mask) = bitmap_translate index;
     w \<leftarrow> cell (bm_v b) (int ix);
     kassert (w AND mask = 0);
     v' \<leftarrow> set_cell (bm_v b) (int ix) (w OR mask);
     Some (b\<lparr>bm_v := v'\<rparr>) }"

definition bitmap_unmark :: "bitmap \<Rightarrow> nat \<Rightarrow> bitmap option" where
  "bitmap_unmark b index = do {
     kassert (index < bm_nbits b);
     let (ix, mask) = bitmap_translate index;
     w \<leftarrow> cell (bm_v b) (int ix);
     kassert (w AND mask \<noteq> 0);
     v' \<leftarrow> set_cell (bm_v b) (int ix) (w AND NOT mask);
     Some (b\<lparr>bm_v := v'\<rparr>) }"

text \<open>There is no bound check: an index past the last word reads outside the block.\<close>

definition bitmap_isset :: "bitmap \<Rightarrow> nat \<Rightarrow> 8 word option" where
  "bitmap_isset b index = do {
     let (ix, mask) = bitmap_translate index;
     w \<leftarrow> cell (bm_v b) (int ix);
     Some (w AND mask) }"

section \<open>The allocator interface\<close>

text \<open>
  What a client of the bitmap relies on: \<open>used\<close> is the set of taken indices below \<open>total\<close>.
\<close>

locale bit_allocator =
  fixes alloc :: "'b \<Rightarrow> ((errno + nat) \<times> 'b) option"
    and mark :: "'b \<Rightarrow> nat \<Rightarrow> 'b option"
    and unmark :: "'b \<Rightarrow> nat \<Rightarrow> 'b option"
    and used :: "'b \<Rightarrow> nat set"
    and total :: "'b \<Rightarrow> nat"
    and invar :: "'b \<Rightarrow> bool"
  assumes used_bound: "invar b \<Longrightarrow> used b \<subseteq> {..<total b}"
    and alloc_free: "invar b \<Longrightarrow> used b \<noteq> {..<total b} \<Longrightarrow>
          \<exists>i b'. alloc b = Some (Inr i, b') \<and> i < total b \<and> i \<notin> used b \<and> invar b' \<and>
            total b' = total b \<and> used b' = insert i (used b)"
    and alloc_full: "invar b \<Longrightarrow> used b = {..<total b} \<Longrightarrow> alloc b = Some (Inl ENOSPC, b)"
    and mark: "invar b \<Longrightarrow> i < total b \<Longrightarrow> i \<notin> used b \<Longrightarrow>
          \<exists>b'. mark b i = Some b' \<and> invar b' \<and> total b' = total b \<and> used b' = insert i (used b)"
    and mark_panic: "invar b \<Longrightarrow> i \<ge> total b \<or> i \<in> used b \<Longrightarrow> mark b i = None"
    and unmark: "invar b \<Longrightarrow> i \<in> used b \<Longrightarrow>
          \<exists>b'. unmark b i = Some b' \<and> invar b' \<and> total b' = total b \<and> used b' = used b - {i}"
    and unmark_panic: "invar b \<Longrightarrow> i \<notin> used b \<Longrightarrow> unmark b i = None"
begin

lemma finite_used: "invar b \<Longrightarrow> finite (used b)"
  using used_bound finite_subset by blast

text \<open>Freeing what was just handed out restores the set of taken indices.\<close>

lemma alloc_unmark:
  assumes "invar b" "alloc b = Some (Inr i, b')"
  shows "\<exists>b''. unmark b' i = Some b'' \<and> invar b'' \<and> used b'' = used b"
proof -
  have "used b \<noteq> {..<total b}" using alloc_full [OF assms(1)] assms(2) by auto
  then have b': "invar b'" "used b' = insert i (used b)" "i \<notin> used b"
    using alloc_free [OF assms(1)] assms(2) by auto
  with unmark [OF b'(1), of i] show ?thesis by auto
qed

text \<open>The allocator hands out exactly as many indices as are free.\<close>

lemma alloc_card:
  assumes "invar b" "alloc b = Some (Inr i, b')"
  shows "card (used b') = Suc (card (used b))" "card (used b) < total b"
proof -
  have ne: "used b \<noteq> {..<total b}" using alloc_full [OF assms(1)] assms(2) by auto
  then have "used b' = insert i (used b)" "i \<notin> used b"
    using alloc_free [OF assms(1)] assms(2) by auto
  then show "card (used b') = Suc (card (used b))" using finite_used [OF assms(1)] by simp
  have "used b \<subset> {..<total b}" using used_bound [OF assms(1)] ne by blast
  then show "card (used b) < total b" using psubset_card_mono [of "{..<total b}"] by simp
qed

end

section \<open>The bitmap as a set of indices\<close>

definition bm_bit :: "8 word list \<Rightarrow> nat \<Rightarrow> bool" where
  "bm_bit v i \<longleftrightarrow> bit (v ! (i div 8)) (i mod 8)"

definition bm_used :: "bitmap \<Rightarrow> nat set" where
  "bm_used b = {i. i < bm_nbits b \<and> bm_bit (bm_v b) i}"

definition bm_wf :: "bitmap \<Rightarrow> bool" where
  "bm_wf b \<longleftrightarrow> bm_nbits b + 7 < 2 ^ 32 \<and> length (bm_v b) = (bm_nbits b + 7) div 8 \<and>
     (\<forall>i < 8 * length (bm_v b). bm_nbits b \<le> i \<longrightarrow> bm_bit (bm_v b) i)"

lemma bm_words_eq: "nbits + 7 < 2 ^ 32 \<Longrightarrow> bm_words nbits = (nbits + 7) div 8"
  by (simp add: bm_words_def)

lemma mask_clear_iff: "(w :: 8 word) AND 2 ^ k = 0 \<longleftrightarrow> \<not> bit w k"
  by (rule and_exp_eq_0_iff_not_bit)

lemma all_bits_iff: "(w :: 8 word) = 0xff \<longleftrightarrow> (\<forall>k < 8. bit w k)"
proof -
  have ff: "(0xff :: 8 word) = - 1" by simp
  have "w = - 1" if "\<forall>k < 8. bit w k"
    by (rule bit_word_eqI) (use that in simp)
  then show ?thesis unfolding ff by auto
qed

lemma bm_bit_update:
  assumes "i div 8 < length v"
  shows "bm_bit (v[i div 8 := v ! (i div 8) OR push_bit (i mod 8) 1]) j \<longleftrightarrow> j = i \<or> bm_bit v j"
    and "bm_bit (v[i div 8 := v ! (i div 8) AND NOT (push_bit (i mod 8) 1)]) j \<longleftrightarrow> j \<noteq> i \<and> bm_bit v j"
proof -
  have k: "i mod 8 < LENGTH(8)" "j mod 8 < LENGTH(8)" by simp_all
  have ji: "j = i" if "j div 8 = i div 8" "j mod 8 = i mod 8"
    using that by (metis div_mult_mod_eq)
  have ne: "bm_bit (v[i div 8 := w]) j = bm_bit v j" if "j div 8 \<noteq> i div 8" for w
    using that by (simp add: bm_bit_def)
  have eq: "bm_bit (v[i div 8 := w]) j = bit w (j mod 8)" if "j div 8 = i div 8" for w
    using that assms by (simp add: bm_bit_def)
  have p: "bit (push_bit (i mod 8) 1 :: 8 word) (j mod 8) \<longleftrightarrow> j mod 8 = i mod 8"
    using k by (auto simp: push_bit_of_1 bit_exp_iff)
  show "bm_bit (v[i div 8 := v ! (i div 8) OR push_bit (i mod 8) 1]) j \<longleftrightarrow> j = i \<or> bm_bit v j"
    using ne eq ji p by (cases "j div 8 = i div 8") (auto simp: bit_or_iff bm_bit_def)
  show "bm_bit (v[i div 8 := v ! (i div 8) AND NOT (push_bit (i mod 8) 1)]) j \<longleftrightarrow> j \<noteq> i \<and> bm_bit v j"
    using ne eq ji p k by (cases "j div 8 = i div 8") (auto simp: bit_and_iff bit_not_iff bm_bit_def)
qed

lemma find_clear_Some:
  assumes "\<forall>j < off. bit w j" "\<not> (\<forall>k < 8. bit w k)"
  shows "\<exists>k < 8. find_clear w off = Some k \<and> \<not> bit w k \<and> (\<forall>j < k. bit w j)"
  using assms
proof (induction w off rule: find_clear.induct)
  case (1 w off)
  then have "off < 8" by (metis leI order.strict_trans1)
  moreover have "\<forall>j < Suc off. bit w j" if "bit w off" using that 1(2) by (simp add: less_Suc_eq)
  ultimately show ?case
    using 1 by (cases "bit w off") (auto simp: find_clear.simps [of w off] mask_clear_iff)
qed

text \<open>The first clear bit, as an index into the whole bitmap.\<close>

definition bm_first_clear :: "8 word list \<Rightarrow> nat \<Rightarrow> bool" where
  "bm_first_clear v i \<longleftrightarrow> i < 8 * length v \<and> \<not> bm_bit v i \<and> (\<forall>j < i. bm_bit v j)"

definition bm_set_bit :: "bitmap \<Rightarrow> nat \<Rightarrow> bitmap" where
  "bm_set_bit b i = b\<lparr>bm_v := (bm_v b)[i div 8 := bm_v b ! (i div 8) OR push_bit (i mod 8) 1]\<rparr>"

lemma bm_first_clear_bound: "bm_wf b \<Longrightarrow> bm_first_clear (bm_v b) i \<Longrightarrow> i < bm_nbits b"
  unfolding bm_wf_def bm_first_clear_def by (metis not_less)

lemma alloc_scan_spec:
  assumes "bm_wf b" "\<forall>i < 8 * ix. bm_bit (bm_v b) i" "ix \<le> length (bm_v b)"
  shows "(\<exists>i. bm_first_clear (bm_v b) i \<and> alloc_scan b (length (bm_v b)) ix = Some (Inr i, bm_set_bit b i)) \<or>
         (\<forall>i < 8 * length (bm_v b). bm_bit (bm_v b) i) \<and>
           alloc_scan b (length (bm_v b)) ix = Some (Inl ENOSPC, b)"
  using assms
proof (induction "length (bm_v b) - ix" arbitrary: ix)
  case 0
  then have "ix = length (bm_v b)" by simp
  then show ?case using 0(3) by (simp add: alloc_scan.simps)
next
  case (Suc n)
  then have ix: "ix < length (bm_v b)" by simp
  let ?w = "bm_v b ! ix"
  have in_word: "bm_bit (bm_v b) (8 * ix + k) = bit ?w k" if "k < 8" for k
    using that by (simp add: bm_bit_def)
  show ?case
  proof (cases "\<forall>k < 8. bit ?w k")
    case True
    have "bm_bit (bm_v b) i" if "i < 8 * Suc ix" for i
      using that Suc.prems(2) in_word [of "i - 8 * ix"] True by (cases "i < 8 * ix") auto
    then have all: "\<forall>i < 8 * Suc ix. bm_bit (bm_v b) i" by blast
    have "alloc_scan b (length (bm_v b)) ix = alloc_scan b (length (bm_v b)) (Suc ix)"
      using ix True all_bits_iff [of ?w] by (simp add: alloc_scan.simps [of b _ ix])
    then show ?thesis using Suc.hyps(1) [of "Suc ix", OF _ Suc.prems(1) all] Suc.hyps(2) ix by simp
  next
    case False
    then obtain k where k: "k < 8" "find_clear ?w 0 = Some k" "\<not> bit ?w k" "\<forall>j < k. bit ?w j"
      using find_clear_Some [of 0 ?w] by auto
    let ?i = "ix * 8 + k"
    have dm: "?i div 8 = ix" "?i mod 8 = k" using k(1) by simp_all
    have "bm_bit (bm_v b) j" if "j < ?i" for j
      using that Suc.prems(2) in_word [of "j - 8 * ix"] k by (cases "j < 8 * ix") auto
    then have fst: "bm_first_clear (bm_v b) ?i"
      using k in_word [of k] ix by (auto simp: bm_first_clear_def algebra_simps)
    then have "?i < bm_nbits b" by (rule bm_first_clear_bound [OF Suc.prems(1)])
    then have "alloc_scan b (length (bm_v b)) ix = Some (Inr ?i, bm_set_bit b ?i)"
      using ix False k all_bits_iff [of ?w] dm
      by (simp add: alloc_scan.simps [of b _ ix] bm_set_bit_def Let_def)
    with fst show ?thesis by blast
  qed
qed

lemma bm_wf_index: "bm_wf b \<Longrightarrow> i < bm_nbits b \<Longrightarrow> i div 8 < length (bm_v b)"
  by (auto simp: bm_wf_def)

lemma bm_set_bit_wf:
  assumes "bm_wf b" "i < bm_nbits b"
  shows "bm_wf (bm_set_bit b i)" "bm_used (bm_set_bit b i) = insert i (bm_used b)"
    "bm_nbits (bm_set_bit b i) = bm_nbits b"
  using assms bm_bit_update(1) [OF bm_wf_index [OF assms]]
  by (auto simp: bm_set_bit_def bm_wf_def bm_used_def)

lemma bitmap_alloc_spec:
  assumes "bm_wf b"
  shows "(\<exists>i < bm_nbits b. i \<notin> bm_used b \<and> {..<i} \<subseteq> bm_used b \<and> bitmap_alloc b = Some (Inr i, bm_set_bit b i)) \<or>
         bm_used b = {..<bm_nbits b} \<and> bitmap_alloc b = Some (Inl ENOSPC, b)"
proof -
  have len: "bm_words (bm_nbits b) = length (bm_v b)" "bm_nbits b \<le> 8 * length (bm_v b)"
    using assms by (auto simp: bm_wf_def bm_words_eq)
  from alloc_scan_spec [OF assms, of 0] consider
      i where "bm_first_clear (bm_v b) i" "alloc_scan b (length (bm_v b)) 0 = Some (Inr i, bm_set_bit b i)"
    | "\<forall>i < 8 * length (bm_v b). bm_bit (bm_v b) i" "alloc_scan b (length (bm_v b)) 0 = Some (Inl ENOSPC, b)"
    by auto
  then show ?thesis
  proof cases
    case (1 i)
    note bound = bm_first_clear_bound [OF assms 1(1)]
    moreover have "i \<notin> bm_used b" "{..<i} \<subseteq> bm_used b"
      using 1(1) bound by (auto simp: bm_first_clear_def bm_used_def)
    ultimately show ?thesis using 1(2) len by (auto simp: bitmap_alloc_def)
  next
    case 2
    then have "bm_used b = {..<bm_nbits b}" using len(2) by (auto simp: bm_used_def)
    then show ?thesis using 2(2) len by (simp add: bitmap_alloc_def)
  qed
qed

lemma bitmap_mark_eq:
  assumes "bm_wf b"
  shows "bitmap_mark b i = (if i < bm_nbits b \<and> i \<notin> bm_used b then Some (bm_set_bit b i) else None)"
  using bm_wf_index [OF assms, of i]
  by (auto simp: bitmap_mark_def bitmap_translate_def mask_clear_iff bm_used_def bm_bit_def
      bm_set_bit_def kassert_bind)

lemma bitmap_unmark_wf:
  assumes "bm_wf b"
  shows "if i \<in> bm_used b
         then \<exists>b'. bitmap_unmark b i = Some b' \<and> bm_wf b' \<and> bm_nbits b' = bm_nbits b \<and>
                bm_used b' = bm_used b - {i}
         else bitmap_unmark b i = None"
proof (cases "i \<in> bm_used b")
  case True
  then have i: "i < bm_nbits b" "bm_bit (bm_v b) i" by (simp_all add: bm_used_def)
  note ix = bm_wf_index [OF assms i(1)]
  let ?v = "(bm_v b)[i div 8 := bm_v b ! (i div 8) AND NOT (push_bit (i mod 8) 1)]"
  have "bitmap_unmark b i = Some (b\<lparr>bm_v := ?v\<rparr>)"
    using i ix by (simp add: bitmap_unmark_def bitmap_translate_def mask_clear_iff bm_bit_def)
  moreover have "bm_wf (b\<lparr>bm_v := ?v\<rparr>)" "bm_used (b\<lparr>bm_v := ?v\<rparr>) = bm_used b - {i}"
    using assms i(1) bm_bit_update(2) [OF ix] by (auto simp: bm_wf_def bm_used_def)
  ultimately show ?thesis using True by simp
next
  case False
  then show ?thesis
    using bm_wf_index [OF assms, of i]
    by (auto simp: bitmap_unmark_def bitmap_translate_def mask_clear_iff bm_used_def bm_bit_def kassert_bind)
qed

interpretation bm: bit_allocator bitmap_alloc bitmap_mark bitmap_unmark bm_used bm_nbits bm_wf
proof (unfold_locales, goal_cases)
  case (1 b)
  then show ?case by (auto simp: bm_used_def)
next
  case (2 b)
  then show ?case using bitmap_alloc_spec [of b] bm_set_bit_wf [of b] by auto
next
  case (3 b)
  then show ?case using bitmap_alloc_spec [of b] by auto
next
  case (4 b i)
  then show ?case using bitmap_mark_eq [of b i] bm_set_bit_wf [of b i] by simp
next
  case (5 b i)
  then show ?case using bitmap_mark_eq [of b i] by auto
next
  case (6 b i)
  then show ?case using bitmap_unmark_wf [of b i] by simp
next
  case (7 b i)
  then show ?case using bitmap_unmark_wf [of b i] by simp
qed

subsection \<open>Creation\<close>

lemma bit_overbits:
  "bit (foldl (\<lambda>w j. w OR 2 ^ j) (w :: 8 word) js) k \<longleftrightarrow> bit w k \<or> (k < 8 \<and> k \<in> set js)"
  by (induction js arbitrary: w) (auto simp: bit_or_iff bit_exp_iff)

lemma roundup8: "(n + 7) div 8 = (if n mod 8 = 0 then n div 8 else Suc (n div 8 :: nat))"
proof -
  have "n + 7 = (n mod 8 + 7) + n div 8 * 8" using div_mult_mod_eq [of n 8] by linarith
  then have "(n + 7) div 8 = n div 8 + (n mod 8 + 7) div 8" by (metis div_mult_self1 zero_neq_numeral)
  moreover have "(n mod 8 + 7) div 8 = (if n mod 8 = 0 then 0 else 1)"
    by (auto intro!: div_nat_eqI)
  ultimately show ?thesis by simp
qed

lemma bitmap_create_wf:
  assumes "nbits + 7 < 2 ^ 32"
  shows "\<exists>b. bitmap_create True True nbits = Some (Some b) \<and> bm_wf b \<and> bm_nbits b = nbits \<and> bm_used b = {}"
proof (cases "nbits mod 8 = 0")
  case True
  then have "(nbits + 7) div 8 = nbits div 8" by (simp add: roundup8)
  then have w: "bm_words nbits = nbits div 8" "8 * (nbits div 8) = nbits" "(nbits + 7) div 8 = nbits div 8"
    using assms True div_mult_mod_eq [of nbits 8] by (simp_all add: bm_words_eq)
  then have "bitmap_create True True nbits = Some (Some \<lparr>bm_nbits = nbits, bm_v = replicate (nbits div 8) 0\<rparr>)"
    by (simp add: bitmap_create_def)
  moreover have "bm_wf \<lparr>bm_nbits = nbits, bm_v = replicate (nbits div 8) 0\<rparr>"
      "bm_used \<lparr>bm_nbits = nbits, bm_v = replicate (nbits div 8) 0\<rparr> = {}"
    using w assms by (auto simp: bm_wf_def bm_used_def bm_bit_def)
  ultimately show ?thesis by auto
next
  case False
  let ?q = "nbits div 8"
  let ?o = "nbits mod 8"
  let ?v = "(replicate (Suc ?q) (0 :: 8 word))[?q := foldl (\<lambda>w j. w OR push_bit j 1) 0 [?o..<8]]"
  have "(nbits + 7) div 8 = Suc ?q" using False by (simp add: roundup8)
  then have w: "bm_words nbits = Suc ?q" "(nbits + 7) div 8 = Suc ?q" "nbits - ?q * 8 = ?o" "0 < ?o" "?o < 8"
    using False assms by (simp_all add: bm_words_eq minus_div_mult_eq_mod)
  have "bitmap_create True True nbits = Some (Some \<lparr>bm_nbits = nbits, bm_v = ?v\<rparr>)"
    unfolding bitmap_create_def w(1) using w(3-5) div_mult_mod_eq [of nbits 8]
    by (simp add: Let_def cell_def set_cell_def kassert_def del: replicate_Suc)
  moreover have bit: "bm_bit ?v i \<longleftrightarrow> nbits \<le> i" if "i < 8 * Suc ?q" for i
  proof (cases "i div 8 = ?q")
    case True
    then have "nbits \<le> i \<longleftrightarrow> ?o \<le> i mod 8"
      using div_mult_mod_eq [of i 8] div_mult_mod_eq [of nbits 8] by linarith
    then show ?thesis using True by (simp add: bm_bit_def bit_overbits del: replicate_Suc)
  next
    case False
    then have "i div 8 < ?q" using that by simp
    then have "i < nbits" using div_le_mono [of nbits i 8] by linarith
    then show ?thesis using \<open>i div 8 < ?q\<close> by (simp add: bm_bit_def del: replicate_Suc)
  qed
  have "nbits < 8 * Suc ?q" using div_mult_mod_eq [of nbits 8] w(5) unfolding mult_Suc_right by linarith
  then have "bm_wf \<lparr>bm_nbits = nbits, bm_v = ?v\<rparr>" "bm_used \<lparr>bm_nbits = nbits, bm_v = ?v\<rparr> = {}"
    using w(2) assms bit by (auto simp: bm_wf_def bm_used_def simp del: replicate_Suc)
  ultimately show ?thesis by auto
qed

section \<open>Properties\<close>

text \<open>
  \<^verbatim>\<open>bitmap_alloc\<close> is exact. On a well-formed bitmap it never panics: it returns the
  lowest clear index and sets exactly that bit, or reports \<open>ENOSPC\<close>, unchanged, precisely when every
  bit is set; releasing the index with \<^verbatim>\<open>bitmap_unmark\<close> restores the previous set.
\<close>

lemma bitmap_alloc_exact:
  assumes "bm_wf b"
  shows "if bm_used b = {..<bm_nbits b} then bitmap_alloc b = Some (Inl ENOSPC, b)
         else \<exists>i b'. bitmap_alloc b = Some (Inr i, b') \<and> bm_wf b' \<and> i < bm_nbits b \<and>
           i \<notin> bm_used b \<and> {..<i} \<subseteq> bm_used b \<and> bm_used b' = insert i (bm_used b) \<and>
           (\<exists>b''. bitmap_unmark b' i = Some b'' \<and> bm_wf b'' \<and> bm_used b'' = bm_used b)"
proof (cases "bm_used b = {..<bm_nbits b}")
  case True
  then show ?thesis using bm.alloc_full [OF assms] by simp
next
  case False
  then obtain i where i: "i < bm_nbits b" "i \<notin> bm_used b" "{..<i} \<subseteq> bm_used b"
      "bitmap_alloc b = Some (Inr i, bm_set_bit b i)"
    using bitmap_alloc_spec [OF assms] by auto
  with False bm_set_bit_wf [OF assms i(1)] bm.alloc_unmark [OF assms i(4)] show ?thesis by simp
qed

lemma bitmap_alloc_exact_witness:
  "bm_wf \<lparr>bm_nbits = 3, bm_v = [0xfb]\<rparr> \<and>
   (\<exists>i b'. bitmap_alloc \<lparr>bm_nbits = 3, bm_v = [0xfb]\<rparr> = Some (Inr i, b') \<and> i = 2)"
proof -
  let ?b = "\<lparr>bm_nbits = 3, bm_v = [0xfb]\<rparr>"
  have bits: "bm_bit [0xfb] i \<longleftrightarrow> i \<noteq> 2" if "i < 8" for i
  proof -
    have "i = 0 \<or> i = 1 \<or> i = 2 \<or> i = 3 \<or> i = 4 \<or> i = 5 \<or> i = 6 \<or> i = 7"
      using that by arith
    then show ?thesis by (elim disjE) (simp_all add: bm_bit_def)
  qed
  have wf: "bm_wf ?b" using bits by (auto simp: bm_wf_def)
  have used: "bm_used ?b = {0, 1}" using bits by (auto simp: bm_used_def)
  have "2 \<in> {..<3 :: nat}" "2 \<notin> {0, 1 :: nat}" by simp_all
  then have "{0, 1} \<noteq> {..<3 :: nat}" by metis
  then obtain i b' where "bitmap_alloc ?b = Some (Inr i, b')" "i < 3" "i \<notin> {0, 1}"
    using bitmap_alloc_exact [OF wf] unfolding used by auto
  then show ?thesis using wf by auto
qed

text \<open>
  \<^verbatim>\<open>bitmap_create\<close> makes a bitmap in which every index is free and every leftover bit of the
  last word is marked, so that the allocator never hands out an index past the end; creation does not
  panic.
\<close>

lemma bitmap_create_all_free:
  assumes "nbits + 7 < 2 ^ 32"
  shows "\<exists>b. bitmap_create True True nbits = Some (Some b) \<and> bm_wf b \<and> bm_nbits b = nbits \<and> bm_used b = {}"
  using assms by (rule bitmap_create_wf)

lemma bitmap_create_all_free_witness:
  "\<exists>b. bitmap_create True True 3 = Some (Some b) \<and> bm_wf b \<and> bm_used b = {}"
  using bitmap_create_all_free [of 3] by auto

end
