(* ===== verification/Kern_Table.thy ===== *)
theory Kern_Table
  imports Kern_Array Kern_List
begin

text \<open>
  The table of \<^verbatim>\<open>kern/lib/table.c\<close>, an array with holes whose free indices are kept in a
  linked list, and the \<open>slot_table\<close> interface the descriptor and process tables rely on.
\<close>

section \<open>Data\<close>

text \<open>An entry is \<open>None\<close> for the null pointer. A list node points to an allocated
  \<^verbatim>\<open>int\<close>, represented by its value.\<close>

record 'a ktable =
  tab_array :: "'a option karray"
  tab_slots :: "int linkedlist"

section \<open>Operations\<close>

definition get_first_slot :: "'a ktable \<Rightarrow> (int \<times> 'a ktable) option" where
  "get_first_slot t =
     (if ll_getsize (tab_slots t) = 0 then Some (-1, t)
      else do {
        (ret, sl) \<leftarrow> ll_pop_front (tab_slots t);
        Some (ret, t\<lparr>tab_slots := sl\<rparr>) })"

definition tab_create :: "bool \<Rightarrow> bool \<Rightarrow> bool \<Rightarrow> 'a ktable option" where
  "tab_create ok oka okl =
     (if \<not> ok then None
      else do {
        arr \<leftarrow> array_create oka;
        sl \<leftarrow> ll_create okl;
        Some \<lparr>tab_array = arr, tab_slots = sl\<rparr> })"

text \<open>\<^verbatim>\<open>tab_destroy\<close>: the saved indices freed, then the nodes and the array blocks.\<close>

partial_function (option) pop_all_slots :: "int linkedlist \<Rightarrow> (int list \<times> int linkedlist) option" where
  "pop_all_slots sl =
     (if \<not> ll_empty sl then do {
        (ptr, sl1) \<leftarrow> ll_pop_back sl;
        (ptrs, sl2) \<leftarrow> pop_all_slots sl1;
        Some (ptr # ptrs, sl2) }
      else Some ([], sl))"

declare pop_all_slots.simps [code]

definition tab_destroy :: "'a ktable \<Rightarrow> (int list \<times> nat list \<times> array_block list) option" where
  "tab_destroy t = do {
     (ptrs, sl) \<leftarrow> pop_all_slots (tab_slots t);
     (nodes, _) \<leftarrow> ll_destroy sl;
     Some (ptrs, nodes, array_destroy (tab_array t)) }"

definition tab_add :: "bool \<Rightarrow> 'a ktable \<Rightarrow> 'a \<Rightarrow> ((errno + int) \<times> 'a ktable) option" where
  "tab_add ok t ptr = do {
     (slot, t1) \<leftarrow> get_first_slot t;
     if slot = -1 then do {
       (result, arr) \<leftarrow> array_add ok (tab_array t1) (Some ptr);
       let t2 = t1\<lparr>tab_array := arr\<rparr>;
       (case result of
          Inl e \<Rightarrow> Some (Inl e, t2)
        | Inr _ \<Rightarrow> Some (Inr (array_getnum (tab_array t2) - 1), t2)) }
     else do {
       arr \<leftarrow> array_setguy (tab_array t1) slot (Some ptr);
       Some (Inr slot, t1\<lparr>tab_array := arr\<rparr>) } }"

text \<open>
  \<open>okp\<close> is the allocation of the saved index, whose result is used unchecked: storing through
  the null pointer stops the kernel. \<open>okn\<close> is the allocation of the list node.
\<close>

definition tab_remove :: "bool \<Rightarrow> bool \<Rightarrow> 'a ktable \<Rightarrow> int \<Rightarrow> ((int + unit) \<times> 'a ktable) option" where
  "tab_remove okp okn t index = do {
     let sz = array_getnum (tab_array t);
     kassert (index \<ge> 0 \<and> index < sz);
     arr \<leftarrow> array_setguy (tab_array t) index None;
     let t1 = t\<lparr>tab_array := arr\<rparr>;
     kassert okp;
     (result, sl) \<leftarrow> ll_push_back okn (tab_slots t1) index;
     Some (result, t1\<lparr>tab_slots := sl\<rparr>) }"

definition tab_getguy :: "'a ktable \<Rightarrow> int \<Rightarrow> 'a option option" where
  "tab_getguy t index = array_getguy (tab_array t) index"

definition tab_getsize :: "'a ktable \<Rightarrow> int" where
  "tab_getsize t = array_getnum (tab_array t)"

definition tab_getnum :: "'a ktable \<Rightarrow> int" where
  "tab_getnum t = array_getnum (tab_array t) - ll_getsize (tab_slots t)"

text \<open>The array loop of \<^verbatim>\<open>tab_duplicate\<close>; the result of \<^verbatim>\<open>array_add\<close> is not looked at.\<close>

fun dup_array :: "(nat \<Rightarrow> bool) \<Rightarrow> 'b karray \<Rightarrow> nat \<Rightarrow> nat \<Rightarrow> 'b karray \<Rightarrow> 'b karray option" where
  "dup_array oks src 0 i dst = Some dst"
| "dup_array oks src (Suc n) i dst = do {
     ptr \<leftarrow> array_getguy src (int i);
     (_, dst') \<leftarrow> array_add (oks i) dst ptr;
     dup_array oks src n (Suc i) dst' }"

text \<open>The list loop; \<open>okp\<close> and \<open>okn\<close> are the allocations of the index and of the node.\<close>

partial_function (option) dup_slots ::
    "(nat \<Rightarrow> bool) \<Rightarrow> (nat \<Rightarrow> bool) \<Rightarrow> nat \<Rightarrow> int linkedlist \<Rightarrow> int linkedlist \<Rightarrow>
     ((errno + unit) \<times> int linkedlist) option" where
  "dup_slots okp okn k temp_ll n_ll =
     (if \<not> ll_empty temp_ll then do {
        (v, temp') \<leftarrow> ll_pop_front temp_ll;
        if \<not> okp k then Some (Inl ENOMEM, n_ll)
        else do {
          (_, n_ll') \<leftarrow> ll_push_back (okn k) n_ll v;
          dup_slots okp okn (Suc k) temp' n_ll' } }
      else Some (Inr (), n_ll))"

declare dup_slots.simps [code]

record dup_allocs =
  da_array :: bool
  da_add :: "nat \<Rightarrow> bool"
  da_list :: bool
  da_copy :: "nat \<Rightarrow> bool"
  da_ptr :: "nat \<Rightarrow> bool"
  da_node :: "nat \<Rightarrow> bool"

definition tab_duplicate :: "dup_allocs \<Rightarrow> 'a ktable \<Rightarrow> 'a ktable \<Rightarrow> ((errno + unit) \<times> 'a ktable) option" where
  "tab_duplicate al t n_t = do {
     let sz = tab_getsize t;
     (r, n_arr) \<leftarrow> array_preallocate (da_array al) (tab_array n_t) sz;
     (case r of
        Inl e \<Rightarrow> Some (Inl e, n_t\<lparr>tab_array := n_arr\<rparr>)
      | Inr _ \<Rightarrow> do {
          n_arr' \<leftarrow> dup_array (da_add al) (tab_array t) (nat sz) 0 n_arr;
          let n_t1 = n_t\<lparr>tab_array := n_arr'\<rparr>;
          temp \<leftarrow> ll_copy (da_list al) (da_copy al) (tab_slots t);
          (case temp of
             None \<Rightarrow> Some (Inl ENOMEM, n_t1)
           | Some temp_ll \<Rightarrow> do {
               (r2, sl) \<leftarrow> dup_slots (da_ptr al) (da_node al) 0 temp_ll (tab_slots n_t1);
               Some (r2, n_t1\<lparr>tab_slots := sl\<rparr>) }) }) }"

section \<open>The slot table interface\<close>

text \<open>
  What the clients rely on: \<open>entry t i\<close> is the object at index \<open>i\<close>, if any. Adding chooses an
  index that held nothing, stores the object there and disturbs no other index; removing empties
  one index.
\<close>

locale slot_table =
  fixes add :: "bool \<Rightarrow> 't \<Rightarrow> 'a \<Rightarrow> ((errno + int) \<times> 't) option"
    and remove :: "bool \<Rightarrow> bool \<Rightarrow> 't \<Rightarrow> int \<Rightarrow> ((int + unit) \<times> 't) option"
    and getguy :: "'t \<Rightarrow> int \<Rightarrow> 'a option option"
    and getsize :: "'t \<Rightarrow> int"
    and entry :: "'t \<Rightarrow> int \<Rightarrow> 'a option"
    and invar :: "'t \<Rightarrow> bool"
  assumes getguy: "invar t \<Longrightarrow> getguy t i = (if 0 \<le> i \<and> i < getsize t then Some (entry t i) else None)"
    and entry_range: "invar t \<Longrightarrow> entry t i \<noteq> None \<Longrightarrow> 0 \<le> i \<and> i < getsize t"
    and add: "invar t \<Longrightarrow> getsize t < 2 ^ 29 \<Longrightarrow>
          \<exists>r t'. add ok t x = Some (r, t') \<and> invar t' \<and>
            ((\<exists>i. r = Inr i \<and> 0 \<le> i \<and> i \<le> getsize t \<and> entry t i = None \<and>
                entry t' = (entry t)(i := Some x) \<and> getsize t \<le> getsize t' \<and> getsize t' \<le> getsize t + 1) \<or>
             r = Inl ENOMEM \<and> \<not> ok \<and> entry t' = entry t \<and> getsize t' = getsize t)"
    and remove: "invar t \<Longrightarrow> entry t i \<noteq> None \<Longrightarrow>
          \<exists>r t'. remove True okn t i = Some (r, t') \<and> invar t' \<and> entry t' = (entry t)(i := None) \<and>
            getsize t' = getsize t"
begin

lemma add_get:
  assumes "invar t" "getsize t < 2 ^ 29" "add ok t x = Some (Inr i, t')"
  shows "getguy t' i = Some (Some x)" "entry t i = None"
    "\<And>j. j \<noteq> i \<Longrightarrow> entry t' j = entry t j"
proof -
  have t': "invar t'" "entry t' = (entry t)(i := Some x)" "entry t i = None"
    using add [OF assms(1,2), of ok x] assms(3) by auto
  then show "getguy t' i = Some (Some x)"
    using entry_range [OF t'(1), of i] by (simp add: getguy)
  show "entry t i = None" by fact
  show "entry t' j = entry t j" if "j \<noteq> i" for j using that t'(2) by simp
qed

text \<open>Distinct live objects stay at distinct indices: an index in use is not handed out again.\<close>

lemma add_keeps_live:
  assumes "invar t" "getsize t < 2 ^ 29" "add ok t x = Some (Inr i, t')" "entry t j = Some y"
  shows "i \<noteq> j" "getguy t' j = Some (Some y)"
proof -
  show ij: "i \<noteq> j" using add_get(2) [OF assms(1-3)] assms(4) by auto
  have "invar t'" using add [OF assms(1,2), of ok x] assms(3) by auto
  moreover have "entry t' j = Some y" using add_get(3) [OF assms(1-3)] ij assms(4) by metis
  ultimately show "getguy t' j = Some (Some y)" using entry_range [of t' j] by (simp add: getguy)
qed

end

section \<open>Well-formed tables\<close>

abbreviation tab_elems :: "'a ktable \<Rightarrow> 'a option list" where
  "tab_elems t \<equiv> array_elems (tab_array t)"

definition tab_entry :: "'a ktable \<Rightarrow> int \<Rightarrow> 'a option" where
  "tab_entry t i = (if 0 \<le> i \<and> i < int (length (tab_elems t)) then tab_elems t ! nat i else None)"

text \<open>Every saved index is an empty entry, saved once.\<close>

definition tab_invar :: "'a ktable \<Rightarrow> bool" where
  "tab_invar t \<longleftrightarrow> array_invar (tab_array t) \<and> ll_invar (tab_slots t) \<and>
     distinct (ll_elems (tab_slots t)) \<and>
     (\<forall>i \<in> set (ll_elems (tab_slots t)).
        0 \<le> i \<and> i < int (length (tab_elems t)) \<and> tab_elems t ! nat i = None)"

lemma ll_getsize_eq: "ll_invar ll \<Longrightarrow> ll_getsize ll = int (length (ll_elems ll))"
  using ll_rep_elems by (fastforce simp: ll_invar_def ll_getsize_def ll_rep_def)

lemma tab_elems_num: "tab_invar t \<Longrightarrow> tab_getsize t = int (length (tab_elems t))"
  by (simp add: tab_invar_def tab_getsize_def arr.getnum)

lemma tab_elems_bound: "tab_invar t \<Longrightarrow> length (tab_elems t) < 2 ^ 30"
proof -
  assume "tab_invar t"
  then have "array_invar (tab_array t)" "arr_num (tab_array t) < 2 ^ 30"
    by (auto simp: tab_invar_def array_invar_def array_wf_def)
  then show ?thesis using arr.getnum [of "tab_array t"] by (simp add: array_getnum_def)
qed

lemma tab_slots_bound:
  assumes "tab_invar t"
  shows "length (ll_elems (tab_slots t)) \<le> length (tab_elems t)"
proof -
  let ?s = "ll_elems (tab_slots t)"
  have "nat ` set ?s \<subseteq> {..<length (tab_elems t)}"
    using assms by (auto simp: tab_invar_def)
  then have "card (nat ` set ?s) \<le> length (tab_elems t)"
    using card_mono [of "{..<length (tab_elems t)}"] by simp
  moreover have "inj_on nat (set ?s)"
    using assms unfolding tab_invar_def inj_on_def by (metis eq_nat_nat_iff)
  ultimately show ?thesis
    using assms by (simp add: card_image distinct_card tab_invar_def)
qed

lemma get_first_slot_Nil:
  "tab_invar t \<Longrightarrow> ll_elems (tab_slots t) = [] \<Longrightarrow> get_first_slot t = Some (-1, t)"
  by (simp add: get_first_slot_def tab_invar_def ll_getsize_eq)

lemma get_first_slot_Cons:
  assumes "tab_invar t" "ll_elems (tab_slots t) = i # is"
  shows "\<exists>sl. get_first_slot t = Some (i, t\<lparr>tab_slots := sl\<rparr>) \<and> ll_invar sl \<and> ll_elems sl = is"
  using lq.remhead_Cons [of "tab_slots t" i "is"] assms
  by (auto simp: get_first_slot_def tab_invar_def ll_getsize_eq)

lemma tab_entry_eq:
  "tab_invar t \<Longrightarrow> tab_getguy t i = (if 0 \<le> i \<and> i < tab_getsize t then Some (tab_entry t i) else None)"
  using tab_elems_num [of t]
  by (simp add: tab_getguy_def tab_entry_def tab_invar_def arr.getguy cell_def)

lemma tab_entry_set:
  assumes "0 \<le> i" "i < int (length (tab_elems t))" "tab_elems t' = (tab_elems t)[nat i := v]"
  shows "tab_entry t' = (tab_entry t)(i := v)"
proof
  fix j
  show "tab_entry t' j = ((tab_entry t)(i := v)) j"
    using assms by (cases "0 \<le> j") (auto simp: tab_entry_def nth_list_update nat_eq_iff)
qed

lemma tab_entry_snoc:
  assumes "tab_elems t' = tab_elems t @ [v]"
  shows "tab_entry t' = (tab_entry t)(int (length (tab_elems t)) := v)"
proof
  fix j
  show "tab_entry t' j = ((tab_entry t)(int (length (tab_elems t)) := v)) j"
    using assms by (auto simp: tab_entry_def nth_append nat_less_iff)
qed

lemma tab_add_append:
  assumes "tab_invar t" "tab_getsize t < 2 ^ 29" "ll_elems (tab_slots t) = []"
  shows "\<exists>r t'. tab_add ok t x = Some (r, t') \<and> tab_invar t' \<and> tab_slots t' = tab_slots t \<and>
           (r = Inr (tab_getsize t) \<and> tab_elems t' = tab_elems t @ [Some x] \<or>
            r = Inl ENOMEM \<and> \<not> ok \<and> tab_elems t' = tab_elems t)"
proof -
  have inv: "array_invar (tab_array t)" using assms(1) by (simp add: tab_invar_def)
  obtain r a where ra: "array_add ok (tab_array t) (Some x) = Some (r, a)" "array_invar a"
      "r = Inr () \<and> array_elems a = tab_elems t @ [Some x] \<or> r = Inl ENOMEM \<and> \<not> ok \<and> array_elems a = tab_elems t"
    using arr.add_room [OF inv, of ok "Some x"] assms(2) unfolding tab_getsize_def by blast
  let ?t = "t\<lparr>tab_array := a\<rparr>"
  have slot: "get_first_slot t = Some (-1, t)" by (rule get_first_slot_Nil) fact+
  have "tab_invar ?t" using assms ra(2) by (simp add: tab_invar_def)
  moreover have "array_getnum a - 1 = tab_getsize t" if "array_elems a = tab_elems t @ [Some x]"
    using arr.getnum [OF ra(2)] tab_elems_num [OF assms(1)] that by simp
  ultimately show ?thesis
    using ra slot by (auto simp: tab_add_def Let_def)
qed

lemma tab_add_reuse:
  assumes "tab_invar t" "ll_elems (tab_slots t) = i # is"
  shows "\<exists>t'. tab_add ok t x = Some (Inr i, t') \<and> tab_invar t' \<and> ll_elems (tab_slots t') = is \<and>
           tab_elems t' = (tab_elems t)[nat i := Some x] \<and> 0 \<le> i \<and> i < int (length (tab_elems t))"
proof -
  have i: "0 \<le> i" "i < int (length (tab_elems t))" "tab_elems t ! nat i = None" "i \<notin> set is"
    using assms by (auto simp: tab_invar_def)
  have inv: "array_invar (tab_array t)" using assms(1) by (simp add: tab_invar_def)
  obtain sl where sl: "get_first_slot t = Some (i, t\<lparr>tab_slots := sl\<rparr>)" "ll_invar sl" "ll_elems sl = is"
    using get_first_slot_Cons [OF assms] by blast
  obtain a where a: "array_setguy (tab_array t) i (Some x) = Some a" "array_invar a"
      "array_elems a = (tab_elems t)[nat i := Some x]"
    using arr.setguy_in [OF inv, of i] i arr.getnum [OF inv] by auto
  let ?t = "t\<lparr>tab_slots := sl, tab_array := a\<rparr>"
  have "tab_add ok t x = Some (Inr i, ?t)" using sl a i by (simp add: tab_add_def)
  moreover have "(tab_elems t)[nat i := Some x] ! nat j = None \<and> 0 \<le> j \<and> j < int (length (tab_elems t))"
    if "j \<in> set is" for j
  proof -
    have j: "0 \<le> j" "j < int (length (tab_elems t))" "tab_elems t ! nat j = None" "j \<noteq> i"
      using that assms i by (auto simp: tab_invar_def)
    then have "nat j \<noteq> nat i" using i(1) by linarith
    with j show ?thesis by simp
  qed
  then have "tab_invar ?t"
    using assms sl a by (simp add: tab_invar_def)
  ultimately show ?thesis using a sl i by (intro exI [of _ ?t]) simp
qed

lemma tab_remove_wf:
  assumes "tab_invar t" "tab_entry t i \<noteq> None"
  shows "\<exists>r t'. tab_remove True okn t i = Some (r, t') \<and> tab_invar t' \<and>
           tab_elems t' = (tab_elems t)[nat i := None] \<and> 0 \<le> i \<and> i < int (length (tab_elems t)) \<and>
           (r = Inr () \<and> ll_elems (tab_slots t') = ll_elems (tab_slots t) @ [i] \<or>
            r = Inl (-1) \<and> \<not> okn \<and> ll_elems (tab_slots t') = ll_elems (tab_slots t))"
proof -
  have i: "0 \<le> i" "i < int (length (tab_elems t))" "tab_elems t ! nat i \<noteq> None"
    using assms(2) by (auto simp: tab_entry_def split: if_splits)
  have inv: "array_invar (tab_array t)" "ll_invar (tab_slots t)" using assms(1) by (simp_all add: tab_invar_def)
  obtain a where a: "array_setguy (tab_array t) i None = Some a" "array_invar a"
      "array_elems a = (tab_elems t)[nat i := None]"
    using arr.setguy_in [OF inv(1), of i] i arr.getnum [OF inv(1)] by auto
  have "length (ll_elems (tab_slots t)) < 2 ^ 31 - 1"
    using tab_slots_bound [OF assms(1)] tab_elems_bound [OF assms(1)] by simp
  then obtain r sl where sl: "ll_push_back okn (tab_slots t) i = Some (r, sl)" "ll_invar sl"
      "r = Inr () \<and> ll_elems sl = ll_elems (tab_slots t) @ [i] \<or>
       r = Inl (-1) \<and> \<not> okn \<and> ll_elems sl = ll_elems (tab_slots t)"
    using lq.addtail [OF inv(2), of okn i] by blast
  let ?t = "t\<lparr>tab_array := a, tab_slots := sl\<rparr>"
  have "i \<notin> set (ll_elems (tab_slots t))" using i(3) assms(1) by (auto simp: tab_invar_def)
  then have dist: "distinct (ll_elems sl)" using assms(1) sl(3) by (auto simp: tab_invar_def)
  have slots: "0 \<le> j \<and> j < int (length (tab_elems t)) \<and> (tab_elems t)[nat i := None] ! nat j = None"
    if "j \<in> set (ll_elems sl)" for j
  proof (cases "nat j = nat i")
    case True
    moreover have "0 \<le> j" "j < int (length (tab_elems t))"
      using that sl(3) i(1,2) assms(1) unfolding tab_invar_def by (metis Un_iff empty_iff insert_iff list.set set_append)+
    ultimately show ?thesis using i by simp
  next
    case False
    then have "j \<in> set (ll_elems (tab_slots t))" using that sl(3) by auto
    then show ?thesis using False assms(1) by (simp add: tab_invar_def)
  qed
  have "tab_invar ?t"
    unfolding tab_invar_def using a sl(2) dist slots by simp
  moreover have "tab_remove True okn t i = Some (r, ?t)"
    using i a sl arr.getnum [OF inv(1)] by (simp add: tab_remove_def Let_def)
  ultimately show ?thesis using a sl i by (intro exI [of _ r] exI [of _ ?t]) simp
qed

interpretation tab: slot_table tab_add tab_remove tab_getguy tab_getsize tab_entry tab_invar
proof (unfold_locales, goal_cases)
  case (1 t i)
  then show ?case by (rule tab_entry_eq)
next
  case (2 t i)
  then show ?case using tab_elems_num [of t] by (simp add: tab_entry_def split: if_splits)
next
  case (3 t ok x)
  show ?case
  proof (cases "ll_elems (tab_slots t)")
    case Nil
    then obtain r t' where t': "tab_add ok t x = Some (r, t')" "tab_invar t'"
        "r = Inr (tab_getsize t) \<and> tab_elems t' = tab_elems t @ [Some x] \<or>
         r = Inl ENOMEM \<and> \<not> ok \<and> tab_elems t' = tab_elems t"
      using tab_add_append [OF 3] by blast
    have n: "tab_getsize t = int (length (tab_elems t))" "tab_getsize t' = int (length (tab_elems t'))"
      using tab_elems_num 3(1) t'(2) by auto
    from t'(3) show ?thesis
    proof
      assume r: "r = Inr (tab_getsize t) \<and> tab_elems t' = tab_elems t @ [Some x]"
      then have "tab_entry t' = (tab_entry t)(tab_getsize t := Some x)"
        using tab_entry_snoc [of t' t "Some x"] n(1) by simp
      moreover have "tab_entry t (tab_getsize t) = None" using n(1) by (simp add: tab_entry_def)
      moreover have "tab_getsize t' = tab_getsize t + 1" using n r by simp
      ultimately show ?thesis using t'(1,2) r n(1) by simp
    next
      assume r: "r = Inl ENOMEM \<and> \<not> ok \<and> tab_elems t' = tab_elems t"
      then have "tab_entry t' = tab_entry t" by (simp add: tab_entry_def fun_eq_iff)
      then show ?thesis using t'(1,2) r n by simp
    qed
  next
    case (Cons i "is")
    then obtain t' where t': "tab_add ok t x = Some (Inr i, t')" "tab_invar t'"
        "tab_elems t' = (tab_elems t)[nat i := Some x]" "0 \<le> i" "i < int (length (tab_elems t))"
      using tab_add_reuse [OF 3(1)] by blast
    have "tab_entry t i = None" using 3(1) Cons by (auto simp: tab_invar_def tab_entry_def)
    then show ?thesis
      using t' tab_entry_set [OF t'(4,5,3)] tab_elems_num [OF 3(1)] tab_elems_num [OF t'(2)] by auto
  qed
next
  case (4 t i okn)
  then obtain r t' where t': "tab_remove True okn t i = Some (r, t')" "tab_invar t'"
      "tab_elems t' = (tab_elems t)[nat i := None]" "0 \<le> i" "i < int (length (tab_elems t))"
    using tab_remove_wf by blast
  then show ?case
    using tab_entry_set [OF t'(4,5,3)] tab_elems_num [OF 4(1)] tab_elems_num [OF t'(2)] by auto
qed

section \<open>Tables that know all their holes\<close>

text \<open>
  As long as no allocation of a list node fails, every empty entry is saved for reuse. Then \<^verbatim>\<open>tab_getnum\<close> is
  the number of objects in the table, and the table grows only when it is full.
\<close>

definition tab_exact :: "'a ktable \<Rightarrow> bool" where
  "tab_exact t \<longleftrightarrow> tab_invar t \<and>
     (\<forall>i. 0 \<le> i \<and> i < int (length (tab_elems t)) \<and> tab_entry t i = None \<longrightarrow> i \<in> set (ll_elems (tab_slots t)))"

lemma tab_exact_invar: "tab_exact t \<Longrightarrow> tab_invar t"
  by (simp add: tab_exact_def)

lemma tab_live_finite: "finite {i. tab_entry t i \<noteq> None}"
  by (rule finite_subset [of _ "{0..<int (length (tab_elems t))}"]) (auto simp: tab_entry_def split: if_splits)

lemma tab_exact_slots:
  assumes "tab_exact t"
  shows "set (ll_elems (tab_slots t)) = {0..<int (length (tab_elems t))} - {i. tab_entry t i \<noteq> None}"
proof (intro equalityI subsetI)
  fix i
  assume "i \<in> set (ll_elems (tab_slots t))"
  then have "0 \<le> i \<and> i < int (length (tab_elems t)) \<and> tab_elems t ! nat i = None"
    using assms unfolding tab_exact_def tab_invar_def by blast
  then show "i \<in> {0..<int (length (tab_elems t))} - {i. tab_entry t i \<noteq> None}" by (simp add: tab_entry_def)
next
  fix i
  assume "i \<in> {0..<int (length (tab_elems t))} - {i. tab_entry t i \<noteq> None}"
  then show "i \<in> set (ll_elems (tab_slots t))" using assms unfolding tab_exact_def by simp
qed

lemma tab_exact_getnum:
  assumes "tab_exact t"
  shows "tab_getnum t = int (card {i. tab_entry t i \<noteq> None})"
proof -
  let ?live = "{i. tab_entry t i \<noteq> None}" and ?n = "length (tab_elems t)"
  note inv = tab_exact_invar [OF assms]
  have sub: "?live \<subseteq> {0..<int ?n}" by (auto simp: tab_entry_def split: if_splits)
  have "length (ll_elems (tab_slots t)) = card (set (ll_elems (tab_slots t)))"
    using inv by (simp add: tab_invar_def distinct_card)
  also have "\<dots> = ?n - card ?live"
    unfolding tab_exact_slots [OF assms] by (simp only: card_Diff_subset [OF tab_live_finite sub]) simp
  finally have "int (length (ll_elems (tab_slots t))) = int ?n - int (card ?live)"
    using card_mono [OF _ sub] by simp
  then show ?thesis
    using inv tab_elems_num [OF inv] ll_getsize_eq [of "tab_slots t"] by (simp add: tab_getnum_def tab_getsize_def tab_invar_def)
qed

lemma tab_exact_add:
  assumes "tab_exact t" "tab_getsize t < 2 ^ 29"
  shows "\<exists>r t'. tab_add ok t x = Some (r, t') \<and> tab_exact t' \<and>
     ((\<exists>i. r = Inr i \<and> tab_entry t i = None \<and> tab_entry t' = (tab_entry t)(i := Some x) \<and>
         tab_getsize t' \<le> max (tab_getsize t) (tab_getnum t + 1)) \<or>
      r = Inl ENOMEM \<and> \<not> ok \<and> tab_entry t' = tab_entry t \<and> tab_getsize t' = tab_getsize t)"
proof (cases "ll_elems (tab_slots t)")
  note inv = tab_exact_invar [OF assms(1)]
  case Nil
  then obtain r t' where t': "tab_add ok t x = Some (r, t')" "tab_invar t'" "tab_slots t' = tab_slots t"
      "r = Inr (tab_getsize t) \<and> tab_elems t' = tab_elems t @ [Some x] \<or> r = Inl ENOMEM \<and> \<not> ok \<and> tab_elems t' = tab_elems t"
    using tab_add_append [OF inv assms(2)] by blast
  have n: "tab_getsize t = int (length (tab_elems t))" "tab_getsize t' = int (length (tab_elems t'))"
    using tab_elems_num inv t'(2) by auto
  have num: "tab_getnum t = tab_getsize t"
    using Nil inv ll_getsize_eq [of "tab_slots t"] by (simp add: tab_getnum_def tab_getsize_def tab_invar_def)
  from t'(4) show ?thesis
  proof
    assume r: "r = Inr (tab_getsize t) \<and> tab_elems t' = tab_elems t @ [Some x]"
    then have e: "tab_entry t' = (tab_entry t)(tab_getsize t := Some x)"
      using tab_entry_snoc [of t' t "Some x"] n(1) by simp
    then have "tab_exact t'" using assms(1) t'(2,3) r n Nil by (auto simp: tab_exact_def)
    moreover have "tab_entry t (tab_getsize t) = None" using n(1) by (simp add: tab_entry_def)
    ultimately show ?thesis using t'(1) r e n num by simp
  next
    assume r: "r = Inl ENOMEM \<and> \<not> ok \<and> tab_elems t' = tab_elems t"
    then have e: "tab_entry t' = tab_entry t" by (simp add: tab_entry_def fun_eq_iff)
    then have "tab_exact t'" using assms(1) t'(2,3) r by (simp add: tab_exact_def)
    then show ?thesis using t'(1) r e n by simp
  qed
next
  case (Cons i "is")
  note inv = tab_exact_invar [OF assms(1)]
  obtain t' where t': "tab_add ok t x = Some (Inr i, t')" "tab_invar t'" "ll_elems (tab_slots t') = is"
      "tab_elems t' = (tab_elems t)[nat i := Some x]" "0 \<le> i" "i < int (length (tab_elems t))"
    using tab_add_reuse [OF inv Cons] by blast
  have e: "tab_entry t' = (tab_entry t)(i := Some x)" by (rule tab_entry_set) (use t' in simp_all)
  have "tab_entry t i = None" using inv Cons by (auto simp: tab_invar_def tab_entry_def)
  moreover have "tab_exact t'" using assms(1) t' e Cons by (auto simp: tab_exact_def)
  ultimately show ?thesis using t' e tab_elems_num [OF inv] tab_elems_num [OF t'(2)] by simp
qed

lemma tab_exact_remove:
  assumes "tab_exact t" "tab_entry t i \<noteq> None"
  shows "\<exists>t'. tab_remove True True t i = Some (Inr (), t') \<and> tab_exact t' \<and> tab_entry t' = (tab_entry t)(i := None) \<and>
     tab_getsize t' = tab_getsize t"
proof -
  note inv = tab_exact_invar [OF assms(1)]
  obtain t' where t': "tab_remove True True t i = Some (Inr (), t')" "tab_invar t'"
      "tab_elems t' = (tab_elems t)[nat i := None]" "0 \<le> i" "i < int (length (tab_elems t))"
      "ll_elems (tab_slots t') = ll_elems (tab_slots t) @ [i]"
    using tab_remove_wf [OF inv assms(2), of True] by auto
  have e: "tab_entry t' = (tab_entry t)(i := None)" by (rule tab_entry_set) (use t' in simp_all)
  have "tab_exact t'" using assms(1) t' e by (auto simp: tab_exact_def)
  then show ?thesis using t' e tab_elems_num [OF inv] tab_elems_num [OF t'(2)] by simp
qed

section \<open>Duplication\<close>

lemma dup_array_all:
  assumes "array_invar src" "array_invar dst" "i + n = length (array_elems src)"
    "array_getnum dst + int n \<le> arr_max dst"
  shows "\<exists>dst'. dup_array oks src n i dst = Some dst' \<and> array_invar dst' \<and>
           array_elems dst' = array_elems dst @ drop i (array_elems src)"
  using assms
proof (induction n arbitrary: i dst)
  case 0
  then show ?case by simp
next
  case (Suc n)
  let ?x = "array_elems src ! i"
  have get: "array_getguy src (int i) = Some ?x" using Suc.prems by (simp add: arr.getguy)
  have "arr_num dst < arr_max dst" using Suc.prems(4) by (simp add: array_getnum_def)
  then obtain d1 where d1: "array_add (oks i) dst ?x = Some (Inr (), d1)" "array_invar d1"
      "array_elems d1 = array_elems dst @ [?x]" "arr_max d1 = arr_max dst"
    using array_add_no_alloc [OF Suc.prems(2), of "oks i" ?x] by blast
  have "array_getnum d1 + int n \<le> arr_max d1"
    using Suc.prems(2,4) d1 arr.getnum [of dst] arr.getnum [of d1] by simp
  then obtain d2 where "dup_array oks src n (Suc i) d1 = Some d2" "array_invar d2"
      "array_elems d2 = array_elems d1 @ drop (Suc i) (array_elems src)"
    using Suc.IH [OF Suc.prems(1) d1(2), of "Suc i"] Suc.prems(3) by auto
  moreover have "drop i (array_elems src) = ?x # drop (Suc i) (array_elems src)"
    using Suc.prems(3) by (simp add: Cons_nth_drop_Suc)
  ultimately show ?case using get d1 by simp
qed

lemma dup_slots_all:
  assumes "ll_invar temp" "ll_invar nl" "length (ll_elems temp) + length (ll_elems nl) < 2 ^ 31 - 1"
  shows "\<exists>nl'. dup_slots (\<lambda>_. True) (\<lambda>_. True) k temp nl = Some (Inr (), nl') \<and> ll_invar nl' \<and>
           ll_elems nl' = ll_elems nl @ ll_elems temp"
  using assms
proof (induction "ll_elems temp" arbitrary: temp nl k)
  case Nil
  then show ?case using lq.isempty [OF Nil.prems(1)] by (simp add: dup_slots.simps)
next
  case (Cons v vs)
  obtain t1 where t1: "ll_pop_front temp = Some (v, t1)" "ll_invar t1" "ll_elems t1 = vs"
    using lq.remhead_Cons [OF Cons.prems(1) Cons.hyps(2) [symmetric]] by blast
  obtain n1 where n1: "ll_push_back True nl v = Some (Inr (), n1)" "ll_invar n1" "ll_elems n1 = ll_elems nl @ [v]"
    using lq.addtail_success [OF Cons.prems(2), of v] Cons.prems(3) by auto
  have "length (ll_elems t1) + length (ll_elems n1) < 2 ^ 31 - 1"
    using Cons.prems(3) t1 n1 Cons.hyps(2) [symmetric] by simp
  then obtain n2 where "dup_slots (\<lambda>_. True) (\<lambda>_. True) (Suc k) t1 n1 = Some (Inr (), n2)" "ll_invar n2"
      "ll_elems n2 = ll_elems n1 @ ll_elems t1"
    using Cons.hyps(1) [OF t1(3) [symmetric] t1(2) n1(2), of "Suc k"] by blast
  moreover have "\<not> ll_empty temp" using lq.isempty [OF Cons.prems(1)] Cons.hyps(2) by (metis list.distinct(1))
  ultimately show ?case
    using t1 n1 Cons.hyps(2) [symmetric] by (simp add: dup_slots.simps [of _ _ k temp])
qed

lemma tab_create_invar:
  assumes "tab_create True True True = Some t"
  shows "tab_invar t" "tab_elems t = []" "ll_elems (tab_slots t) = []"
  using assms ll_create_rep [of True] ll_rep_elems
  by (fastforce simp: tab_create_def tab_invar_def array_create_def ll_create_def array_invar_def
      array_wf_def array_full_def array_elems_def ll_invar_def)+

lemma tab_duplicate_array:
  assumes "tab_invar t" "tab_getsize t \<le> 2 ^ 29" "tab_create True True True = Some n_t" "da_array al"
  shows "\<exists>a1 a2. array_preallocate True (tab_array n_t) (tab_getsize t) = Some (Inr (), a1) \<and>
     dup_array (da_add al) (tab_array t) (nat (tab_getsize t)) 0 a1 = Some a2 \<and> array_invar a2 \<and> array_elems a2 = tab_elems t"
proof -
  note new = tab_create_invar [OF assms(3)]
  have inv: "array_invar (tab_array t)" "array_invar (tab_array n_t)"
    using assms(1) new by (simp_all add: tab_invar_def)
  obtain a1 where a1: "array_preallocate True (tab_array n_t) (tab_getsize t) = Some (Inr (), a1)"
      "array_invar a1" "array_elems a1 = []" "tab_getsize t \<le> arr_max a1"
    using array_preallocate_keeps [OF inv(2) assms(2)] new(2) by auto
  then show ?thesis
    using dup_array_all [OF inv(1) a1(2), of 0 "nat (tab_getsize t)" "da_add al"] tab_elems_num [OF assms(1)] arr.getnum [OF a1(2)]
    by auto
qed

lemma tab_duplicate_all:
  assumes "tab_invar t" "tab_getsize t \<le> 2 ^ 29"
    and "tab_create True True True = Some n_t"
    and "da_array al" "da_list al" "da_copy al = (\<lambda>_. True)" "da_ptr al = (\<lambda>_. True)" "da_node al = (\<lambda>_. True)"
  shows "\<exists>t'. tab_duplicate al t n_t = Some (Inr (), t') \<and> tab_invar t' \<and>
           tab_entry t' = tab_entry t \<and> ll_elems (tab_slots t') = ll_elems (tab_slots t) \<and> tab_elems t' = tab_elems t"
proof -
  note new = tab_create_invar [OF assms(3)]
  have inv: "ll_invar (tab_slots t)" "ll_invar (tab_slots n_t)"
    using assms(1) new by (simp_all add: tab_invar_def)
  obtain a1 a2 where a: "array_preallocate True (tab_array n_t) (tab_getsize t) = Some (Inr (), a1)"
      "dup_array (da_add al) (tab_array t) (nat (tab_getsize t)) 0 a1 = Some a2" "array_invar a2" "array_elems a2 = tab_elems t"
    using tab_duplicate_array [OF assms(1-4)] by blast
  obtain tmp where tmp: "ll_copy True (\<lambda>_. True) (tab_slots t) = Some (Some tmp)" "ll_invar tmp"
      "ll_elems tmp = ll_elems (tab_slots t)"
    using ll_copy_all [OF inv(1)] by blast
  have "length (ll_elems tmp) + length (ll_elems (tab_slots n_t)) < 2 ^ 31 - 1"
    using tmp new(3) tab_slots_bound [OF assms(1)] tab_elems_bound [OF assms(1)] by simp
  then obtain sl where sl: "dup_slots (\<lambda>_. True) (\<lambda>_. True) 0 tmp (tab_slots n_t) = Some (Inr (), sl)"
      "ll_invar sl" "ll_elems sl = ll_elems (tab_slots t)"
    using dup_slots_all [OF tmp(2) inv(2)] tmp new(3) by fastforce
  let ?t = "n_t\<lparr>tab_array := a2, tab_slots := sl\<rparr>"
  have "tab_duplicate al t n_t = Some (Inr (), ?t)"
    using a tmp sl assms(4-8) by (simp add: tab_duplicate_def Let_def)
  moreover have "tab_invar ?t" using assms(1) a sl by (simp add: tab_invar_def)
  moreover have "tab_entry ?t = tab_entry t" using a by (simp add: tab_entry_def fun_eq_iff)
  ultimately show ?thesis using sl a by auto
qed

text \<open>Without memory for the copy of the free list the entries are in the new table already.\<close>

lemma tab_duplicate_no_list:
  assumes "tab_invar t" "tab_getsize t \<le> 2 ^ 29" "tab_create True True True = Some n_t" "da_array al" "\<not> da_list al"
  shows "\<exists>t'. tab_duplicate al t n_t = Some (Inl ENOMEM, t') \<and> tab_invar t' \<and> tab_entry t' = tab_entry t \<and> tab_elems t' = tab_elems t"
proof -
  note new = tab_create_invar [OF assms(3)]
  obtain a1 a2 where a: "array_preallocate True (tab_array n_t) (tab_getsize t) = Some (Inr (), a1)"
      "dup_array (da_add al) (tab_array t) (nat (tab_getsize t)) 0 a1 = Some a2" "array_invar a2" "array_elems a2 = tab_elems t"
    using tab_duplicate_array [OF assms(1-4)] by blast
  let ?t = "n_t\<lparr>tab_array := a2\<rparr>"
  have "tab_duplicate al t n_t = Some (Inl ENOMEM, ?t)"
    using a assms(4,5) by (simp add: tab_duplicate_def Let_def ll_copy_def ll_create_def)
  moreover have "tab_invar ?t" using new a(3) by (simp add: tab_invar_def)
  moreover have "tab_entry ?t = tab_entry t" using a by (simp add: tab_entry_def fun_eq_iff)
  ultimately show ?thesis using a by auto
qed

lemma pop_all_slots_returns:
  assumes "ll_invar sl" "length (ll_elems sl) < 2 ^ 31 - 1"
  shows "\<exists>ptrs sl'. pop_all_slots sl = Some (ptrs, sl') \<and> ll_invar sl' \<and> ll_elems sl' = []"
  using assms
proof (induction "length (ll_elems sl)" arbitrary: sl)
  case 0
  then show ?case using lq.isempty [OF 0(2)] by (simp add: pop_all_slots.simps)
next
  case (Suc n)
  obtain ys y where y: "ll_elems sl = ys @ [y]" using Suc.hyps(2) by (cases "ll_elems sl" rule: rev_cases) auto
  obtain l1 where l1: "ll_pop_back sl = Some (y, l1)" "ll_invar l1" "ll_elems l1 = ys"
    using linkedlist_ends_and_destroy [OF Suc.prems] y by blast
  obtain ptrs sl' where "pop_all_slots l1 = Some (ptrs, sl')" "ll_invar sl'" "ll_elems sl' = []"
    using Suc.hyps(1) [of l1] Suc.hyps(2) Suc.prems(2) l1 y by auto
  moreover have "\<not> ll_empty sl" using lq.isempty [OF Suc.prems(1)] y by simp
  ultimately show ?case using l1(1) by (simp add: pop_all_slots.simps [of sl])
qed

lemma tab_destroy_returns:
  assumes "tab_invar t"
  shows "\<exists>r. tab_destroy t = Some r"
proof -
  have sl: "ll_invar (tab_slots t)" using assms by (simp add: tab_invar_def)
  have "length (ll_elems (tab_slots t)) < 2 ^ 31 - 1"
    using tab_slots_bound [OF assms] tab_elems_bound [OF assms] by simp
  then obtain ptrs sl' where p: "pop_all_slots (tab_slots t) = Some (ptrs, sl')" "ll_invar sl'" "ll_elems sl' = []"
    using pop_all_slots_returns [OF sl] by blast
  then obtain freed l1 where "ll_destroy sl' = Some (freed, l1)" using linkedlist_ends_and_destroy [OF p(2), of 0] by auto
  then show ?thesis using p(1) by (simp add: tab_destroy_def)
qed

section \<open>Properties\<close>

text \<open>
  Claim C30: adding to a table never disturbs a live entry. The index returned held nothing before
  and holds the object afterwards, every other lookup is unchanged, and on \<open>ENOMEM\<close> the
  table is as before.
\<close>

theorem tab_add_fresh_slot:
  assumes "tab_invar t" "tab_getsize t < 2 ^ 29"
  shows "\<exists>r t'. tab_add ok t x = Some (r, t') \<and> tab_invar t' \<and>
           (case r of
              Inl e \<Rightarrow> e = ENOMEM \<and> \<not> ok \<and> tab_entry t' = tab_entry t
            | Inr i \<Rightarrow> tab_entry t i = None \<and> tab_getguy t' i = Some (Some x) \<and>
                (\<forall>j. j \<noteq> i \<longrightarrow> tab_entry t' j = tab_entry t j))"
proof -
  obtain r t' where t': "tab_add ok t x = Some (r, t')" "tab_invar t'"
      "(\<exists>i. r = Inr i \<and> tab_entry t i = None \<and> tab_entry t' = (tab_entry t)(i := Some x)) \<or>
       r = Inl ENOMEM \<and> \<not> ok \<and> tab_entry t' = tab_entry t"
    using tab.add [OF assms, of ok x] by blast
  show ?thesis
  proof (cases r)
    case (Inl e)
    then show ?thesis using t' by auto
  next
    case (Inr i)
    then have "tab_getguy t' i = Some (Some x)" using tab.add_get(1) [OF assms] t'(1) by blast
    then show ?thesis using t' Inr by auto
  qed
qed

theorem tab_add_fresh_slot_witness:
  "\<exists>t r t'. tab_create True True True = Some (t :: nat ktable) \<and> tab_add False t 5 = Some (r, t') \<and>
     tab_invar t' \<and> (case r of Inl e \<Rightarrow> tab_entry t' = tab_entry t | Inr i \<Rightarrow> tab_getguy t' i = Some (Some 5))"
proof -
  obtain t where t: "tab_create True True True = Some (t :: nat ktable)"
    by (simp add: tab_create_def array_create_def ll_create_def)
  have sz: "tab_getsize t < 2 ^ 29"
    using tab_elems_num [OF tab_create_invar(1) [OF t]] tab_create_invar(2) [OF t] by simp
  obtain r t' where "tab_add False t 5 = Some (r, t')" "tab_invar t'"
      "case r of Inl e \<Rightarrow> e = ENOMEM \<and> \<not> False \<and> tab_entry t' = tab_entry t
       | Inr i \<Rightarrow> tab_entry t i = None \<and> tab_getguy t' i = Some (Some 5) \<and>
           (\<forall>j. j \<noteq> i \<longrightarrow> tab_entry t' j = tab_entry t j)"
    using tab_add_fresh_slot [OF tab_create_invar(1) [OF t] sz, of False 5] by blast
  then show ?thesis using t by (cases r) auto
qed

text \<open>
  \<^verbatim>\<open>tab_duplicate\<close> into a new table copies every entry and every free index when the
  allocations succeed. The adds inside the copy loop, whose results are ignored, cannot fail
  after the preallocation, whatever the allocator does then.
\<close>

lemma tab_duplicate_copies:
  assumes "tab_invar t" "tab_getsize t \<le> 2 ^ 29"
    and "tab_create True True True = Some n_t"
    and "da_array al" "da_list al" "da_copy al = (\<lambda>_. True)" "da_ptr al = (\<lambda>_. True)" "da_node al = (\<lambda>_. True)"
  shows "\<exists>t'. tab_duplicate al t n_t = Some (Inr (), t') \<and> tab_invar t' \<and>
           tab_entry t' = tab_entry t \<and> ll_elems (tab_slots t') = ll_elems (tab_slots t)"
  using tab_duplicate_all [OF assms] by blast

lemma tab_duplicate_copies_witness:
  "\<exists>n_t t'. tab_create True True True = Some n_t \<and>
     tab_duplicate \<lparr>da_array = True, da_add = (\<lambda>_. False), da_list = True, da_copy = (\<lambda>_. True),
         da_ptr = (\<lambda>_. True), da_node = (\<lambda>_. True)\<rparr>
       \<lparr>tab_array = \<lparr>arr_num = 2, arr_max = 2, arr_v = Some [Some (Some (7::nat)), Some None]\<rparr>,
        tab_slots = \<lparr>ll_head = Some 0, ll_tail = Some 0, ll_size = 1,
          ll_nodes = [0 \<mapsto> \<lparr>n_data = 1, n_next = None\<rparr>], ll_brk = 1\<rparr>\<rparr> n_t = Some (Inr (), t') \<and>
     tab_entry t' 0 = Some 7 \<and> ll_elems (tab_slots t') = [1]"
proof -
  let ?al = "\<lparr>da_array = True, da_add = (\<lambda>_. False), da_list = True, da_copy = (\<lambda>_. True),
      da_ptr = (\<lambda>_. True), da_node = (\<lambda>_. True)\<rparr>"
  let ?sl = "\<lparr>ll_head = Some 0, ll_tail = Some 0, ll_size = 1,
      ll_nodes = [0 \<mapsto> \<lparr>n_data = 1, n_next = None\<rparr>], ll_brk = 1\<rparr> :: int linkedlist"
  let ?a = "\<lparr>arr_num = 2, arr_max = 2, arr_v = Some [Some (Some (7::nat)), Some None]\<rparr>"
  let ?t = "\<lparr>tab_array = ?a, tab_slots = ?sl\<rparr>"
  obtain n_t where n_t: "tab_create True True True = Some (n_t :: nat ktable)"
    by (simp add: tab_create_def array_create_def ll_create_def)
  have sl: "ll_invar ?sl" "ll_elems ?sl = [1]"
    by (auto simp: ll_invar_def ll_rep_def ll_elems_def intro!: exI [of _ "[0]"])
  have el: "array_elems ?a = [Some 7, None]" by (simp add: array_elems_def numeral_2_eq_2)
  have "array_invar ?a" by (simp add: array_invar_def array_wf_def array_full_def)
  then have inv: "tab_invar ?t" using sl el by (simp add: tab_invar_def)
  have "tab_getsize ?t \<le> 2 ^ 29" by (simp add: tab_getsize_def array_getnum_def)
  from tab_duplicate_copies [OF inv this n_t, of ?al]
  obtain t' where "tab_duplicate ?al ?t n_t = Some (Inr (), t')" "tab_entry t' = tab_entry ?t"
      "ll_elems (tab_slots t') = ll_elems ?sl"
    by auto
  moreover have "tab_entry ?t 0 = Some 7" using el by (simp add: tab_entry_def)
  ultimately show ?thesis using n_t sl by (intro exI [of _ n_t] exI [of _ t']) simp
qed

end
