(* ===== verification/Kern_Libc.thy ===== *)
theory Kern_Libc
  imports Kern_Prelude
begin

text \<open>
  The memory and string routines of \<^verbatim>\<open>lib/libc\<close> that the kernel shares with user programs:
  block copy and fill on byte-addressed memory, and the string functions on null-terminated
  strings.
\<close>

section \<open>Memory\<close>

text \<open>
  Memory is a function from addresses to bytes. Regions do not roll over the top of memory,
  as the comments in \<^verbatim>\<open>memmove.c\<close> assume; \<^verbatim>\<open>sizeof(long)\<close> is 4.
\<close>

type_synonym mem = "nat \<Rightarrow> 8 word"

text \<open>One assignment \<^verbatim>\<open>*d = *s\<close> of a \<open>u\<close>-byte object: the whole object is read before it is written.\<close>

definition copy_unit :: "nat \<Rightarrow> nat \<Rightarrow> nat \<Rightarrow> mem \<Rightarrow> mem" where
  "copy_unit u d s m = (\<lambda>a. if d \<le> a \<and> a < d + u then m (s + (a - d)) else m a)"

fun loop_up :: "nat \<Rightarrow> nat \<Rightarrow> nat \<Rightarrow> nat \<Rightarrow> nat \<Rightarrow> mem \<Rightarrow> mem" where
  "loop_up u d s i 0 m = m"
| "loop_up u d s i (Suc n) m = loop_up u d s (Suc i) n (copy_unit u (d + u * i) (s + u * i) m)"

fun loop_down :: "nat \<Rightarrow> nat \<Rightarrow> nat \<Rightarrow> nat \<Rightarrow> mem \<Rightarrow> mem" where
  "loop_down u d s 0 m = m"
| "loop_down u d s (Suc i) m = loop_down u d s i (copy_unit u (d + u * i) (s + u * i) m)"

definition memcpy :: "nat \<Rightarrow> nat \<Rightarrow> nat \<Rightarrow> mem \<Rightarrow> mem" where
  "memcpy dst src len m =
     (if dst mod 4 = 0 \<and> src mod 4 = 0 \<and> len mod 4 = 0
      then loop_up 4 dst src 0 (len div 4) m
      else loop_up 1 dst src 0 len m)"

definition memmove :: "nat \<Rightarrow> nat \<Rightarrow> nat \<Rightarrow> mem \<Rightarrow> mem" where
  "memmove dst src len m =
     (if dst < src then memcpy dst src len m
      else if dst mod 4 = 0 \<and> src mod 4 = 0 \<and> len mod 4 = 0
      then loop_down 4 dst src (len div 4) m
      else loop_down 1 dst src len m)"

definition fill_unit :: "nat \<Rightarrow> 8 word \<Rightarrow> nat \<Rightarrow> mem \<Rightarrow> mem" where
  "fill_unit u ch d m = (\<lambda>a. if d \<le> a \<and> a < d + u then ch else m a)"

fun fill_loop :: "nat \<Rightarrow> 8 word \<Rightarrow> nat \<Rightarrow> nat \<Rightarrow> nat \<Rightarrow> mem \<Rightarrow> mem" where
  "fill_loop u ch d i 0 m = m"
| "fill_loop u ch d i (Suc n) m = fill_loop u ch d (Suc i) n (fill_unit u ch (d + u * i) m)"

definition bzero :: "nat \<Rightarrow> nat \<Rightarrow> mem \<Rightarrow> mem" where
  "bzero block len m =
     (if block mod 4 = 0 \<and> len mod 4 = 0 then fill_loop 4 0 block 0 (len div 4) m
      else fill_loop 1 0 block 0 len m)"

definition memset :: "nat \<Rightarrow> 8 word \<Rightarrow> nat \<Rightarrow> mem \<Rightarrow> mem" where
  "memset ptr ch len m = fill_loop 1 ch ptr 0 len m"

section \<open>Strings\<close>

text \<open>A loop over a string that has no terminator does not end.\<close>

partial_function (option) strlen_from :: "mem \<Rightarrow> nat \<Rightarrow> nat \<Rightarrow> nat option" where
  "strlen_from m s ret = (if m (s + ret) \<noteq> 0 then strlen_from m s (ret + 1) else Some ret)"

declare strlen_from.simps [code]

definition strlen :: "mem \<Rightarrow> nat \<Rightarrow> nat option" where
  "strlen m s = strlen_from m s 0"

partial_function (option) strcpy_from :: "nat \<Rightarrow> nat \<Rightarrow> nat \<Rightarrow> mem \<Rightarrow> mem option" where
  "strcpy_from dest src i m =
     (if m (src + i) \<noteq> 0 then strcpy_from dest src (i + 1) (m(dest + i := m (src + i)))
      else Some (m(dest + i := 0)))"

declare strcpy_from.simps [code]

definition strcpy :: "nat \<Rightarrow> nat \<Rightarrow> mem \<Rightarrow> mem option" where
  "strcpy dest src m = strcpy_from dest src 0 m"

definition strcat :: "nat \<Rightarrow> nat \<Rightarrow> mem \<Rightarrow> mem option" where
  "strcat dest src m = do { offset \<leftarrow> strlen m dest; strcpy (dest + offset) src m }"

partial_function (option) strcmp_stop :: "mem \<Rightarrow> nat \<Rightarrow> nat \<Rightarrow> nat \<Rightarrow> nat option" where
  "strcmp_stop m a b i =
     (if m (a + i) \<noteq> 0 \<and> m (a + i) = m (b + i) then strcmp_stop m a b (i + 1) else Some i)"

declare strcmp_stop.simps [code]

definition strcmp :: "mem \<Rightarrow> nat \<Rightarrow> nat \<Rightarrow> int option" where
  "strcmp m a b = do {
     i \<leftarrow> strcmp_stop m a b 0;
     Some (if sint (m (a + i)) > sint (m (b + i)) then 1
           else if m (a + i) = m (b + i) then 0 else -1) }"

partial_function (option) strchr :: "mem \<Rightarrow> nat \<Rightarrow> 8 word \<Rightarrow> nat option option" where
  "strchr m s ch =
     (if m s \<noteq> 0 then if m s = ch then Some (Some s) else strchr m (s + 1) ch
      else if m s = ch then Some (Some s) else Some None)"

declare strchr.simps [code]

fun strrchr_down :: "mem \<Rightarrow> nat \<Rightarrow> 8 word \<Rightarrow> nat \<Rightarrow> nat option" where
  "strrchr_down m s ch 0 = None"
| "strrchr_down m s ch (Suc i) = (if m (s + i) = ch then Some (s + i) else strrchr_down m s ch i)"

definition strrchr :: "mem \<Rightarrow> nat \<Rightarrow> 8 word \<Rightarrow> nat option option" where
  "strrchr m s ch = do { n \<leftarrow> strlen m s; Some (strrchr_down m s ch (n + 1)) }"

text \<open>
  \<^verbatim>\<open>strtok_r\<close>: the word found, the new context and the memory with the separator after the
  word overwritten.
\<close>

partial_function (option) skip_seps :: "mem \<Rightarrow> nat \<Rightarrow> nat \<Rightarrow> nat option" where
  "skip_seps m seps head =
     (if m head = 0 then Some head
      else do { r \<leftarrow> strchr m seps (m head);
                if r \<noteq> None then skip_seps m seps (head + 1) else Some head })"

declare skip_seps.simps [code]

partial_function (option) skip_word :: "mem \<Rightarrow> nat \<Rightarrow> nat \<Rightarrow> nat option" where
  "skip_word m seps tail =
     (if m tail = 0 then Some tail
      else do { r \<leftarrow> strchr m seps (m tail);
                if r = None then skip_word m seps (tail + 1) else Some tail })"

declare skip_word.simps [code]

definition strtok_r :: "nat option \<Rightarrow> nat \<Rightarrow> nat option \<Rightarrow> mem \<Rightarrow> (nat option \<times> nat option \<times> mem) option" where
  "strtok_r str seps context m = do {
     let context1 = (if str \<noteq> None then str else context);
     (case context1 of
        None \<Rightarrow> Some (None, None, m)
      | Some head0 \<Rightarrow> do {
          head \<leftarrow> skip_seps m seps head0;
          if m head = 0 then Some (None, None, m)
          else do {
            tail \<leftarrow> skip_word m seps head;
            if m tail = 0 then Some (Some head, None, m)
            else Some (Some head, Some (tail + 1), m(tail := 0)) } }) }"

text \<open>\<^verbatim>\<open>atoi\<close>; \<^verbatim>\<open>unsigned\<close> arithmetic at 32 bits, the result read as \<^verbatim>\<open>int\<close>.\<close>

partial_function (option) skip_blanks :: "mem \<Rightarrow> nat \<Rightarrow> nat option" where
  "skip_blanks m s = (if m s = 32 \<or> m s = 9 then skip_blanks m (s + 1) else Some s)"

declare skip_blanks.simps [code]

text \<open>\<^verbatim>\<open>strchr(digits, c) - digits\<close> for the constant string of the ten digits.\<close>

definition digit_of :: "8 word \<Rightarrow> 32 word option" where
  "digit_of c = map_option of_nat (first_index ((=) c) [48, 49, 50, 51, 52, 53, 54, 55, 56, 57])"

partial_function (option) atoi_digits :: "mem \<Rightarrow> nat \<Rightarrow> 32 word \<Rightarrow> 32 word option" where
  "atoi_digits m s val =
     (if m s = 0 then Some val
      else case digit_of (m s) of
        None \<Rightarrow> Some val
      | Some digit \<Rightarrow> atoi_digits m (s + 1) (val * 10 + digit))"

declare atoi_digits.simps [code]

definition atoi :: "mem \<Rightarrow> nat \<Rightarrow> int option" where
  "atoi m s0 = do {
     s1 \<leftarrow> skip_blanks m s0;
     let neg = (m s1 = 45);
     let s2 = (if m s1 = 45 \<or> m s1 = 43 then s1 + 1 else s1);
     val \<leftarrow> atoi_digits m s2 0;
     Some (sint (if neg then - val else val)) }"

section \<open>Block copy\<close>

definition moved :: "nat \<Rightarrow> nat \<Rightarrow> nat \<Rightarrow> mem \<Rightarrow> mem" where
  "moved d s n m = (\<lambda>a. if d \<le> a \<and> a < d + n then m (s + (a - d)) else m a)"

lemma loop_up_moved:
  assumes "d \<le> s \<or> s + u * (i + n) \<le> d"
  shows "loop_up u d s i n (moved d s (u * i) m) = moved d s (u * (i + n)) m"
  using assms
proof (induction n arbitrary: i)
  case 0
  then show ?case by simp
next
  case (Suc n)
  have "copy_unit u (d + u * i) (s + u * i) (moved d s (u * i) m) = moved d s (u * Suc i) m"
  proof
    fix a
    show "copy_unit u (d + u * i) (s + u * i) (moved d s (u * i) m) a = moved d s (u * Suc i) m a"
    proof (cases "d + u * i \<le> a \<and> a < d + u * Suc i")
      case True
      then obtain j where j: "a = d + u * i + j" "j < u" using le_Suc_ex by fastforce
      have "u * Suc i \<le> u * (i + Suc n)" by (intro mult_le_mono2) simp
      then have "\<not> (d \<le> s + u * i + j \<and> s + u * i + j < d + u * i)"
        using Suc.prems j(2) unfolding mult_Suc_right by linarith
      then show ?thesis using j by (auto simp: copy_unit_def moved_def add.assoc)
    next
      case False
      then show ?thesis by (auto simp: copy_unit_def moved_def)
    qed
  qed
  moreover have "d \<le> s \<or> s + u * (Suc i + n) \<le> d" using Suc.prems by simp
  ultimately show ?case using Suc.IH [of "Suc i"] by simp
qed

lemma loop_down_moved:
  assumes "s \<le> d"
  shows "loop_down u d s n m = moved d s (u * n) m"
proof -
  have main: "loop_down u d s i (\<lambda>a. if d + u * i \<le> a \<and> a < d + u * n then m (s + (a - d)) else m a)
      = moved d s (u * n) m" if "i \<le> n" for i
    using that
  proof (induction i)
    case 0
    then show ?case by (simp add: moved_def)
  next
    case (Suc i)
    let ?m = "\<lambda>i a. if d + u * i \<le> a \<and> a < d + u * n then m (s + (a - d)) else m a"
    have le: "u * Suc i \<le> u * n" using Suc.prems by (intro mult_le_mono2)
    have "copy_unit u (d + u * i) (s + u * i) (?m (Suc i)) = ?m i"
    proof
      fix a
      show "copy_unit u (d + u * i) (s + u * i) (?m (Suc i)) a = ?m i a"
      proof (cases "d + u * i \<le> a \<and> a < d + u * i + u")
        case True
        then obtain j where j: "a = d + u * i + j" "j < u" using le_Suc_ex by fastforce
        have "\<not> d + u * Suc i \<le> s + u * i + j" "d + u * i + j < d + u * n"
          using assms j(2) le unfolding mult_Suc_right by linarith+
        then show ?thesis using j by (simp add: copy_unit_def add.assoc)
      next
        case False
        then show ?thesis using le by (auto simp: copy_unit_def)
      qed
    qed
    then show ?case using Suc by simp
  qed
  moreover have "(\<lambda>a. if d + u * n \<le> a \<and> a < d + u * n then m (s + (a - d)) else m a) = m"
    by (rule ext) auto
  ultimately show ?thesis using main [of n] by (simp only: order_refl)
qed

lemma memcpy_moved:
  assumes "dst \<le> src \<or> src + len \<le> dst"
  shows "memcpy dst src len m = moved dst src len m"
proof -
  have len: "4 * (len div 4) = len" if "len mod 4 = 0" using that by auto
  have "moved dst src 0 m = m" by (rule ext) (auto simp: moved_def)
  then show ?thesis
    using loop_up_moved [of dst src 4 0 "len div 4" m] loop_up_moved [of dst src 1 0 len m] assms len
    by (auto simp: memcpy_def)
qed

lemma memmove_moved: "memmove dst src len m = moved dst src len m"
proof -
  have len: "4 * (len div 4) = len" if "len mod 4 = 0" using that by auto
  show ?thesis
    using memcpy_moved [of dst src len m] loop_down_moved [of src dst 4 "len div 4" m]
      loop_down_moved [of src dst 1 len m] len
    by (auto simp: memmove_def)
qed

lemma fill_loop_eq:
  "fill_loop u ch d i n m = (\<lambda>a. if d + u * i \<le> a \<and> a < d + u * (i + n) then ch else m a)"
proof (induction n arbitrary: i m)
  case 0
  show ?case by (rule ext) auto
next
  case (Suc n)
  obtain y where y: "u * (i + n) = u * i + y" by (metis distrib_left)
  show ?case
    unfolding fill_loop.simps Suc.IH by (intro ext) (auto simp: fill_unit_def y)
qed

section \<open>Null-terminated strings\<close>

definition cstr :: "mem \<Rightarrow> nat \<Rightarrow> 8 word list \<Rightarrow> bool" where
  "cstr m p xs \<longleftrightarrow> (\<forall>i < length xs. m (p + i) = xs ! i \<and> xs ! i \<noteq> 0) \<and> m (p + length xs) = 0"

lemma cstr_Nil [simp]: "cstr m p [] \<longleftrightarrow> m p = 0"
  by (simp add: cstr_def)

lemma cstr_Cons [simp]: "cstr m p (x # xs) \<longleftrightarrow> m p = x \<and> x \<noteq> 0 \<and> cstr m (Suc p) xs"
proof
  assume l: "cstr m p (x # xs)"
  then have "m (Suc p + i) = xs ! i \<and> xs ! i \<noteq> 0" if "i < length xs" for i
    using that unfolding cstr_def by (metis Suc_less_eq add_Suc_right add_Suc length_Cons nth_Cons_Suc)
  with l show "m p = x \<and> x \<noteq> 0 \<and> cstr m (Suc p) xs" by (fastforce simp: cstr_def)
next
  assume "m p = x \<and> x \<noteq> 0 \<and> cstr m (Suc p) xs"
  then show "cstr m p (x # xs)" by (auto simp: cstr_def less_Suc_eq_0_disj)
qed

lemma cstr_append:
  "cstr m p (xs @ ys) \<longleftrightarrow>
     (\<forall>i < length xs. m (p + i) = xs ! i \<and> xs ! i \<noteq> 0) \<and> cstr m (p + length xs) ys"
  by (induction xs arbitrary: p) (auto simp: less_Suc_eq_0_disj)

lemma cstr_frame:
  "cstr m p xs \<Longrightarrow> (\<And>a. p \<le> a \<Longrightarrow> a \<le> p + length xs \<Longrightarrow> m' a = m a) \<Longrightarrow> cstr m' p xs"
  by (simp add: cstr_def)

lemma cstr_unique: "cstr m p xs \<Longrightarrow> cstr m p ys \<Longrightarrow> xs = ys"
proof (induction xs arbitrary: p ys)
  case Nil
  then show ?case by (cases ys) auto
next
  case (Cons x xs)
  then show ?case by (cases ys) auto
qed

lemma strlen_from_cstr:
  "cstr m (s + k) xs \<Longrightarrow> strlen_from m s k = Some (k + length xs)"
proof (induction xs arbitrary: k)
  case Nil
  then show ?case by (simp add: strlen_from.simps [of m s k])
next
  case (Cons x xs)
  then show ?case using Cons.IH [of "Suc k"] by (simp add: strlen_from.simps [of m s k])
qed

lemma strlen_cstr: "cstr m s xs \<Longrightarrow> strlen m s = Some (length xs)"
  using strlen_from_cstr [of m s 0 xs] by (simp add: strlen_def)

lemma strcpy_from_cstr:
  assumes "cstr m (src + i) xs" "dest \<le> src \<or> src + i + length xs < dest"
  shows "strcpy_from dest src i (moved dest src i m) = Some (moved dest src (Suc (i + length xs)) m)"
  using assms
proof (induction xs arbitrary: i)
  case Nil
  have "moved dest src i m (src + i) = m (src + i)"
    using Nil.prems by (auto simp: moved_def)
  moreover have "(moved dest src i m)(dest + i := 0) = moved dest src (Suc i) m"
    using Nil.prems by (auto simp: moved_def fun_eq_iff less_Suc_eq_le)
  ultimately show ?case using Nil.prems by (simp add: strcpy_from.simps [of dest src i])
next
  case (Cons x xs)
  have src: "moved dest src i m (src + i) = m (src + i)"
    using Cons.prems by (auto simp: moved_def)
  moreover have "(moved dest src i m)(dest + i := m (src + i)) = moved dest src (Suc i) m"
    by (auto simp: moved_def fun_eq_iff less_Suc_eq_le)
  moreover have "strcpy_from dest src (Suc i) (moved dest src (Suc i) m)
      = Some (moved dest src (Suc (Suc i + length xs)) m)"
    by (rule Cons.IH) (use Cons.prems in auto)
  ultimately show ?case using Cons.prems by (simp add: strcpy_from.simps [of dest src i])
qed

lemma strcpy_cstr:
  assumes "cstr m src xs" "dest \<le> src \<or> src + length xs < dest"
  shows "strcpy dest src m = Some (moved dest src (Suc (length xs)) m)"
proof -
  have "moved dest src 0 m = m" by (rule ext) (auto simp: moved_def)
  then show ?thesis using strcpy_from_cstr [of m src 0 xs dest] assms by (simp add: strcpy_def)
qed

lemma strchr_cstr:
  "cstr m s xs \<Longrightarrow>
     strchr m s ch = Some (if ch = 0 then Some (s + length xs)
                           else map_option (\<lambda>i. s + i) (first_index ((=) ch) xs))"
proof (induction xs arbitrary: s)
  case Nil
  then show ?case by (auto simp: strchr.simps [of m s])
next
  case (Cons x xs)
  then show ?case
    by (cases "first_index ((=) ch) xs") (auto simp: strchr.simps [of m s])
qed

lemma strchr_found:
  "cstr m s xs \<Longrightarrow> c \<noteq> 0 \<Longrightarrow> \<exists>r. strchr m s c = Some r \<and> (r \<noteq> None \<longleftrightarrow> c \<in> set xs)"
  using strchr_cstr [of m s xs c] first_index_None_iff [of "(=) c" xs] by auto

lemma strcmp_stop_cstr:
  assumes "cstr m (a + i) xs" "cstr m (b + i) ys"
  shows "\<exists>k. strcmp_stop m a b i = Some k \<and> (m (a + k) = m (b + k) \<longleftrightarrow> xs = ys)"
  using assms
proof (induction xs arbitrary: i ys)
  case Nil
  then show ?case by (cases ys) (auto simp: strcmp_stop.simps [of m a b i])
next
  case (Cons x xs)
  show ?case
  proof (cases "ys \<noteq> [] \<and> hd ys = x")
    case True
    then obtain zs where zs: "ys = x # zs" by (cases ys) auto
    then show ?thesis
      using Cons.IH [of "Suc i" zs] Cons.prems by (simp add: strcmp_stop.simps [of m a b i])
  next
    case False
    then show ?thesis
      using Cons.prems by (cases ys) (auto simp: strcmp_stop.simps [of m a b i])
  qed
qed

lemma strcmp_cstr:
  assumes "cstr m a xs" "cstr m b ys"
  shows "\<exists>r. strcmp m a b = Some r \<and> (r = 0 \<longleftrightarrow> xs = ys)"
  using strcmp_stop_cstr [of m a 0 xs b ys] assms by (auto simp: strcmp_def)

subsection \<open>Tokens and numbers\<close>

lemma skip_seps_cstr:
  assumes "cstr m q zs"
  shows "cstr m p xs \<Longrightarrow> skip_seps m q p = Some (p + length (takeWhile (\<lambda>c. c \<in> set zs) xs))"
proof (induction xs arbitrary: p)
  case Nil
  then show ?case by (simp add: skip_seps.simps [of m q p])
next
  case (Cons x xs)
  obtain r where r: "strchr m q x = Some r" "r \<noteq> None \<longleftrightarrow> x \<in> set zs"
    using strchr_found [OF assms, of x] Cons.prems by auto
  then show ?case using Cons by (cases "x \<in> set zs") (simp_all add: skip_seps.simps [of m q p])
qed

lemma skip_word_cstr:
  assumes "cstr m q zs"
  shows "cstr m p xs \<Longrightarrow> skip_word m q p = Some (p + length (takeWhile (\<lambda>c. c \<notin> set zs) xs))"
proof (induction xs arbitrary: p)
  case Nil
  then show ?case by (simp add: skip_word.simps [of m q p])
next
  case (Cons x xs)
  obtain r where r: "strchr m q x = Some r" "r \<noteq> None \<longleftrightarrow> x \<in> set zs"
    using strchr_found [OF assms, of x] Cons.prems by auto
  then show ?case using Cons by (cases "x \<in> set zs") (simp_all add: skip_word.simps [of m q p])
qed

lemma cstr_drop:
  "cstr m p (xs @ ys) \<Longrightarrow> cstr m (p + length xs) ys"
  by (simp add: cstr_append)

text \<open>Writing the terminator over the character after a word splits the string there.\<close>

lemma cstr_split:
  assumes "cstr m p (xs @ y # ys)"
  shows "cstr (m(p + length xs := 0)) p xs" "cstr (m(p + length xs := 0)) (p + length xs + 1) ys"
proof -
  have "cstr m (Suc (p + length xs)) ys" using assms by (simp add: cstr_append)
  then show "cstr (m(p + length xs := 0)) (p + length xs + 1) ys"
    by (simp add: cstr_def)
  have "\<forall>i < length xs. m (p + i) = xs ! i \<and> xs ! i \<noteq> 0" using assms by (simp add: cstr_append)
  then show "cstr (m(p + length xs := 0)) p xs" by (simp add: cstr_def)
qed

text \<open>The number a list of digit characters denotes.\<close>

definition digits_val :: "nat list \<Rightarrow> nat" where
  "digits_val ds = foldl (\<lambda>v d. v * 10 + d) 0 ds"

definition digit_char :: "nat \<Rightarrow> 8 word" where
  "digit_char d = of_nat (48 + d)"

lemma digit_cases:
  assumes "d < 10" and "\<And>k. k \<in> {0, 1, 2, 3, 4, 5, 6, 7, 8, 9} \<Longrightarrow> P k"
  shows "P (d :: nat)"
proof -
  have "d \<in> {0, 1, 2, 3, 4, 5, 6, 7, 8, 9}" using assms(1) by (simp, arith)
  then show ?thesis by (rule assms(2))
qed

lemma digit_of_char: "d < 10 \<Longrightarrow> digit_of (digit_char d) = Some (of_nat d) \<and> digit_char d \<notin> {0, 9, 32, 43, 45}"
  by (erule digit_cases) (auto simp: digit_of_def digit_char_def)

lemma atoi_digits_cstr:
  assumes "list_all (\<lambda>d. d < 10) ds" "cstr m s (map digit_char ds)"
  shows "atoi_digits m s val = Some (of_nat (foldl (\<lambda>v d. v * 10 + d) (unat val) ds))"
  using assms
proof (induction ds arbitrary: s val)
  case Nil
  then show ?case by (simp add: atoi_digits.simps [of m s])
next
  case (Cons d ds)
  have dc: "digit_of (digit_char d) = Some (of_nat d)" "digit_char d \<noteq> 0"
    using digit_of_char [of d] Cons.prems by auto
  have "atoi_digits m s val = atoi_digits m (s + 1) (val * 10 + of_nat d)"
    using dc Cons.prems by (simp add: atoi_digits.simps [of m s])
  also have "\<dots> = Some (of_nat (foldl (\<lambda>v d. v * 10 + d) (unat (val * 10 + of_nat d)) ds))"
    by (rule Cons.IH) (use Cons.prems in simp_all)
  also have "(of_nat (foldl (\<lambda>v d. v * 10 + d) (unat (val * 10 + of_nat d)) ds) :: 32 word)
      = of_nat (foldl (\<lambda>v d. v * 10 + d) (unat val * 10 + d) ds)"
  proof -
    have "(of_nat (foldl (\<lambda>v d. v * 10 + d) a ds) :: 32 word) = of_nat (foldl (\<lambda>v d. v * 10 + d) b ds)"
      if "(of_nat a :: 32 word) = of_nat b" for a b
      using that by (induction ds arbitrary: a b) simp_all
    then show ?thesis by simp
  qed
  finally show ?case by simp
qed

lemma sint_of_int_32: "- (2 ^ 31) \<le> k \<Longrightarrow> k < 2 ^ 31 \<Longrightarrow> sint (of_int k :: 32 word) = k"
  by (simp add: signed_of_int signed_take_bit_int_eq_self)

lemma sint_of_nat_32:
  assumes "n < 2 ^ 31"
  shows "sint (of_nat n :: 32 word) = int n" "sint (- of_nat n :: 32 word) = - int n"
  using sint_of_int_32 [of "int n"] sint_of_int_32 [of "- int n"] assms by simp_all

lemma skip_blanks_cstr:
  assumes "list_all (\<lambda>c. c = 32 \<or> c = 9) bs" "cstr m s (bs @ xs)" "xs \<noteq> []" "hd xs \<notin> {32, 9}"
  shows "skip_blanks m s = Some (s + length bs)"
  using assms
proof (induction bs arbitrary: s)
  case Nil
  then show ?case by (cases xs) (auto simp: skip_blanks.simps [of m s])
next
  case (Cons b bs)
  then show ?case by (auto simp: skip_blanks.simps [of m s])
qed

section \<open>Properties\<close>

text \<open>
  Claim C23: \<^verbatim>\<open>memmove\<close> moves a block correctly whether or not the regions overlap and whichever
  of its four loops it takes (bytes or words, upwards or downwards): every destination byte is
  the original source byte and every other byte is unchanged.
\<close>

theorem memmove_correct:
  "memmove dst src len m =
     (\<lambda>a. if dst \<le> a \<and> a < dst + len then m (src + (a - dst)) else m a)"
  using memmove_moved by (simp add: moved_def)

text \<open>
  \<^verbatim>\<open>strcat\<close> builds the concatenation of two strings in place, provided the destination area
  does not run into the source, and changes nothing outside that area.
\<close>

lemma strcat_concatenates:
  assumes "cstr m dest xs" "cstr m src ys"
    and "dest + length xs + length ys < src \<or> src + length ys < dest"
  shows "\<exists>m'. strcat dest src m = Some m' \<and> cstr m' dest (xs @ ys) \<and> cstr m' src ys \<and>
           (\<forall>a. \<not> (dest + length xs \<le> a \<and> a \<le> dest + length xs + length ys) \<longrightarrow> m' a = m a)"
proof -
  let ?d = "dest + length xs"
  let ?m = "moved ?d src (Suc (length ys)) m"
  have "strcat dest src m = Some ?m"
    using strlen_cstr [OF assms(1)] strcpy_cstr [OF assms(2), of ?d] assms(3) by (auto simp: strcat_def)
  note cat = this
  have "cstr ?m ?d ys"
    using assms(2) by (simp add: cstr_def moved_def)
  moreover have "\<forall>i < length xs. ?m (dest + i) = xs ! i \<and> xs ! i \<noteq> 0"
    using assms(1) by (simp add: cstr_def moved_def)
  ultimately have "cstr ?m dest (xs @ ys)" by (simp add: cstr_append)
  note str = this
  have "cstr ?m src ys"
    using assms(2,3) by (auto intro!: cstr_frame [OF assms(2)] simp: moved_def)
  moreover have "\<forall>a. \<not> (?d \<le> a \<and> a \<le> ?d + length ys) \<longrightarrow> ?m a = m a"
    by (auto simp: moved_def)
  ultimately show ?thesis using cat str by blast
qed

lemma strcat_concatenates_witness:
  "\<exists>m'. strcat 0 10 ((\<lambda>_. 0)(0 := 97, 10 := 98)) = Some m' \<and> cstr m' 0 [97, 98]"
  using strcat_concatenates [of "(\<lambda>_. 0)(0 := 97, 10 := 98)" 0 "[97]" 10 "[98]"] by auto

text \<open>
  \<^verbatim>\<open>strtok_r\<close> returns the first word of the remaining string, that is, the longest run of
  non-separators after the leading separators, as a terminated string, and leaves as context exactly
  what follows the separator behind it; it returns the null pointer when only separators are left.
\<close>

lemma strtok_r_first_word:
  assumes "cstr m p xs" "cstr m q zs" "q + length zs < p \<or> p + length xs < q"
  defines "ws \<equiv> dropWhile (\<lambda>c. c \<in> set zs) xs"
  defines "word \<equiv> takeWhile (\<lambda>c. c \<notin> set zs) ws"
  defines "rest \<equiv> dropWhile (\<lambda>c. c \<notin> set zs) ws"
  shows "if ws = [] then strtok_r (Some p) q ctx m = Some (None, None, m)
         else \<exists>head ctx' m'. strtok_r (Some p) q ctx m = Some (Some head, ctx', m') \<and>
           cstr m' head word \<and> cstr m' q zs \<and>
           (case rest of [] \<Rightarrow> ctx' = None \<and> m' = m
            | c # cs \<Rightarrow> (\<exists>t. ctx' = Some t \<and> cstr m' t cs))"
proof -
  let ?sep = "takeWhile (\<lambda>c. c \<in> set zs) xs"
  have xs: "xs = ?sep @ ws" by (simp add: ws_def)
  have ws: "ws = word @ rest" by (simp add: word_def rest_def)
  let ?h = "p + length ?sep"
  have h: "skip_seps m q p = Some ?h" by (rule skip_seps_cstr [OF assms(2,1)])
  have cw: "cstr m ?h ws" using assms(1) by (subst (asm) xs) (rule cstr_drop)
  show ?thesis
  proof (cases "ws = []")
    case True
    then show ?thesis using h cw by (simp add: strtok_r_def)
  next
    case False
    then have nz: "m ?h \<noteq> 0" using cw by (cases ws) auto
    let ?t = "?h + length word"
    have t: "skip_word m q ?h = Some ?t"
      using skip_word_cstr [OF assms(2) cw] by (simp add: word_def)
    show ?thesis
    proof (cases rest)
      case Nil
      then have "m ?t = 0" "cstr m ?h word" using cw ws by (simp_all add: cstr_def)
      then show ?thesis using False h nz t Nil assms(2) by (simp add: strtok_r_def)
    next
      case (Cons c cs)
      then have cw': "cstr m ?h (word @ c # cs)" using cw ws by simp
      then have mt: "m ?t \<noteq> 0" by (simp add: cstr_append)
      have len: "?t < p + length xs" using arg_cong [OF xs, of length] ws Cons by simp
      have "cstr (m(?t := 0)) q zs"
        using assms(3) len by (intro cstr_frame [OF assms(2)]) auto
      then show ?thesis
        using False h nz t mt Cons cstr_split [OF cw'] by (simp add: strtok_r_def)
    qed
  qed
qed

lemma strtok_r_first_word_witness:
  "\<exists>head ctx' m'. strtok_r (Some 10) 0 None ((\<lambda>_. 0)(0 := 32, 10 := 32, 11 := 97, 12 := 32, 13 := 98))
      = Some (Some head, ctx', m') \<and> cstr m' head [97]"
  using strtok_r_first_word [of "(\<lambda>_. 0)(0 := 32, 10 := 32, 11 := 97, 12 := 32, 13 := 98)" 10
      "[32, 97, 32, 98]" 0 "[32]" None]
  by auto

text \<open>
  \<^verbatim>\<open>atoi\<close> reads optional blanks, an optional sign and a run of digits as the number
  they denote, at 32 bits.
\<close>

lemma atoi_reads_number:
  assumes "list_all (\<lambda>c. c = 32 \<or> c = 9) bs" "sg \<in> {[], [43], [45]}"
    and "ds \<noteq> []" "list_all (\<lambda>d. d < 10) ds" "cstr m s (bs @ sg @ map digit_char ds)"
    and "digits_val ds < 2 ^ 31"
  shows "atoi m s = Some (if sg = [45] then - int (digits_val ds) else int (digits_val ds))"
proof -
  obtain d es where ds: "ds = d # es" using assms(3) by (cases ds) auto
  have dc: "digit_char d \<notin> {0, 9, 32, 43, 45}" using digit_of_char [of d] assms(4) ds by auto
  have "skip_blanks m s = Some (s + length bs)"
    by (rule skip_blanks_cstr [OF assms(1,5)]) (use assms(2) dc ds in auto)
  moreover have c2: "cstr m (s + length bs) (sg @ map digit_char ds)"
    using assms(5) by (rule cstr_drop)
  moreover have dv: "atoi_digits m t 0 = Some (of_nat (digits_val ds))" if "cstr m t (map digit_char ds)" for t
    using atoi_digits_cstr [OF assms(4) that, of 0] by (simp add: digits_val_def)
  moreover have "sint (of_nat (digits_val ds) :: 32 word) = int (digits_val ds)"
      "sint (- of_nat (digits_val ds) :: 32 word) = - int (digits_val ds)"
    using sint_of_nat_32 [OF assms(6)] by simp_all
  ultimately show ?thesis
    using assms(2) dc ds by (auto simp: atoi_def)
qed

lemma atoi_reads_number_witness:
  "atoi ((\<lambda>_. 0)(5 := 32, 6 := 45, 7 := digit_char 4, 8 := digit_char 2)) 5 = Some (- 42)"
proof -
  have "digit_char 4 \<noteq> 0" "digit_char 2 \<noteq> 0" using digit_of_char [of 4] digit_of_char [of 2] by auto
  then show ?thesis
    using atoi_reads_number [of "[32]" "[45]" "[4, 2]"
        "(\<lambda>_. 0)(5 := 32, 6 := 45, 7 := digit_char 4, 8 := digit_char 2)" 5]
    by (simp add: digits_val_def)
qed

end
