(* ===== verification/Kern_Uio.thy ===== *)
theory Kern_Uio
  imports Kern_Prelude
begin

text \<open>
  Moving data between the kernel and user space: \<^verbatim>\<open>kern/lib/copyinout.c\<close> and
  \<^verbatim>\<open>kern/userprog/uio.c\<close>.
\<close>

section \<open>User memory as the kernel sees it\<close>

text \<open>
  \<open>us_readable\<close> and \<open>us_writable\<close> say which addresses can be accessed without a fatal fault, once the
  fault handler has done what it can. \<open>us_badfault\<close> is whether \<^verbatim>\<open>pcb_badfaultfunc\<close> is set: a fatal
  fault then resumes in \<^verbatim>\<open>copyfail\<close>, otherwise it stops the kernel.
\<close>

record uspace =
  us_bytes :: "32 word \<Rightarrow> 8 word"
  us_readable :: "32 word \<Rightarrow> bool"
  us_writable :: "32 word \<Rightarrow> bool"
  us_badfault :: bool

definition USERTOP :: "32 word" where
  "USERTOP = 0x80000000"

definition copycheck :: "32 word \<Rightarrow> 32 word \<Rightarrow> errno + 32 word" where
  "copycheck userptr len =
     (let bot = userptr; top = bot + len - 1 in
      if top < bot then Inl EFAULT
      else if bot \<ge> USERTOP then Inl EFAULT
      else if top \<ge> USERTOP then Inr (USERTOP - bot)
      else Inr len)"

text \<open>
  The two directions of the protected \<^verbatim>\<open>memcpy\<close>. The boolean is false when a fault went through
  \<^verbatim>\<open>copyfail\<close> and \<^verbatim>\<open>longjmp\<close>.
\<close>

fun fetch_bytes :: "uspace \<Rightarrow> 32 word \<Rightarrow> nat \<Rightarrow> nat \<Rightarrow> 8 word list \<Rightarrow> (bool \<times> 8 word list) option" where
  "fetch_bytes u a i 0 dest = Some (True, dest)"
| "fetch_bytes u a i (Suc n) dest =
     (if us_readable u (a + of_nat i)
      then do { dest' \<leftarrow> set_cell dest (int i) (us_bytes u (a + of_nat i)); fetch_bytes u a (Suc i) n dest' }
      else if us_badfault u then Some (False, dest) else None)"

fun store_bytes :: "uspace \<Rightarrow> 32 word \<Rightarrow> nat \<Rightarrow> nat \<Rightarrow> 8 word list \<Rightarrow> (bool \<times> uspace) option" where
  "store_bytes u a i 0 src = Some (True, u)"
| "store_bytes u a i (Suc n) src = do {
     x \<leftarrow> cell src (int i);
     if us_writable u (a + of_nat i)
     then store_bytes (u\<lparr>us_bytes := (us_bytes u)(a + of_nat i := x)\<rparr>) a (Suc i) n src
     else if us_badfault u then Some (False, u) else None }"

definition copyin :: "uspace \<Rightarrow> 32 word \<Rightarrow> 8 word list \<Rightarrow> 32 word \<Rightarrow> ((errno + unit) \<times> 8 word list \<times> uspace) option" where
  "copyin u usersrc dest len = (case copycheck usersrc len of
     Inl e \<Rightarrow> Some (Inl e, dest, u)
   | Inr stoplen \<Rightarrow>
       if stoplen \<noteq> len then Some (Inl EFAULT, dest, u)
       else do {
         let u1 = u\<lparr>us_badfault := True\<rparr>;
         (fine, dest') \<leftarrow> fetch_bytes u1 usersrc 0 (unat len) dest;
         let u2 = u1\<lparr>us_badfault := False\<rparr>;
         Some (if fine then Inr () else Inl EFAULT, dest', u2) })"

definition copyout :: "uspace \<Rightarrow> 8 word list \<Rightarrow> 32 word \<Rightarrow> 32 word \<Rightarrow> ((errno + unit) \<times> uspace) option" where
  "copyout u src userdest len = (case copycheck userdest len of
     Inl e \<Rightarrow> Some (Inl e, u)
   | Inr stoplen \<Rightarrow>
       if stoplen \<noteq> len then Some (Inl EFAULT, u)
       else do {
         let u1 = u\<lparr>us_badfault := True\<rparr>;
         (fine, u2) \<leftarrow> store_bytes u1 userdest 0 (unat len) src;
         let u3 = u2\<lparr>us_badfault := False\<rparr>;
         Some (if fine then Inr () else Inl EFAULT, u3) })"

text \<open>
  \<^verbatim>\<open>copystr\<close>, over the two ways its pointers are used. \<open>rd\<close> and \<open>wr\<close> access element \<open>i\<close> of the
  source and the destination; an inner \<open>None\<close> is a fault that ends the copy with \<open>EFAULT\<close>.
\<close>

function copystr ::
    "(nat \<Rightarrow> 's \<Rightarrow> 8 word option option) \<Rightarrow> (nat \<Rightarrow> 8 word \<Rightarrow> 's \<Rightarrow> 's option option) \<Rightarrow>
     nat \<Rightarrow> nat \<Rightarrow> nat \<Rightarrow> 's \<Rightarrow> ((errno + nat) \<times> 's) option" where
  "copystr rd wr maxlen stoplen i st =
     (if i < maxlen \<and> i < stoplen then do {
        c \<leftarrow> rd i st;
        (case c of
           None \<Rightarrow> Some (Inl EFAULT, st)
         | Some x \<Rightarrow> do {
             w \<leftarrow> wr i x st;
             (case w of
                None \<Rightarrow> Some (Inl EFAULT, st)
              | Some st' \<Rightarrow>
                  if x = 0 then Some (Inr (i + 1), st')
                  else copystr rd wr maxlen stoplen (i + 1) st') }) }
      else if stoplen < maxlen then Some (Inl EFAULT, st)
      else Some (Inl ENAMETOOLONG, st))"
  by pat_completeness auto
termination by (relation "measure (\<lambda>(rd, wr, maxlen, stoplen, i, st). maxlen - i)") auto

declare copystr.simps [simp del]

definition user_read :: "uspace \<Rightarrow> 32 word \<Rightarrow> nat \<Rightarrow> 8 word option" where
  "user_read u a i = (if us_readable u (a + of_nat i) then Some (us_bytes u (a + of_nat i)) else None)"

definition user_write :: "32 word \<Rightarrow> nat \<Rightarrow> 8 word \<Rightarrow> uspace \<Rightarrow> uspace option" where
  "user_write a i x u =
     (if us_writable u (a + of_nat i) then Some (u\<lparr>us_bytes := (us_bytes u)(a + of_nat i := x)\<rparr>) else None)"

definition copyinstr :: "uspace \<Rightarrow> 32 word \<Rightarrow> 8 word list \<Rightarrow> 32 word \<Rightarrow> ((errno + nat) \<times> 8 word list \<times> uspace) option" where
  "copyinstr u usersrc dest len = (case copycheck usersrc len of
     Inl e \<Rightarrow> Some (Inl e, dest, u)
   | Inr stoplen \<Rightarrow> do {
       let u1 = u\<lparr>us_badfault := True\<rparr>;
       (result, dest') \<leftarrow>
         copystr (\<lambda>i d. Some (user_read u1 usersrc i)) (\<lambda>i x d. map_option Some (set_cell d (int i) x))
           (unat len) (unat stoplen) 0 dest;
       Some (result, dest', u1\<lparr>us_badfault := False\<rparr>) })"

definition copyoutstr :: "uspace \<Rightarrow> 8 word list \<Rightarrow> 32 word \<Rightarrow> 32 word \<Rightarrow> ((errno + nat) \<times> uspace) option" where
  "copyoutstr u src userdest len = (case copycheck userdest len of
     Inl e \<Rightarrow> Some (Inl e, u)
   | Inr stoplen \<Rightarrow> do {
       let u1 = u\<lparr>us_badfault := True\<rparr>;
       (result, u2) \<leftarrow>
         copystr (\<lambda>i s. map_option Some (cell src (int i))) (\<lambda>i x s. Some (user_write userdest i x s))
           (unat len) (unat stoplen) 0 u1;
       Some (result, u2\<lparr>us_badfault := False\<rparr>) })"

section \<open>The uio structure\<close>

datatype uio_rw = UIO_READ | UIO_WRITE

datatype uio_seg = UIO_USERSPACE | UIO_SYSSPACE | UIO_USERISPACE

text \<open>
  \<^verbatim>\<open>struct uio\<close>. The kernel base is a position in the kernel object the transfer is about; an
  address space is an identifier, \<open>None\<close> the null pointer.
\<close>

record uio =
  iov_kbase :: nat
  iov_ubase :: "32 word"
  iov_len :: nat
  uio_offset :: int
  uio_resid :: nat
  uio_segflg :: uio_seg
  uio_rw :: uio_rw
  uio_space :: "nat option"

text \<open>The memory a transfer works on: the caller's buffer, the kernel object behind
  \<^verbatim>\<open>iov_kbase\<close>, and user memory.\<close>

record xfer =
  x_buf :: "8 word list"
  x_kobj :: "8 word list"
  x_user :: uspace

text \<open>\<^verbatim>\<open>memmove\<close> between two kernel objects.\<close>

definition blit :: "'a list \<Rightarrow> nat \<Rightarrow> 'a list \<Rightarrow> nat \<Rightarrow> nat \<Rightarrow> 'a list option" where
  "blit src spos dst dpos n =
     (if spos + n \<le> length src \<and> dpos + n \<le> length dst
      then Some (take dpos dst @ take n (drop spos src) @ drop (dpos + n) dst) else None)"

text \<open>One round of the loop of \<^verbatim>\<open>uiomove\<close>; \<open>pos\<close> is how far \<^verbatim>\<open>ptr\<close> has advanced.\<close>

definition uiomove_chunk :: "nat \<Rightarrow> nat \<Rightarrow> uio \<Rightarrow> xfer \<Rightarrow> ((errno + unit) \<times> uio \<times> xfer) option" where
  "uiomove_chunk pos sz u x =
     (if uio_segflg u = UIO_SYSSPACE then
        if uio_rw u = UIO_READ then do {
          k \<leftarrow> blit (x_buf x) pos (x_kobj x) (iov_kbase u) sz;
          Some (Inr (), u\<lparr>iov_kbase := iov_kbase u + sz\<rparr>, x\<lparr>x_kobj := k\<rparr>) }
        else do {
          b \<leftarrow> blit (x_kobj x) (iov_kbase u) (x_buf x) pos sz;
          Some (Inr (), u\<lparr>iov_kbase := iov_kbase u + sz\<rparr>, x\<lparr>x_buf := b\<rparr>) }
      else if uio_rw u = UIO_READ then do {
        (r, us) \<leftarrow> copyout (x_user x) (drop pos (x_buf x)) (iov_ubase u) (of_nat sz);
        Some (r, (if r = Inr () then u\<lparr>iov_ubase := iov_ubase u + of_nat sz\<rparr> else u), x\<lparr>x_user := us\<rparr>) }
      else do {
        (r, d, us) \<leftarrow> copyin (x_user x) (iov_ubase u) (drop pos (x_buf x)) (of_nat sz);
        Some (r, (if r = Inr () then u\<lparr>iov_ubase := iov_ubase u + of_nat sz\<rparr> else u),
              x\<lparr>x_user := us, x_buf := take pos (x_buf x) @ d\<rparr>) })"

function uiomove_loop :: "nat \<Rightarrow> nat \<Rightarrow> uio \<Rightarrow> xfer \<Rightarrow> ((errno + unit) \<times> uio \<times> xfer) option" where
  "uiomove_loop pos n u x =
     (if n > 0 \<and> uio_resid u > 0 then
        let sz = min (iov_len u) n in
        if sz = 0 then None
        else (case uiomove_chunk pos sz u x of
            None \<Rightarrow> None
          | Some (Inl e, u', x') \<Rightarrow> Some (Inl e, u', x')
          | Some (Inr _, u', x') \<Rightarrow>
              uiomove_loop (pos + sz) (n - sz)
                (u'\<lparr>iov_len := iov_len u - sz, uio_resid := uio_resid u - sz,
                    uio_offset := c_int (uio_offset u + int sz)\<rparr>) x')
      else Some (Inr (), u, x))"
  by pat_completeness auto
termination by (relation "measure (\<lambda>(pos, n, u, x). n)") auto

declare uiomove_loop.simps [simp del]

text \<open>\<open>curspace\<close> is \<^verbatim>\<open>curthread->t_vmspace\<close>.\<close>

definition uiomove :: "nat option \<Rightarrow> nat \<Rightarrow> uio \<Rightarrow> xfer \<Rightarrow> ((errno + unit) \<times> uio \<times> xfer) option" where
  "uiomove curspace n u x = do {
     kassert (if uio_segflg u = UIO_SYSSPACE then uio_space u = None else uio_space u = curspace);
     uiomove_loop 0 n u x }"

function uiomovezeros_loop :: "nat option \<Rightarrow> nat \<Rightarrow> uio \<Rightarrow> xfer \<Rightarrow> ((errno + unit) \<times> uio \<times> xfer) option" where
  "uiomovezeros_loop curspace n u x =
     (if n > 0 then
        let amt = min 16 n in
        (case uiomove curspace amt u (x\<lparr>x_buf := replicate 16 0\<rparr>) of
           None \<Rightarrow> None
         | Some (Inl e, u', x') \<Rightarrow> Some (Inl e, u', x')
         | Some (Inr _, u', x') \<Rightarrow> uiomovezeros_loop curspace (n - amt) u' x')
      else Some (Inr (), u, x))"
  by pat_completeness auto
termination by (relation "measure (\<lambda>(c, n, u, x). n)") auto

declare uiomovezeros_loop.simps [simp del]

definition uiomovezeros :: "nat option \<Rightarrow> nat \<Rightarrow> uio \<Rightarrow> xfer \<Rightarrow> ((errno + unit) \<times> uio \<times> xfer) option" where
  "uiomovezeros curspace n u x = do {
     kassert (uio_rw u = UIO_READ);
     uiomovezeros_loop curspace n u x }"

definition mk_kuio :: "nat \<Rightarrow> nat \<Rightarrow> int \<Rightarrow> uio_rw \<Rightarrow> uio \<Rightarrow> uio" where
  "mk_kuio kbuf len pos rw u =
     u\<lparr>iov_kbase := kbuf, iov_len := len, uio_offset := pos, uio_resid := len,
       uio_segflg := UIO_SYSSPACE, uio_rw := rw, uio_space := None\<rparr>"

section \<open>The region check\<close>

lemma USERTOP_le: "USERTOP \<le> x \<longleftrightarrow> 2 ^ 31 \<le> unat x"
  by (simp add: USERTOP_def word_le_nat_alt)

lemma top_unat:
  assumes "len \<noteq> 0" "(p :: 32 word) \<le> p + len - 1"
  shows "unat (p + len - 1) = unat p + unat len - 1"
proof -
  have "p \<le> p + (len - 1)" using assms(2) by (simp add: algebra_simps)
  then have "unat (p + (len - 1)) = unat p + unat (len - 1)" by (simp only: unat_plus_simple)
  moreover have "unat (len - 1) = unat len - 1" using assms(1) by (rule unat_minus_one)
  moreover have "0 < unat len" using assms(1) by (simp add: unat_gt_0)
  ultimately show ?thesis by (simp add: algebra_simps)
qed

lemma copycheck_stop:
  assumes "copycheck p len = Inr stop"
  shows "unat p + unat stop \<le> 2 ^ 31"
proof -
  let ?top = "p + len - 1"
  have p: "p \<le> ?top" "\<not> USERTOP \<le> p" and stop: "stop = (if USERTOP \<le> ?top then USERTOP - p else len)"
    using assms by (auto simp: copycheck_def Let_def not_less split: if_splits)
  have pb: "unat p < 2 ^ 31" using p(2) by (simp add: USERTOP_le)
  show ?thesis
  proof (cases "USERTOP \<le> ?top")
    case True
    have "unat (USERTOP - p) = unat USERTOP - unat p"
      by (rule unat_sub) (use p(2) in auto)
    then show ?thesis using True stop pb by (simp add: USERTOP_def)
  next
    case False
    then have tb: "unat ?top < 2 ^ 31" by (simp add: USERTOP_le)
    show ?thesis
    proof (cases "len = 0")
      case True
      then show ?thesis using False stop pb by simp
    next
      case nz: False
      then show ?thesis using top_unat [OF nz p(1)] tb False stop by simp
    qed
  qed
qed

lemma copycheck_exact:
  "copycheck p len = Inr len \<longleftrightarrow> len \<noteq> 0 \<and> unat p + unat len \<le> 2 ^ 31"
proof
  assume eq: "copycheck p len = Inr len"
  have "len \<noteq> 0"
  proof
    assume z: "len = 0"
    show False
    proof (cases "p = 0")
      case True
      then show False using eq z by (simp add: copycheck_def USERTOP_def)
    next
      case False
      then have "p - 1 < p" by (simp add: word_less_nat_alt unat_minus_one unat_gt_0)
      then show False using eq z by (simp add: copycheck_def Let_def)
    qed
  qed
  then show "len \<noteq> 0 \<and> unat p + unat len \<le> 2 ^ 31" using copycheck_stop [OF eq] by simp
next
  assume a: "len \<noteq> 0 \<and> unat p + unat len \<le> 2 ^ 31"
  then have l: "0 < unat len" by (simp add: unat_gt_0)
  have "unat (p + (len - 1)) = unat p + unat (len - 1)"
    using a l by (intro unat_add_32) (auto simp: unat_minus_one)
  then have t: "unat (p + len - 1) = unat p + (unat len - 1)"
    using a by (simp add: unat_minus_one algebra_simps)
  then have "\<not> p + len - 1 < p" by (simp add: word_less_nat_alt)
  moreover have "\<not> USERTOP \<le> p" "\<not> USERTOP \<le> p + len - 1" using a l t by (auto simp: USERTOP_le)
  ultimately show "copycheck p len = Inr len" by (simp add: copycheck_def Let_def)
qed

lemma user_offset:
  assumes "unat (p :: 32 word) + n \<le> 2 ^ 31" "k < n"
  shows "unat (p + of_nat k) = unat p + k" "\<not> USERTOP \<le> p + of_nat k"
proof -
  have k: "unat (of_nat k :: 32 word) = k" using assms by (intro unat_of_nat_32) simp
  then show "unat (p + of_nat k) = unat p + k" using assms unat_add_32 [of p "of_nat k"] by simp
  then show "\<not> USERTOP \<le> p + of_nat k" using assms by (simp add: USERTOP_le)
qed

section \<open>The copies\<close>

lemma fetch_bytes_readable:
  assumes "\<forall>k. i \<le> k \<and> k < i + n \<longrightarrow> us_readable u (a + of_nat k)" "i + n \<le> length dest"
  shows "fetch_bytes u a i n dest =
     Some (True, take i dest @ map (\<lambda>k. us_bytes u (a + of_nat k)) [i..<i + n] @ drop (i + n) dest)"
  using assms
proof (induction n arbitrary: i dest)
  case 0
  then show ?case by simp
next
  case (Suc n)
  let ?x = "us_bytes u (a + of_nat i)"
  let ?d = "dest[i := ?x]"
  have "fetch_bytes u a i (Suc n) dest = fetch_bytes u a (Suc i) n ?d"
    using Suc.prems by simp
  also have "\<dots> = Some (True, take (Suc i) ?d @ map (\<lambda>k. us_bytes u (a + of_nat k)) [Suc i..<Suc i + n]
      @ drop (Suc i + n) ?d)"
    by (rule Suc.IH) (use Suc.prems in auto)
  also have "take (Suc i) ?d = take i dest @ [?x]"
    using Suc.prems(2) by (simp add: take_Suc_conv_app_nth)
  also have "drop (Suc i + n) ?d = drop (i + Suc n) dest" by simp
  finally show ?case by (simp add: upt_conv_Cons [of i "Suc (i + n)"] del: upt_Suc)
qed

lemma fetch_bytes_unreadable:
  assumes "us_badfault u" "\<exists>k. i \<le> k \<and> k < i + n \<and> \<not> us_readable u (a + of_nat k)" "i + n \<le> length dest"
  shows "\<exists>d. fetch_bytes u a i n dest = Some (False, d)"
  using assms
proof (induction n arbitrary: i dest)
  case 0
  then show ?case by auto
next
  case (Suc n)
  show ?case
  proof (cases "us_readable u (a + of_nat i)")
    case True
    then have "\<exists>k. Suc i \<le> k \<and> k < Suc i + n \<and> \<not> us_readable u (a + of_nat k)"
      using Suc.prems(2) by (metis Suc_leI add_Suc_right add_Suc le_neq_implies_less)
    then show ?thesis using Suc.IH [of "Suc i" "dest[i := us_bytes u (a + of_nat i)]"] Suc.prems True by simp
  next
    case False
    then show ?thesis using Suc.prems(1) by simp
  qed
qed

lemma store_bytes_frame:
  assumes "store_bytes u a i n src = Some (fine, u')"
  shows "\<forall>b. (\<forall>k. i \<le> k \<and> k < i + n \<longrightarrow> b \<noteq> a + of_nat k) \<longrightarrow> us_bytes u' b = us_bytes u b"
    and "us_readable u' = us_readable u \<and> us_writable u' = us_writable u"
  using assms
proof (induction n arbitrary: i u)
  case (Suc n)
  { case 1
    then obtain x where x: "cell src (int i) = Some x" by (cases "cell src (int i)") auto
    show ?case
    proof (cases "us_writable u (a + of_nat i)")
      case True
      then have "store_bytes (u\<lparr>us_bytes := (us_bytes u)(a + of_nat i := x)\<rparr>) a (Suc i) n src = Some (fine, u')"
        using 1 x by simp
      from Suc.IH(1) [OF this] show ?thesis by simp
    next
      case False
      then show ?thesis using 1 x by (auto split: if_splits)
    qed
  next
    case 2
    then obtain x where x: "cell src (int i) = Some x" by (cases "cell src (int i)") auto
    show ?case
    proof (cases "us_writable u (a + of_nat i)")
      case True
      then have "store_bytes (u\<lparr>us_bytes := (us_bytes u)(a + of_nat i := x)\<rparr>) a (Suc i) n src = Some (fine, u')"
        using 2 x by simp
      from Suc.IH(2) [OF this] show ?thesis by simp
    next
      case False
      then show ?thesis using 2 x by (auto split: if_splits)
    qed }
qed auto

lemma store_bytes_writable:
  assumes "\<forall>k. i \<le> k \<and> k < i + n \<longrightarrow> us_writable u (a + of_nat k)" "i + n \<le> length src"
    and "unat a + (i + n) \<le> 2 ^ 31"
  shows "\<exists>u'. store_bytes u a i n src = Some (True, u') \<and>
     (\<forall>k. i \<le> k \<and> k < i + n \<longrightarrow> us_bytes u' (a + of_nat k) = src ! k)"
  using assms
proof (induction n arbitrary: i u)
  case 0
  then show ?case by auto
next
  case (Suc n)
  let ?u = "u\<lparr>us_bytes := (us_bytes u)(a + of_nat i := src ! i)\<rparr>"
  obtain u' where u': "store_bytes ?u a (Suc i) n src = Some (True, u')"
      "\<forall>k. Suc i \<le> k \<and> k < Suc i + n \<longrightarrow> us_bytes u' (a + of_nat k) = src ! k"
    using Suc.IH [of "Suc i" ?u] Suc.prems by auto
  have "a + of_nat i \<noteq> a + of_nat k" if "Suc i \<le> k \<and> k < Suc i + n" for k
    using that user_offset(1) [OF Suc.prems(3), of k] user_offset(1) [OF Suc.prems(3), of i] by force
  then have "us_bytes u' (a + of_nat i) = src ! i"
    using store_bytes_frame(1) [OF u'(1)] by simp
  moreover have "store_bytes u a i (Suc n) src = Some (True, u')"
    using Suc.prems u'(1) by simp
  ultimately show ?case using u'(2) by (metis Suc_leI add_Suc add_Suc_right le_neq_implies_less)
qed

lemma copyin_cases:
  assumes "unat len \<le> length dest"
  shows "\<exists>r d. copyin u a dest len = Some (r, d, u\<lparr>us_badfault := (if copycheck a len = Inr len then False else us_badfault u)\<rparr>) \<and>
           (if copycheck a len = Inr len \<and> (\<forall>k < unat len. us_readable u (a + of_nat k))
            then r = Inr () \<and> d = map (\<lambda>k. us_bytes u (a + of_nat k)) [0..<unat len] @ drop (unat len) dest
            else r = Inl EFAULT)"
proof (cases "copycheck a len = Inr len")
  case False
  then show ?thesis
    by (cases "copycheck a len") (auto simp: copyin_def copycheck_def Let_def split: if_splits)
next
  case True
  let ?u = "u\<lparr>us_badfault := True\<rparr>"
  show ?thesis
  proof (cases "\<forall>k < unat len. us_readable u (a + of_nat k)")
    case all: True
    then have "fetch_bytes ?u a 0 (unat len) dest =
        Some (True, map (\<lambda>k. us_bytes u (a + of_nat k)) [0..<unat len] @ drop (unat len) dest)"
      using fetch_bytes_readable [of 0 "unat len" ?u a dest] assms by simp
    then show ?thesis using True all by (simp add: copyin_def)
  next
    case some: False
    then obtain d where "fetch_bytes ?u a 0 (unat len) dest = Some (False, d)"
      using fetch_bytes_unreadable [of ?u 0 "unat len" a dest] assms by auto
    then show ?thesis using True some by (simp add: copyin_def)
  qed
qed

lemma copystr_frame:
  assumes "copystr rd (\<lambda>i x s. Some (user_write a i x s)) maxlen stop i u = Some (r, u')"
    "unat a + stop \<le> 2 ^ 31" "USERTOP \<le> b"
  shows "us_bytes u' b = us_bytes u b"
  using assms
proof (induction "maxlen - i" arbitrary: i u)
  case (0 i u)
  then show ?case by (auto simp: copystr.simps [of rd _ maxlen stop i] split: if_splits)
next
  case (Suc n i u)
  show ?case
  proof (cases "i < stop")
    case False
    then show ?thesis using Suc.prems(1) by (auto simp: copystr.simps [of rd _ maxlen stop i] split: if_splits)
  next
    case True
    then have ne: "b \<noteq> a + of_nat i" using user_offset(2) [OF Suc.prems(2)] Suc.prems(3) by blast
    have IH: "us_bytes u' b = us_bytes u1 b"
      if "copystr rd (\<lambda>i x s. Some (user_write a i x s)) maxlen stop (i + 1) u1 = Some (r, u')" for u1
      using Suc.hyps(1) [of "i + 1" u1] that Suc.hyps(2) Suc.prems(2,3) by simp
    have lt: "i < maxlen" using Suc.hyps(2) by simp
    note step = Suc.prems(1) [unfolded copystr.simps [of rd _ maxlen stop i]]
    consider "rd i u = Some None" | x where "rd i u = Some (Some x)"
      using step lt True by (cases "rd i u") auto
    then show ?thesis
    proof cases
      case 1
      then show ?thesis using step lt True by simp
    next
      case (2 x)
      let ?u = "u\<lparr>us_bytes := (us_bytes u)(a + of_nat i := x)\<rparr>"
      show ?thesis
      proof (cases "us_writable u (a + of_nat i) \<and> x \<noteq> 0")
        case w: True
        then have "us_bytes u' b = us_bytes ?u b"
          using step lt True 2 by (intro IH) (simp add: user_write_def)
        then show ?thesis using ne by simp
      next
        case w: False
        then have "u' = u \<or> u' = ?u" using step lt True 2 by (auto simp: user_write_def split: if_splits)
        then show ?thesis using ne by auto
      qed
    qed
  qed
qed

section \<open>Transfers\<close>

text \<open>With \<^verbatim>\<open>uio_resid\<close> set to the length of the one buffer, the loop runs at most once.\<close>

lemma uiomove_loop_once:
  assumes "iov_len u = uio_resid u" and m_def: "m = min n (uio_resid u)"
  shows "uiomove_loop pos n u x =
     (if m = 0 then Some (Inr (), u, x)
      else case uiomove_chunk pos m u x of
          None \<Rightarrow> None
        | Some (Inl e, u', x') \<Rightarrow> Some (Inl e, u', x')
        | Some (Inr _, u', x') \<Rightarrow>
            Some (Inr (), u'\<lparr>iov_len := iov_len u - m, uio_resid := uio_resid u - m,
              uio_offset := c_int (uio_offset u + int m)\<rparr>, x'))"
proof (cases "m = 0")
  case True
  then show ?thesis by (auto simp: uiomove_loop.simps m_def min_def split: if_splits)
next
  case False
  have "uiomove_loop (pos + m) (n - m)
      (u'\<lparr>iov_len := iov_len u - m, uio_resid := uio_resid u - m, uio_offset := off\<rparr>) x'
    = Some (Inr (), u'\<lparr>iov_len := iov_len u - m, uio_resid := uio_resid u - m, uio_offset := off\<rparr>, x')"
    for u' x' off
  proof -
    have "n - m = 0 \<or> uio_resid u - m = 0" using m_def by (simp add: min_def)
    then show ?thesis by (auto simp: uiomove_loop.simps [of "pos + m" "n - m"])
  qed
  moreover have "min (iov_len u) n = m" "n > 0" "uio_resid u > 0"
    using assms False by (simp_all add: min.commute)
  ultimately show ?thesis
    using False by (simp add: uiomove_loop.simps [of pos n] Let_def split: option.split sum.split)
qed

lemma uiomove_kernel_eq:
  assumes "uio_segflg u = UIO_SYSSPACE" "uio_space u = None" "iov_len u = uio_resid u"
    and m_def: "m = min n (uio_resid u)" and "m \<le> length (x_buf x)" "iov_kbase u + m \<le> length (x_kobj x)"
  shows "uiomove cs n u x = Some (Inr (),
     u\<lparr>iov_kbase := iov_kbase u + m, iov_len := iov_len u - m, uio_resid := uio_resid u - m,
       uio_offset := (if m = 0 then uio_offset u else c_int (uio_offset u + int m))\<rparr>,
     if uio_rw u = UIO_READ
     then x\<lparr>x_kobj := take (iov_kbase u) (x_kobj x) @ take m (x_buf x) @ drop (iov_kbase u + m) (x_kobj x)\<rparr>
     else x\<lparr>x_buf := take m (drop (iov_kbase u) (x_kobj x)) @ drop m (x_buf x)\<rparr>)"
proof (cases "m = 0")
  case True
  then show ?thesis
    using assms uiomove_loop_once [OF assms(3) m_def, of 0 x] by (simp add: uiomove_def)
next
  case False
  then show ?thesis
    using assms(1,2,5,6) uiomove_loop_once [OF assms(3) m_def, of 0 x]
    by (simp add: uiomove_def uiomove_chunk_def blit_def)
qed

text \<open>\<^verbatim>\<open>uiomovezeros\<close> on kernel memory: the next \<open>n\<close> bytes are cleared, in rounds of sixteen.\<close>

lemma splice_fill:
  assumes "m \<le> n" "k + n \<le> length xs"
  shows "take (k + m) (take k xs @ replicate m v @ drop (k + m) xs) @ replicate (n - m) v @
      drop (k + n) (take k xs @ replicate m v @ drop (k + m) xs) = take k xs @ replicate n v @ drop (k + n) xs"
proof -
  have "replicate m v @ replicate (n - m) v @ ys = replicate n v @ ys" for ys
    using assms(1) by (metis append_assoc le_add_diff_inverse replicate_add)
  then show ?thesis using assms by (simp add: add.commute)
qed

lemma uiomovezeros_loop_kernel:
  assumes "uio_segflg u = UIO_SYSSPACE" "uio_space u = None" "uio_rw u = UIO_READ" "iov_len u = uio_resid u"
    and "n \<le> uio_resid u" "iov_kbase u + n \<le> length (x_kobj x)"
  shows "\<exists>u' b. uiomovezeros_loop cs n u x = Some (Inr (), u',
     x\<lparr>x_buf := b, x_kobj := take (iov_kbase u) (x_kobj x) @ replicate n 0 @ drop (iov_kbase u + n) (x_kobj x)\<rparr>)"
  using assms
proof (induction n arbitrary: u x rule: less_induct)
  case (less n)
  show ?case
  proof (cases "n = 0")
    case True
    then show ?thesis
      by (intro exI [of _ u] exI [of _ "x_buf x"]) (simp add: uiomovezeros_loop.simps [of cs 0])
  next
    case False
    let ?m = "min 16 n" and ?x1 = "x\<lparr>x_buf := replicate 16 0\<rparr>"
    let ?u2 = "u\<lparr>iov_kbase := iov_kbase u + ?m, iov_len := iov_len u - ?m, uio_resid := uio_resid u - ?m,
       uio_offset := (if ?m = 0 then uio_offset u else c_int (uio_offset u + int ?m))\<rparr>"
    let ?k2 = "take (iov_kbase u) (x_kobj x) @ replicate ?m 0 @ drop (iov_kbase u + ?m) (x_kobj x)"
    have m: "?m = min ?m (uio_resid u)" using less.prems(5) by simp
    have step: "uiomove cs ?m u ?x1 = Some (Inr (), ?u2, ?x1\<lparr>x_kobj := ?k2\<rparr>)"
      using uiomove_kernel_eq [OF less.prems(1,2,4) m, of ?x1 cs] less.prems(3,6) by simp
    have "\<exists>u' b. uiomovezeros_loop cs (n - ?m) ?u2 (?x1\<lparr>x_kobj := ?k2\<rparr>) = Some (Inr (), u',
        ?x1\<lparr>x_kobj := ?k2, x_buf := b,
          x_kobj := take (iov_kbase ?u2) ?k2 @ replicate (n - ?m) 0 @ drop (iov_kbase ?u2 + (n - ?m)) ?k2\<rparr>)"
      using less.IH [of "n - ?m" ?u2 "?x1\<lparr>x_kobj := ?k2\<rparr>"] False less.prems by simp
    moreover have "take (iov_kbase ?u2) ?k2 @ replicate (n - ?m) 0 @ drop (iov_kbase ?u2 + (n - ?m)) ?k2 =
        take (iov_kbase u) (x_kobj x) @ replicate n 0 @ drop (iov_kbase u + n) (x_kobj x)"
      using splice_fill [of ?m n "iov_kbase u" "x_kobj x"] less.prems(6) by simp
    ultimately show ?thesis
      using False step by (simp add: uiomovezeros_loop.simps [of cs n] Let_def)
  qed
qed

lemma uiomovezeros_kernel:
  assumes "n \<le> len" "k + n \<le> length (x_kobj x)"
  shows "\<exists>u' b. uiomovezeros cs n (mk_kuio k len pos UIO_READ u) x = Some (Inr (), u',
     x\<lparr>x_buf := b, x_kobj := take k (x_kobj x) @ replicate n 0 @ drop (k + n) (x_kobj x)\<rparr>)"
  using uiomovezeros_loop_kernel [of "mk_kuio k len pos UIO_READ u" n x cs] assms
  by (simp add: uiomovezeros_def mk_kuio_def)

section \<open>Properties\<close>

text \<open>
  Claim C20: \<^verbatim>\<open>copyin\<close> is total and exact. Given a buffer large enough it always returns; it
  succeeds precisely when the region is non-empty, lies below \<^verbatim>\<open>USERTOP\<close> without wrapping and is
  readable, and then delivers those bytes; otherwise it returns \<open>EFAULT\<close>. User memory is not
  changed and the fault hook is not left set.
\<close>

theorem copyin_exact:
  assumes "unat len \<le> length dest" "\<not> us_badfault u"
  shows "\<exists>r d u'. copyin u a dest len = Some (r, d, u') \<and> us_bytes u' = us_bytes u \<and> \<not> us_badfault u' \<and>
           (if len \<noteq> 0 \<and> unat a + unat len \<le> 2 ^ 31 \<and> (\<forall>k < unat len. us_readable u (a + of_nat k))
            then r = Inr () \<and> d = map (\<lambda>k. us_bytes u (a + of_nat k)) [0..<unat len] @ drop (unat len) dest
            else r = Inl EFAULT)"
proof -
  obtain r d where "copyin u a dest len = Some (r, d, u\<lparr>us_badfault := False\<rparr>)"
      "if copycheck a len = Inr len \<and> (\<forall>k < unat len. us_readable u (a + of_nat k))
       then r = Inr () \<and> d = map (\<lambda>k. us_bytes u (a + of_nat k)) [0..<unat len] @ drop (unat len) dest
       else r = Inl EFAULT"
    using copyin_cases [OF assms(1), of u a] assms(2) by (elim exE conjE) (simp split: if_splits)
  then show ?thesis
    unfolding copycheck_exact by (intro exI [of _ r] exI [of _ d] exI [of _ "u\<lparr>us_badfault := False\<rparr>"]) simp
qed

theorem copyin_exact_witness:
  "\<exists>d u'. copyin \<lparr>us_bytes = (\<lambda>_. 7), us_readable = (\<lambda>a. a = 100 \<or> a = 101), us_writable = (\<lambda>_. False),
       us_badfault = False\<rparr> 100 [0, 0, 0] 2 = Some (Inr (), d, u') \<and> d = [7, 7, 0]"
proof -
  let ?u = "\<lparr>us_bytes = (\<lambda>_. 7), us_readable = (\<lambda>a. a = 100 \<or> a = 101), us_writable = (\<lambda>_. False),
       us_badfault = False\<rparr>"
  have "us_readable ?u (100 + of_nat k)" if "k < 2" for k
    using that by (cases "k = 0") (auto simp: less_2_cases_iff)
  then have rd: "\<forall>k < unat (2 :: 32 word). us_readable ?u (100 + of_nat k)" by simp
  have "unat (2 :: 32 word) \<le> length [0, 0, 0 :: 8 word]" "\<not> us_badfault ?u" by simp_all
  from copyin_exact [OF this, of 100] rd show ?thesis by (simp add: upt_rec) blast
qed

text \<open>
  User programs cannot make the kernel overwrite itself through the copy functions.
  Whatever address and length a program passes, \<^verbatim>\<open>copyout\<close> and \<^verbatim>\<open>copyoutstr\<close> change no byte at or
  above \<^verbatim>\<open>USERTOP\<close>, whether they succeed, fail or fault half-way.
\<close>

lemma copyout_protects_kernel:
  assumes "USERTOP \<le> b"
  shows "(\<forall>r u'. copyout u src a len = Some (r, u') \<longrightarrow> us_bytes u' b = us_bytes u b) \<and>
         (\<forall>r u'. copyoutstr u src a len = Some (r, u') \<longrightarrow> us_bytes u' b = us_bytes u b)"
proof (intro conjI allI impI)
  fix r u'
  assume co: "copyout u src a len = Some (r, u')"
  show "us_bytes u' b = us_bytes u b"
  proof (cases "copycheck a len = Inr len")
    case True
    then obtain fine u2 where st: "store_bytes (u\<lparr>us_badfault := True\<rparr>) a 0 (unat len) src = Some (fine, u2)"
        "u' = u2\<lparr>us_badfault := False\<rparr>"
      using co by (auto simp: copyout_def bind_eq_Some_conv)
    have "b \<noteq> a + of_nat k" if "k < unat len" for k
      using user_offset(2) [OF copycheck_stop [OF True] that] assms by blast
    then show ?thesis using store_bytes_frame(1) [OF st(1)] st(2) by simp
  next
    case False
    then show ?thesis using co by (auto simp: copyout_def split: sum.splits if_splits)
  qed
next
  fix r u'
  assume co: "copyoutstr u src a len = Some (r, u')"
  show "us_bytes u' b = us_bytes u b"
  proof (cases "copycheck a len")
    case (Inl e)
    then show ?thesis using co by (simp add: copyoutstr_def)
  next
    case (Inr stop)
    then obtain u2 where "copystr (\<lambda>i s. map_option Some (cell src (int i))) (\<lambda>i x s. Some (user_write a i x s))
        (unat len) (unat stop) 0 (u\<lparr>us_badfault := True\<rparr>) = Some (r, u2)" "u' = u2\<lparr>us_badfault := False\<rparr>"
      using co by (auto simp: copyoutstr_def bind_eq_Some_conv)
    then show ?thesis using copystr_frame [OF _ copycheck_stop [OF Inr] assms] by simp
  qed
qed

lemma copyout_protects_kernel_witness:
  "\<exists>u'. copyout \<lparr>us_bytes = (\<lambda>_. 0), us_readable = (\<lambda>_. True), us_writable = (\<lambda>_. True), us_badfault = False\<rparr>
      [1, 2] 0x7ffffffe 2 = Some (Inr (), u') \<and> us_bytes u' 0x7fffffff = 2 \<and> us_bytes u' 0x80000000 = 0"
proof -
  let ?u = "\<lparr>us_bytes = (\<lambda>_. 0), us_readable = (\<lambda>_. True), us_writable = (\<lambda>_. True), us_badfault = False\<rparr>"
  have c: "copycheck 0x7ffffffe 2 = Inr 2" by (simp add: copycheck_def USERTOP_def)
  have u: "store_bytes v 0x7ffffffe 0 2 [1, 2] = store_bytes v 0x7ffffffe 0 (Suc (Suc 0)) [1, 2]" for v
    by (simp only: numeral_2_eq_2)
  have "\<exists>u'. copyout ?u [1, 2] 0x7ffffffe 2 = Some (Inr (), u') \<and> us_bytes u' 0x7fffffff = 2"
    by (simp add: copyout_def c u)
  moreover have "us_bytes u' 0x80000000 = 0" if "copyout ?u [1, 2] 0x7ffffffe 2 = Some (r, u')" for r u'
    using copyout_protects_kernel [where b = "0x80000000" and src = "[1, 2]" and a = "0x7ffffffe" and len = 2 and u = ?u] that
    by (simp add: USERTOP_def)
  ultimately show ?thesis by blast
qed



end
