(* ===== verification/Kern_Coremap.thy ===== *)
theory Kern_Coremap
  imports Kern_Uio
begin

text \<open>
  Physical memory: \<^verbatim>\<open>kern/arch/mips/mips/ram.c\<close> and \<^verbatim>\<open>kern/vm/coremap.c\<close>. The coremap
  array with the entries it points to is one list; an index past its end is an access outside the
  array. Kernel addresses map directly onto physical memory, which is a list of bytes.
\<close>

section \<open>The memory the machine has\<close>

definition MIPS_KSEG0 :: "32 word" where
  "MIPS_KSEG0 = 0x80000000"

record ram =
  firstpaddr :: "32 word"
  lastpaddr :: "32 word"

text \<open>\<open>ramsize\<close> is what \<^verbatim>\<open>mips_ramsize\<close> reports, \<open>firstfree\<close> what \<^verbatim>\<open>start.S\<close> has saved.\<close>

definition ram_bootstrap :: "32 word \<Rightarrow> 32 word \<Rightarrow> ram" where
  "ram_bootstrap ramsize firstfree =
     \<lparr>firstpaddr = firstfree - MIPS_KSEG0,
      lastpaddr = (if ramsize > 508 * 1024 * 1024 then 508 * 1024 * 1024 else ramsize)\<rparr>"

definition ram_stealmem :: "32 word \<Rightarrow> ram \<Rightarrow> 32 word \<times> ram" where
  "ram_stealmem npages r =
     (let sz = npages * 4096 in
      if firstpaddr r + sz > lastpaddr r then (0, r)
      else (firstpaddr r, r\<lparr>firstpaddr := firstpaddr r + sz\<rparr>))"

definition ram_getsize :: "ram \<Rightarrow> 32 word \<times> 32 word" where
  "ram_getsize r = (firstpaddr r, lastpaddr r)"

section \<open>The coremap\<close>

record coremap_entry =
  cme_paddr :: "32 word"
  cme_use :: "32 word"
  cme_size :: int

record coremap =
  cm_ram :: ram
  cm_size :: nat
  cm_firstaddr :: "32 word"
  cm_lastaddr :: "32 word"
  cm_freeaddr :: "32 word"
  cm_bootstrapped :: bool
  cm_map :: "coremap_entry list"
  cm_mem :: "8 word list"

text \<open>
  \<open>km\<close> is \<^verbatim>\<open>kmalloc\<close> before the coremap exists: given a size, whether it succeeds, and what is left of
  the memory, since it takes its pages with \<^verbatim>\<open>ram_stealmem\<close>.
\<close>

type_synonym early_kmalloc = "nat \<Rightarrow> ram \<Rightarrow> bool \<times> ram"

fun make_entries :: "early_kmalloc \<Rightarrow> 32 word \<Rightarrow> nat \<Rightarrow> nat \<Rightarrow> ram \<Rightarrow> (coremap_entry list \<times> ram) option" where
  "make_entries km first i 0 r = Some ([], r)"
| "make_entries km first i (Suc n) r = (case km 12 r of (ok, r1) \<Rightarrow> do {
     kassert ok;
     (es, r2) \<leftarrow> make_entries km first (Suc i) n r1;
     Some (\<lparr>cme_paddr = 4096 * of_nat i + first, cme_use = 0, cme_size = 0\<rparr> # es, r2) })"

text \<open>The loop that reserves every frame below the first free address; it stops at the first that is not.\<close>

fun fix_entries :: "32 word \<Rightarrow> coremap_entry list \<Rightarrow> coremap_entry list" where
  "fix_entries free [] = []"
| "fix_entries free (e # es) =
     (if cme_paddr e \<ge> free then e # es else e\<lparr>cme_size := - 1, cme_use := 1\<rparr> # fix_entries free es)"

definition coremap_bootstrap :: "early_kmalloc \<Rightarrow> coremap \<Rightarrow> coremap option" where
  "coremap_bootstrap km st =
     (case ram_getsize (cm_ram st) of (lo, hi) \<Rightarrow>
      let n = unat ((hi - lo) div 4096) in
      case km (4 * n) (cm_ram st) of (ok, r1) \<Rightarrow> do {
        kassert ok;
        (es, r2) \<leftarrow> make_entries km lo 0 n r1;
        (case ram_getsize r2 of (free, hi2) \<Rightarrow>
           Some (st\<lparr>cm_ram := r2, cm_size := n, cm_firstaddr := lo, cm_lastaddr := hi2, cm_freeaddr := free,
                    cm_bootstrapped := True, cm_map := fix_entries free es\<rparr>)) })"

text \<open>
  The search of \<^verbatim>\<open>getppages\<close>: \<open>cnt\<close> is \<^verbatim>\<open>cont_count\<close>. The loop runs up to and including
  \<^verbatim>\<open>cm_size\<close>. \<open>Some (Some b)\<close> is a block starting at \<open>b\<close>, \<open>Some None\<close> the early return of 0.
\<close>

function find_block :: "coremap_entry list \<Rightarrow> nat \<Rightarrow> nat \<Rightarrow> nat \<Rightarrow> nat option option" where
  "find_block m npages cnt i =
     (if i \<le> length m then
        if cnt = 0 then Some (Some (i - npages))
        else (case cell m (int i) of
            None \<Rightarrow> None
          | Some e \<Rightarrow>
              if cme_use e = 0 then find_block m npages (cnt - 1) (i + 1)
              else if i = length m - 1 then Some None
              else find_block m npages npages (i + 1))
      else Some None)"
  by pat_completeness auto
termination by (relation "measure (\<lambda>(m, n, cnt, i). Suc (length m) - i)") auto

declare find_block.simps [simp del]

text \<open>\<^verbatim>\<open>mk_kuio\<close> and \<^verbatim>\<open>uiomovezeros\<close> over the block; the return code is not looked at.\<close>

definition blank_uio :: uio where
  "blank_uio = \<lparr>iov_kbase = 0, iov_ubase = 0, iov_len = 0, uio_offset = 0, uio_resid = 0,
     uio_segflg = UIO_SYSSPACE, uio_rw = UIO_READ, uio_space = None\<rparr>"

definition no_user :: uspace where
  "no_user = \<lparr>us_bytes = (\<lambda>_. 0), us_readable = (\<lambda>_. False), us_writable = (\<lambda>_. False), us_badfault = False\<rparr>"

definition zero_frames :: "32 word \<Rightarrow> 32 word \<Rightarrow> 8 word list \<Rightarrow> 8 word list option" where
  "zero_frames addr npages mem = do {
     let len = unat (4096 * npages);
     (r, u, x) \<leftarrow> uiomovezeros None len (mk_kuio (unat addr) len 0 UIO_READ blank_uio)
                  \<lparr>x_buf = [], x_kobj = mem, x_user = no_user\<rparr>;
     Some (x_kobj x) }"

fun mark_tail :: "nat \<Rightarrow> nat \<Rightarrow> coremap_entry list \<Rightarrow> coremap_entry list option" where
  "mark_tail 0 i m = Some m"
| "mark_tail (Suc n) i m = do {
     e \<leftarrow> cell m (int i);
     m1 \<leftarrow> set_cell m (int i) (e\<lparr>cme_use := 1, cme_size := - 1\<rparr>);
     mark_tail n (Suc i) m1 }"

definition getppages :: "32 word \<Rightarrow> coremap \<Rightarrow> (32 word \<times> coremap) option" where
  "getppages npages st =
     (if \<not> cm_bootstrapped st then
        (case ram_stealmem npages (cm_ram st) of (addr, r) \<Rightarrow> Some (addr, st\<lparr>cm_ram := r\<rparr>))
      else do {
        found \<leftarrow> find_block (cm_map st) (unat npages) (unat npages) 0;
        (case found of
           None \<Rightarrow> Some (0, st)
         | Some b \<Rightarrow> do {
             e \<leftarrow> cell (cm_map st) (int b);
             m1 \<leftarrow> set_cell (cm_map st) (int b) (e\<lparr>cme_use := 1, cme_size := c_int (uint npages)\<rparr>);
             mem \<leftarrow> zero_frames (cme_paddr e) npages (cm_mem st);
             m2 \<leftarrow> mark_tail (unat npages - 1) (b + 1) m1;
             Some (cme_paddr e, st\<lparr>cm_map := m2, cm_mem := mem\<rparr>) }) })"

text \<open>The loop of \<^verbatim>\<open>ungetppages\<close> counts down in an unsigned variable.\<close>

partial_function (option) unget_loop :: "32 word \<Rightarrow> 32 word \<Rightarrow> coremap_entry list \<Rightarrow> coremap_entry list option" where
  "unget_loop idx i m =
     (if i \<ge> idx then do {
        e \<leftarrow> cell m (uint i);
        m1 \<leftarrow> set_cell m (uint i) (e\<lparr>cme_use := 0, cme_size := 0\<rparr>);
        unget_loop idx (i - 1) m1 }
      else Some m)"

declare unget_loop.simps [code]

definition ungetppages :: "32 word \<Rightarrow> coremap \<Rightarrow> coremap option" where
  "ungetppages paddr st = do {
     let idx = (paddr - cm_firstaddr st) div 4096;
     e \<leftarrow> cell (cm_map st) (uint idx);
     m \<leftarrow> unget_loop idx (idx + word_of_int (cme_size e) - 1) (cm_map st);
     Some (st\<lparr>cm_map := m\<rparr>) }"

text \<open>The kernel's own pages, \<^verbatim>\<open>kern/vm/vm_tlb.c\<close>.\<close>

definition alloc_kpages :: "int \<Rightarrow> coremap \<Rightarrow> (32 word \<times> coremap) option" where
  "alloc_kpages npages st = do {
     (pa, st1) \<leftarrow> getppages (word_of_int npages) st;
     Some (if pa = 0 then 0 else pa + MIPS_KSEG0, st1) }"

definition free_kpages :: "32 word \<Rightarrow> coremap \<Rightarrow> coremap option" where
  "free_kpages addr st = ungetppages (addr - MIPS_KSEG0) st"

section \<open>First fit\<close>

abbreviation frame_free :: "coremap_entry list \<Rightarrow> nat \<Rightarrow> bool" where
  "frame_free m i \<equiv> cme_use (m ! i) = 0"

definition free_run :: "coremap_entry list \<Rightarrow> nat \<Rightarrow> nat \<Rightarrow> bool" where
  "free_run m n s \<longleftrightarrow> s + n \<le> length m \<and> (\<forall>j. s \<le> j \<and> j < s + n \<longrightarrow> frame_free m j)"

lemma find_block_inv:
  assumes "0 < n" "i \<le> length m" "cnt \<le> n" "n - cnt \<le> i" "m \<noteq> []"
    and "\<forall>j. i - (n - cnt) \<le> j \<and> j < i \<longrightarrow> frame_free m j"
    and "\<forall>s < i - (n - cnt). \<not> free_run m n s"
    and "i = length m \<Longrightarrow> frame_free m (length m - 1)"
  shows "find_block m n cnt i =
     (if \<exists>s. free_run m n s then Some (Some (LEAST s. free_run m n s))
      else if frame_free m (length m - 1) then None else Some None)"
  using assms(2-)
proof (induction "length m - i" arbitrary: i cnt rule: less_induct)
  case less
  note unfold = find_block.simps [of m n cnt i]
  have blocked: "\<not> free_run m n s" if "0 < cnt" "\<not> frame_free m i" "s \<le> i" for s
  proof (cases "s < i - (n - cnt)")
    case False
    then have "i < s + n" using that(1) less.prems(2,3) by linarith
    then show ?thesis using that by (auto simp: free_run_def)
  qed (use less.prems(6) in blast)
  consider "cnt = 0" | "0 < cnt" "i = length m" | "0 < cnt" "i < length m" "frame_free m i"
    | "0 < cnt" "i < length m" "\<not> frame_free m i" "i = length m - 1"
    | "0 < cnt" "i < length m" "\<not> frame_free m i" "i \<noteq> length m - 1"
    using less.prems(1) by linarith
  then show ?case
  proof cases
    case 1
    then have run: "free_run m n (i - n)" using less.prems by (simp add: free_run_def)
    have "(LEAST s. free_run m n s) = i - n"
      using run less.prems(6) 1 by (intro Least_equality) (auto simp: not_less [symmetric])
    then show ?thesis unfolding unfold using 1 run less.prems(1) by auto
  next
    case 2
    have "\<not> free_run m n s" for s
    proof (cases "s < i - (n - cnt)")
      case False
      then have "length m < s + n" using 2 less.prems(2,3) by linarith
      then show ?thesis by (simp add: free_run_def)
    qed (use less.prems(6) in blast)
    then show ?thesis unfolding unfold using 2 less.prems(7) by (simp add: cell_def)
  next
    case 3
    have last: "frame_free m (length m - 1)" if "i + 1 = length m"
      using 3(3) that by (metis diff_add_inverse2)
    have d: "i + 1 - (n - (cnt - 1)) = i - (n - cnt)" "n - (cnt - 1) = Suc (n - cnt)"
      using 3(1) less.prems(2,3) assms(1) by linarith+
    have "find_block m n (cnt - 1) (i + 1) =
     (if \<exists>s. free_run m n s then Some (Some (LEAST s. free_run m n s))
      else if frame_free m (length m - 1) then None else Some None)"
      by (rule less.hyps) (use 3 less.prems last in \<open>auto simp: d less_Suc_eq\<close>)
    then show ?thesis unfolding unfold using 3 less.prems(1) by simp
  next
    case 4
    have "\<not> free_run m n s" for s
    proof (cases "s \<le> i")
      case False
      then have "length m < s + n" using 4(4) assms(1) by linarith
      then show ?thesis by (simp add: free_run_def)
    qed (use blocked [OF 4(1,3)] in blast)
    then have none: "\<nexists>s. free_run m n s" by blast
    show ?thesis unfolding unfold 4(4) [symmetric] using 4(1-3) none by simp
  next
    case 5
    have "\<not> free_run m n s" if "s < i + 1" for s
      using blocked [OF 5(1,3), of s] that by simp
    then have "find_block m n n (i + 1) =
     (if \<exists>s. free_run m n s then Some (Some (LEAST s. free_run m n s))
      else if frame_free m (length m - 1) then None else Some None)"
      by (intro less.hyps) (use 5 less.prems in auto)
    then show ?thesis unfolding unfold using 5 less.prems(1) by simp
  qed
qed

lemma find_block_spec:
  assumes "0 < n" "m \<noteq> []"
  shows "find_block m n n 0 =
     (if \<exists>s. free_run m n s then Some (Some (LEAST s. free_run m n s))
      else if frame_free m (length m - 1) then None else Some None)"
  using assms by (intro find_block_inv) auto

section \<open>Changing a range of entries\<close>

definition upd_range :: "nat \<Rightarrow> nat \<Rightarrow> ('a \<Rightarrow> 'a) \<Rightarrow> 'a list \<Rightarrow> 'a list" where
  "upd_range i n f m = map (\<lambda>j. if i \<le> j \<and> j < i + n then f (m ! j) else m ! j) [0..<length m]"

lemma length_upd_range [simp]: "length (upd_range i n f m) = length m"
  by (simp add: upd_range_def)

lemma nth_upd_range [simp]:
  "j < length m \<Longrightarrow> upd_range i n f m ! j = (if i \<le> j \<and> j < i + n then f (m ! j) else m ! j)"
  by (simp add: upd_range_def)

lemma upd_range_0 [simp]: "upd_range i 0 f m = m"
  by (intro nth_equalityI) auto

definition tail_entry :: "coremap_entry \<Rightarrow> coremap_entry" where
  "tail_entry e = e\<lparr>cme_use := 1, cme_size := - 1\<rparr>"

definition free_entry :: "coremap_entry \<Rightarrow> coremap_entry" where
  "free_entry e = e\<lparr>cme_use := 0, cme_size := 0\<rparr>"

lemma entry_sels [simp]:
  "cme_use (tail_entry e) = 1" "cme_size (tail_entry e) = - 1" "cme_paddr (tail_entry e) = cme_paddr e"
  "cme_use (free_entry e) = 0" "cme_size (free_entry e) = 0" "cme_paddr (free_entry e) = cme_paddr e"
  by (simp_all add: tail_entry_def free_entry_def)

lemma mark_tail_eq: "i + n \<le> length m \<Longrightarrow> mark_tail n i m = Some (upd_range i n tail_entry m)"
proof (induction n arbitrary: i m)
  case (Suc n)
  have "upd_range (Suc i) n tail_entry (m[i := tail_entry (m ! i)]) ! j = upd_range i (Suc n) tail_entry m ! j"
    if "j < length m" for j
    using that by (cases "j = i") auto
  then have "upd_range (Suc i) n tail_entry (m[i := tail_entry (m ! i)]) = upd_range i (Suc n) tail_entry m"
    by (intro nth_equalityI) auto
  then show ?case using Suc.prems Suc.IH [of "Suc i" "m[i := tail_entry (m ! i)]"] by (simp flip: tail_entry_def)
qed simp

lemma unget_loop_eq:
  assumes "0 < idx" "idx + n \<le> length m" "length m < 2 ^ 32"
  shows "unget_loop (of_nat idx) (of_nat (idx + n) - 1) m = Some (upd_range idx n free_entry m)"
  using assms
proof (induction n arbitrary: m)
  case 0
  have "\<not> of_nat idx \<le> (of_nat (idx + 0) :: 32 word) - 1"
    using assms by (simp add: word_le_nat_alt unat_of_nat_32 unat_minus_one unat_gt_0 [symmetric])
  then show ?case unfolding unget_loop.simps [of _ "of_nat (idx + 0) - 1"] by simp
next
  case (Suc n)
  define i :: "32 word" where "i = of_nat (idx + n)"
  let ?m = "m[idx + n := free_entry (m ! (idx + n))]"
  have i: "unat i = idx + n" "unat (of_nat idx :: 32 word) = idx" "of_nat (idx + Suc n) - 1 = i"
    using Suc.prems unat_of_nat_32 [of "idx + n"] by (simp_all add: i_def unat_of_nat_32)
  have le: "of_nat idx \<le> i" using i by (simp add: word_le_nat_alt)
  have "upd_range idx n free_entry ?m ! j = upd_range idx (Suc n) free_entry m ! j" if "j < length m" for j
    using that by (cases "j = idx + n") auto
  then have "upd_range idx n free_entry ?m = upd_range idx (Suc n) free_entry m"
    by (intro nth_equalityI) auto
  moreover have "unget_loop (of_nat idx) (i - 1) ?m = Some (upd_range idx n free_entry ?m)"
    unfolding i_def by (rule Suc.IH) (use Suc.prems in simp_all)
  moreover have "uint i = int (idx + n)" using i(1) by (metis uint_nat)
  ultimately show ?case
    using le Suc.prems unfolding i(3) unget_loop.simps [of _ i] by (simp add: nat_add_distrib flip: free_entry_def)
qed

section \<open>The allocation invariant\<close>

text \<open>
  A block is a head entry, with the number of frames, followed by tail entries. The first \<open>k\<close>
  frames hold the kernel and are never given out; every other entry in use lies in a block.
\<close>

definition in_block :: "coremap_entry list \<Rightarrow> nat \<Rightarrow> nat \<Rightarrow> bool" where
  "in_block m h i \<longleftrightarrow> h \<le> i \<and> 1 \<le> cme_size (m ! h) \<and> int i < int h + cme_size (m ! h)"

definition entry_ok :: "nat \<Rightarrow> coremap_entry list \<Rightarrow> nat \<Rightarrow> bool" where
  "entry_ok k m i \<longleftrightarrow>
     (if cme_use (m ! i) = 0 then k \<le> i \<and> cme_size (m ! i) = 0
      else if cme_size (m ! i) = - 1 then i < k \<or> (\<exists>h. k \<le> h \<and> in_block m h i)
      else k \<le> i \<and> 1 \<le> cme_size (m ! i) \<and> int i + cme_size (m ! i) \<le> int (length m) \<and>
           (\<forall>j. i < j \<and> in_block m i j \<longrightarrow> cme_use (m ! j) \<noteq> 0 \<and> cme_size (m ! j) = - 1))"

definition cm_ok :: "nat \<Rightarrow> coremap_entry list \<Rightarrow> bool" where
  "cm_ok k m \<longleftrightarrow> (\<forall>i < length m. entry_ok k m i)"

definition cm_wf :: "coremap \<Rightarrow> bool" where
  "cm_wf st \<longleftrightarrow> cm_bootstrapped st \<and> length (cm_map st) = cm_size st \<and>
     (\<forall>i < cm_size st. cme_paddr (cm_map st ! i) = cm_firstaddr st + 4096 * of_nat i) \<and>
     0 < cm_size st \<and> 0 < unat (cm_firstaddr st) \<and>
     unat (cm_firstaddr st) + 4096 * cm_size st \<le> length (cm_mem st) \<and> length (cm_mem st) < 2 ^ 32 \<and>
     (\<exists>k \<ge> 1. cm_ok k (cm_map st))"

text \<open>The blocks handed out, as byte ranges.\<close>

definition frame_addr :: "coremap \<Rightarrow> nat \<Rightarrow> nat" where
  "frame_addr st i = unat (cm_firstaddr st) + 4096 * i"

definition heads :: "coremap_entry list \<Rightarrow> nat set" where
  "heads m = {i. i < length m \<and> 1 \<le> cme_size (m ! i)}"

definition cm_blocks :: "coremap \<Rightarrow> (nat \<times> nat) set" where
  "cm_blocks st = (\<lambda>i. (frame_addr st i, 4096 * nat (cme_size (cm_map st ! i)))) ` heads (cm_map st)"

lemma head_ok:
  assumes "cm_ok k m" "i < length m" "1 \<le> cme_size (m ! i)"
  shows "k \<le> i" "cme_use (m ! i) \<noteq> 0" "i + nat (cme_size (m ! i)) \<le> length m"
    "\<And>j. i < j \<Longrightarrow> in_block m i j \<Longrightarrow> j < length m \<and> cme_use (m ! j) \<noteq> 0 \<and> cme_size (m ! j) = - 1"
proof -
  have "entry_ok k m i" using assms by (simp add: cm_ok_def)
  then have *: "k \<le> i" "cme_use (m ! i) \<noteq> 0" "int i + cme_size (m ! i) \<le> int (length m)"
      "\<forall>j. i < j \<and> in_block m i j \<longrightarrow> cme_use (m ! j) \<noteq> 0 \<and> cme_size (m ! j) = - 1"
    using assms(3) by (auto simp: entry_ok_def split: if_splits)
  show "k \<le> i" "cme_use (m ! i) \<noteq> 0" by fact+
  show "i + nat (cme_size (m ! i)) \<le> length m" using *(3) assms(3) by linarith
  show "j < length m \<and> cme_use (m ! j) \<noteq> 0 \<and> cme_size (m ! j) = - 1" if "i < j" "in_block m i j" for j
  proof -
    have "j < length m" using *(3) that(2) by (simp add: in_block_def)
    then show ?thesis using *(4) that by blast
  qed
qed

lemma blocks_disjoint:
  assumes "cm_ok k m" "h < length m" "h' < length m" "in_block m h i" "in_block m h' i"
  shows "h = h'"
proof -
  have no: "\<not> a < b" if "a < length m" "in_block m a i" "in_block m b i" for a b
  proof
    assume "a < b"
    then have "in_block m a b" using that by (auto simp: in_block_def)
    then have "cme_size (m ! b) = - 1" using head_ok(4) [OF assms(1) that(1) _ \<open>a < b\<close>] by (auto simp: in_block_def)
    then show False using that(3) by (simp add: in_block_def)
  qed
  show ?thesis using no [OF assms(2,4,5)] no [OF assms(3,5,4)] by simp
qed

text \<open>What an allocation and a release do to the entries.\<close>

definition take_block :: "nat \<Rightarrow> nat \<Rightarrow> coremap_entry list \<Rightarrow> coremap_entry list" where
  "take_block b n m = upd_range (b + 1) (n - 1) tail_entry (m[b := (m ! b)\<lparr>cme_use := 1, cme_size := int n\<rparr>])"

lemma nth_take_block:
  "b + n \<le> length m \<Longrightarrow> 0 < n \<Longrightarrow> i < length m \<Longrightarrow> take_block b n m ! i =
     (if i = b then (m ! b)\<lparr>cme_use := 1, cme_size := int n\<rparr>
      else if b < i \<and> i < b + n then tail_entry (m ! i) else m ! i)"
  by (auto simp: take_block_def nth_list_update)

lemma length_take_block [simp]: "length (take_block b n m) = length m"
  by (simp add: take_block_def)

lemma take_block_keeps:
  assumes "cm_ok k m" "free_run m n b" "0 < n" "h < length m" "1 \<le> cme_size (m ! h)" "in_block m h j"
  shows "take_block b n m ! j = m ! j"
proof -
  have "cme_use (m ! j) \<noteq> 0 \<and> j < length m"
    using head_ok(2) [OF assms(1,4,5)] head_ok(4) [OF assms(1,4,5), of j] assms(4,6)
    by (cases "h = j") (auto simp: in_block_def)
  then show ?thesis using assms(2,3) by (auto simp: nth_take_block free_run_def)
qed

lemma in_block_self: "1 \<le> cme_size (m ! h) \<Longrightarrow> in_block m h h"
  by (simp add: in_block_def)

lemma in_block_cong: "m' ! h = m ! h \<Longrightarrow> in_block m' h j = in_block m h j"
  by (simp add: in_block_def)

lemma take_block_ok:
  assumes ok: "cm_ok k m" and run: "free_run m n b" "0 < n"
  shows "cm_ok k (take_block b n m)"
  unfolding cm_ok_def
proof (intro allI impI)
  fix i
  assume "i < length (take_block b n m)"
  then have i: "i < length m" by simp
  have bn: "b + n \<le> length m" using run by (simp add: free_run_def)
  note nth = nth_take_block [OF bn run(2)]
  have "cme_use (m ! b) = 0" using run by (simp add: free_run_def)
  then have kb: "k \<le> b" using ok bn run(2) by (auto simp: cm_ok_def entry_ok_def split: if_splits)
  have hb: "in_block (take_block b n m) b j \<longleftrightarrow> b \<le> j \<and> j < b + n" for j
    using nth [of b] bn run(2) by (auto simp: in_block_def)
  have oi: "entry_ok k m i" using ok i by (simp add: cm_ok_def)
  consider "i = b" | "b < i" "i < b + n" | "i < b \<or> b + n \<le> i" "cme_use (m ! i) = 0"
    | "i < b \<or> b + n \<le> i" "cme_use (m ! i) \<noteq> 0" "cme_size (m ! i) = - 1"
    | "i < b \<or> b + n \<le> i" "cme_use (m ! i) \<noteq> 0" "cme_size (m ! i) \<noteq> - 1"
    by linarith
  then show "entry_ok k (take_block b n m) i"
  proof cases
    case 1
    have "j < length m \<and> cme_use (take_block b n m ! j) \<noteq> 0 \<and> cme_size (take_block b n m ! j) = - 1"
      if "b < j" "j < b + n" for j using that nth [of j] bn by simp
    then show ?thesis using 1 nth [OF i] kb bn run(2) hb by (simp add: entry_ok_def)
  next
    case 2
    then show ?thesis using nth [OF i] kb hb [of i] by (auto simp: entry_ok_def)
  next
    case 3
    then show ?thesis using nth [OF i] oi run(2) by (auto simp: entry_ok_def)
  next
    case 4
    have "\<exists>h. k \<le> h \<and> in_block (take_block b n m) h i" if "k \<le> h" "in_block m h i" for h
    proof -
      have "take_block b n m ! h = m ! h"
        using take_block_keeps [OF ok run, of h h] that i by (simp add: in_block_def)
      then show ?thesis using that in_block_cong [of "take_block b n m" h m] by blast
    qed
    moreover have "take_block b n m ! i = m ! i" using 4(1) nth [OF i] run(2) by auto
    ultimately show ?thesis using 4(2,3) oi by (auto simp: entry_ok_def)
  next
    case 5
    then have hd: "1 \<le> cme_size (m ! i)" using oi by (simp add: entry_ok_def)
    have same: "take_block b n m ! i = m ! i" using 5(1) nth [OF i] run(2) by auto
    have "take_block b n m ! j = m ! j" if "in_block m i j" for j
      using take_block_keeps [OF ok run i hd that] .
    then show ?thesis using oi 5(2,3) by (simp add: entry_ok_def same in_block_cong [OF same])
  qed
qed

definition give_block :: "nat \<Rightarrow> coremap_entry list \<Rightarrow> coremap_entry list" where
  "give_block b m = upd_range b (nat (cme_size (m ! b))) free_entry m"

lemma length_give_block [simp]: "length (give_block b m) = length m"
  by (simp add: give_block_def)

lemma nth_give_block:
  "1 \<le> cme_size (m ! b) \<Longrightarrow> i < length m \<Longrightarrow>
     give_block b m ! i = (if in_block m b i then free_entry (m ! i) else m ! i)"
  by (auto simp: give_block_def in_block_def)

lemma give_block_ok:
  assumes ok: "cm_ok k m" and b: "b < length m" "1 \<le> cme_size (m ! b)"
  shows "cm_ok k (give_block b m)"
  unfolding cm_ok_def
proof (intro allI impI)
  fix i
  assume "i < length (give_block b m)"
  then have i: "i < length m" by simp
  note nth = nth_give_block [OF b(2)]
  have oi: "entry_ok k m i" using ok i by (simp add: cm_ok_def)
  have keep: "give_block b m ! j = m ! j" if "h \<noteq> b" "in_block m h j" "j < length m" for h j
    using blocks_disjoint [OF ok _ b(1), of h j] nth that by (auto simp: in_block_def)
  consider "in_block m b i" | "\<not> in_block m b i" "cme_use (m ! i) = 0"
    | "\<not> in_block m b i" "cme_use (m ! i) \<noteq> 0" "cme_size (m ! i) = - 1"
    | "\<not> in_block m b i" "cme_use (m ! i) \<noteq> 0" "cme_size (m ! i) \<noteq> - 1"
    by linarith
  then show "entry_ok k (give_block b m) i"
  proof cases
    case 1
    then show ?thesis using nth [OF i] head_ok(1) [OF ok b] by (simp add: entry_ok_def in_block_def)
  next
    case 2
    then show ?thesis using nth [OF i] oi by (simp add: entry_ok_def)
  next
    case 3
    have "\<exists>h. k \<le> h \<and> in_block (give_block b m) h i" if "k \<le> h" "in_block m h i" for h
    proof -
      have "give_block b m ! h = m ! h"
        using keep [of h h] that i 3(1) by (auto simp: in_block_def)
      then show ?thesis using that in_block_cong [of "give_block b m" h m] by blast
    qed
    then show ?thesis using 3 nth [OF i] oi by (auto simp: entry_ok_def)
  next
    case 4
    then have hd: "1 \<le> cme_size (m ! i)" using oi by (simp add: entry_ok_def)
    then have ne: "i \<noteq> b" using 4(1) in_block_self by blast
    have same: "give_block b m ! i = m ! i" using 4(1) nth [OF i] by simp
    have "give_block b m ! j = m ! j" if "in_block m i j" for j
    proof -
      have "j < length m" using head_ok(3) [OF ok i hd] that unfolding in_block_def by linarith
      then show ?thesis using keep [OF ne that] by simp
    qed
    then show ?thesis using oi 4(2,3) by (simp add: entry_ok_def same in_block_cong [OF same])
  qed
qed

section \<open>Allocation and release on a well-formed coremap\<close>

lemma unat_frame:
  assumes "cm_wf st" "i < cm_size st"
  shows "unat (cm_firstaddr st + 4096 * of_nat i) = frame_addr st i"
    "(cm_firstaddr st + 4096 * of_nat i - cm_firstaddr st) div 4096 = of_nat i"
    "unat (of_nat i :: 32 word) = i" "cm_firstaddr st + 4096 * of_nat i \<noteq> 0"
proof -
  have b: "unat (cm_firstaddr st) + 4096 * i < 2 ^ 32" "0 < unat (cm_firstaddr st)"
    using assms by (simp_all add: cm_wf_def)
  have m: "unat (4096 * of_nat i :: 32 word) = 4096 * i"
    using unat_of_nat_32 [of "4096 * i"] b by simp
  show a: "unat (cm_firstaddr st + 4096 * of_nat i) = frame_addr st i"
    using unat_add_32 [of "cm_firstaddr st" "4096 * of_nat i"] b m by (simp add: frame_addr_def)
  show c: "unat (of_nat i :: 32 word) = i" using b by (intro unat_of_nat_32) simp
  show "(cm_firstaddr st + 4096 * of_nat i - cm_firstaddr st) div 4096 = of_nat i"
    using m c by (simp add: word_unat_eq_iff unat_div)
  show "cm_firstaddr st + 4096 * of_nat i \<noteq> 0"
    using a b(2) by (auto simp: frame_addr_def)
qed

lemma zero_frames_eq:
  assumes "unat addr + 4096 * unat npages \<le> length mem" "length mem < 2 ^ 32"
  shows "zero_frames addr npages mem =
     Some (take (unat addr) mem @ replicate (4096 * unat npages) 0 @ drop (unat addr + 4096 * unat npages) mem)"
proof -
  have l: "unat (4096 * npages) = 4096 * unat npages"
    using unat_of_nat_32 [of "4096 * unat npages"] assms by simp
  obtain u b where "uiomovezeros None (4096 * unat npages) (mk_kuio (unat addr) (4096 * unat npages) 0 UIO_READ blank_uio)
      \<lparr>x_buf = [], x_kobj = mem, x_user = no_user\<rparr> = Some (Inr (), u, \<lparr>x_buf = b,
        x_kobj = take (unat addr) mem @ replicate (4096 * unat npages) 0 @ drop (unat addr + 4096 * unat npages) mem,
        x_user = no_user\<rparr>)"
    using uiomovezeros_kernel [of "4096 * unat npages" "4096 * unat npages" "unat addr"
        "\<lparr>x_buf = [], x_kobj = mem, x_user = no_user\<rparr>" None 0 blank_uio] assms(1) by auto
  then show ?thesis by (simp add: zero_frames_def l Let_def)
qed

lemma getppages_eq:
  assumes wf: "cm_wf st" and n: "n = unat npages" "0 < n" and run: "free_run (cm_map st) n s"
    and b: "b = (LEAST s. free_run (cm_map st) n s)"
  shows "getppages npages st = Some (cm_firstaddr st + 4096 * of_nat b,
     st\<lparr>cm_map := take_block b n (cm_map st),
        cm_mem := take (frame_addr st b) (cm_mem st) @ replicate (4096 * n) 0 @
                  drop (frame_addr st b + 4096 * n) (cm_mem st)\<rparr>)"
proof -
  have fr: "free_run (cm_map st) n b" unfolding b by (rule LeastI) (rule run)
  have len: "length (cm_map st) = cm_size st" "0 < cm_size st" "cm_bootstrapped st" using wf by (simp_all add: cm_wf_def)
  have bn: "b + n \<le> cm_size st" "b < cm_size st" using fr len n(2) by (simp_all add: free_run_def)
  have ne: "cm_map st \<noteq> []" using len(1,2) by auto
  have fb: "find_block (cm_map st) n n 0 = Some (Some b)"
    unfolding find_block_spec [OF n(2) ne] b using run by auto
  have pa: "cme_paddr (cm_map st ! b) = cm_firstaddr st + 4096 * of_nat b" using wf bn by (simp add: cm_wf_def)
  have mem: "frame_addr st b + 4096 * n \<le> length (cm_mem st)" "length (cm_mem st) < 2 ^ 32" "n < 2 ^ 20"
    using wf bn by (auto simp: cm_wf_def frame_addr_def)
  have zf: "zero_frames (cm_firstaddr st + 4096 * of_nat b) npages (cm_mem st) =
      Some (take (frame_addr st b) (cm_mem st) @ replicate (4096 * n) 0 @ drop (frame_addr st b + 4096 * n) (cm_mem st))"
    using zero_frames_eq [of "cm_firstaddr st + 4096 * of_nat b" npages "cm_mem st"] unat_frame(1) [OF wf bn(2)] n(1)
      mem(1,2) by simp
  have "c_int (int n) = int n" using mem(3) by (intro c_int_id) simp_all
  then have nn: "unat npages = n" "c_int (uint npages) = int n" using n(1) by simp_all
  have mt: "mark_tail (n - 1) (b + 1) ((cm_map st)[b := e]) = Some (upd_range (b + 1) (n - 1) tail_entry ((cm_map st)[b := e]))"
    for e by (rule mark_tail_eq) (use bn len n(2) in simp)
  show ?thesis
    unfolding getppages_def nn take_block_def using bn len fb mt by (simp add: pa zf)
qed

lemma ungetppages_eq:
  assumes wf: "cm_wf st" and i: "i < cm_size st" "1 \<le> cme_size (cm_map st ! i)"
  shows "ungetppages (cm_firstaddr st + 4096 * of_nat i) st = Some (st\<lparr>cm_map := give_block i (cm_map st)\<rparr>)"
proof -
  have len: "length (cm_map st) = cm_size st" "cm_size st < 2 ^ 32" using wf by (auto simp: cm_wf_def)
  obtain k where k: "1 \<le> k" "cm_ok k (cm_map st)" using wf by (auto simp: cm_wf_def)
  have i0: "0 < i" using head_ok(1) [OF k(2), of i] k(1) i len by simp
  let ?n = "nat (cme_size (cm_map st ! i))"
  have n: "i + ?n \<le> length (cm_map st)" using head_ok(3) [OF k(2), of i] i len by simp
  have "of_nat i + word_of_int (cme_size (cm_map st ! i)) = (of_nat (i + ?n) :: 32 word)"
    using i(2) by simp
  moreover have "uint (of_nat i :: 32 word) = int i" using unat_frame(3) [OF wf i(1)] by (metis uint_nat)
  ultimately show ?thesis
    using unget_loop_eq [OF i0 n] len i(1) unat_frame(2) [OF wf i(1)]
    by (simp add: ungetppages_def give_block_def)
qed

lemma cm_wf_update:
  assumes "cm_wf st" "length m = cm_size st" "\<forall>i < cm_size st. cme_paddr (m ! i) = cme_paddr (cm_map st ! i)"
    and "length mem = length (cm_mem st)" "\<And>k. cm_ok k (cm_map st) \<Longrightarrow> cm_ok k m"
  shows "cm_wf (st\<lparr>cm_map := m, cm_mem := mem\<rparr>)"
  using assms unfolding cm_wf_def by auto

lemma take_block_wf:
  assumes wf: "cm_wf st" and run: "free_run (cm_map st) n b" "0 < n" and mem: "length mem = length (cm_mem st)"
  shows "cm_wf (st\<lparr>cm_map := take_block b n (cm_map st), cm_mem := mem\<rparr>)"
    "cm_blocks (st\<lparr>cm_map := take_block b n (cm_map st), cm_mem := mem\<rparr>) =
       insert (frame_addr st b, 4096 * n) (cm_blocks st)"
proof -
  let ?m = "cm_map st" and ?m' = "take_block b n (cm_map st)"
  obtain k where k: "cm_ok k ?m" using wf by (auto simp: cm_wf_def)
  have len: "length ?m = cm_size st" using wf by (simp add: cm_wf_def)
  have bn: "b + n \<le> length ?m" "b < length ?m" using run by (auto simp: free_run_def)
  note nth = nth_take_block [OF bn(1) run(2)]
  show "cm_wf (st\<lparr>cm_map := ?m', cm_mem := mem\<rparr>)"
    by (rule cm_wf_update [OF wf]) (use len nth mem take_block_ok run in auto)
  have "cme_size (?m ! i) = 0" if "b \<le> i" "i < b + n" for i
    using that run k bn by (auto simp: free_run_def cm_ok_def entry_ok_def)
  then have "i \<in> heads ?m' \<longleftrightarrow> i = b \<or> i \<in> heads ?m" for i
    using nth [of i] bn run(2) by (cases "i < length ?m") (auto simp: heads_def)
  then have "heads ?m' = insert b (heads ?m)" by blast
  moreover have "cme_size (?m' ! b) = int n" using nth [OF bn(2)] by simp
  moreover have "cme_size (?m' ! i) = cme_size (?m ! i)" if "i \<in> heads ?m" for i
    using take_block_keeps [OF k run _ _ in_block_self [of ?m i]] that by (simp add: heads_def)
  ultimately show "cm_blocks (st\<lparr>cm_map := ?m', cm_mem := mem\<rparr>) = insert (frame_addr st b, 4096 * n) (cm_blocks st)"
    by (simp add: cm_blocks_def frame_addr_def cong: image_cong_simp)
qed

lemma give_block_wf:
  assumes wf: "cm_wf st" and b: "b < cm_size st" "1 \<le> cme_size (cm_map st ! b)"
  shows "cm_wf (st\<lparr>cm_map := give_block b (cm_map st)\<rparr>)"
    "cm_blocks (st\<lparr>cm_map := give_block b (cm_map st)\<rparr>) =
       cm_blocks st - {(frame_addr st b, 4096 * nat (cme_size (cm_map st ! b)))}"
proof -
  let ?m = "cm_map st" and ?m' = "give_block b (cm_map st)"
  obtain k where k: "cm_ok k ?m" using wf by (auto simp: cm_wf_def)
  have len: "length ?m = cm_size st" using wf by (simp add: cm_wf_def)
  note nth = nth_give_block [OF b(2)]
  show "cm_wf (st\<lparr>cm_map := ?m'\<rparr>)"
    using cm_wf_update [OF wf, of ?m' "cm_mem st"] len nth give_block_ok [of _ ?m b] b by simp
  have "1 \<le> cme_size (?m' ! i) \<longleftrightarrow> i \<noteq> b \<and> 1 \<le> cme_size (?m ! i)" if "i < length ?m" for i
  proof (cases "in_block ?m b i \<and> i \<noteq> b")
    case True
    then have "cme_size (?m ! i) = - 1" using head_ok(4) [OF k, of b i] b len by (auto simp: in_block_def)
    then show ?thesis using True nth [OF that] by simp
  next
    case False
    then show ?thesis using nth [OF that] in_block_self [OF b(2)] by auto
  qed
  then have h: "heads ?m' = heads ?m - {b}" by (auto simp: heads_def)
  have "cme_size (?m' ! i) = cme_size (?m ! i)" if "i \<in> heads ?m'" for i
    using nth [of i] that by (auto simp: heads_def split: if_splits)
  then have "cm_blocks (st\<lparr>cm_map := ?m'\<rparr>) =
      (\<lambda>i. (frame_addr st i, 4096 * nat (cme_size (?m ! i)))) ` (heads ?m - {b})"
    unfolding cm_blocks_def h [symmetric] by (simp add: frame_addr_def cong: image_cong_simp)
  also have "\<dots> = cm_blocks st - {(frame_addr st b, 4096 * nat (cme_size (?m ! b)))}"
    unfolding cm_blocks_def by (auto simp: frame_addr_def)
  finally show "cm_blocks (st\<lparr>cm_map := ?m'\<rparr>) =
       cm_blocks st - {(frame_addr st b, 4096 * nat (cme_size (?m ! b)))}" .
qed

section \<open>Setting the coremap up\<close>

lemma make_entries_eq:
  "make_entries km first i n r = Some (es, r') \<Longrightarrow>
     es = map (\<lambda>j. \<lparr>cme_paddr = 4096 * of_nat j + first, cme_use = 0, cme_size = 0\<rparr>) [i..<i + n]"
proof (induction n arbitrary: i r es)
  case (Suc n)
  obtain ok r1 where km: "km 12 r = (ok, r1)" by (cases "km 12 r")
  then obtain es' where es: "make_entries km first (Suc i) n r1 = Some (es', r')"
      "es = \<lparr>cme_paddr = 4096 * of_nat i + first, cme_use = 0, cme_size = 0\<rparr> # es'"
    using Suc.prems by (auto simp: bind_eq_Some_conv)
  have "[i..<i + Suc n] = i # [Suc i..<Suc i + n]" by (simp add: upt_rec [of i])
  then show ?case unfolding es(2) Suc.IH [OF es(1)] by (simp only: list.map)
qed simp

lemma fix_entries_eq:
  "fix_entries free es = map tail_entry (takeWhile (\<lambda>e. cme_paddr e < free) es) @ dropWhile (\<lambda>e. cme_paddr e < free) es"
  by (induction es) (auto simp: tail_entry_def not_le)

lemma fix_entries_ok:
  assumes "\<forall>e \<in> set es. cme_use e = 0 \<and> cme_size e = 0" "es \<noteq> []" "cme_paddr (hd es) < free"
  shows "\<exists>k \<ge> 1. cm_ok k (fix_entries free es)" "\<forall>e \<in> set (fix_entries free es). cme_size e \<le> 0"
    "map cme_paddr (fix_entries free es) = map cme_paddr es"
proof -
  let ?k = "length (takeWhile (\<lambda>e. cme_paddr e < free) es)"
  let ?xs = "takeWhile (\<lambda>e. cme_paddr e < free) es" and ?ys = "dropWhile (\<lambda>e. cme_paddr e < free) es"
  have ys: "\<forall>e \<in> set ?ys. cme_use e = 0 \<and> cme_size e = 0" using assms(1) by (meson set_dropWhileD)
  have "entry_ok ?k (fix_entries free es) i" if "i < length es" for i
  proof (cases "i < ?k")
    case True
    then show ?thesis by (simp add: entry_ok_def fix_entries_eq nth_append)
  next
    case False
    have "length ?xs + length ?ys = length es" by (metis length_append takeWhile_dropWhile_id)
    then have "?ys ! (i - ?k) \<in> set ?ys" using False that by simp
    then show ?thesis using ys False by (simp add: entry_ok_def fix_entries_eq nth_append)
  qed
  moreover have "length (fix_entries free es) = length es"
    by (simp add: fix_entries_eq) (metis length_append takeWhile_dropWhile_id)
  moreover have "1 \<le> ?k" using assms(2,3) by (cases es) simp_all
  ultimately show "\<exists>k \<ge> 1. cm_ok k (fix_entries free es)" by (auto simp: cm_ok_def)
  show "\<forall>e \<in> set (fix_entries free es). cme_size e \<le> 0" using ys by (auto simp: fix_entries_eq)
  have "map cme_paddr (fix_entries free es) = map cme_paddr (?xs @ ?ys)"
    by (simp only: fix_entries_eq map_append) (simp add: comp_def)
  then show "map cme_paddr (fix_entries free es) = map cme_paddr es" by simp
qed

section \<open>What users of physical pages rely on\<close>

text \<open>
  A run of requests: \<open>Get n\<close> asks for \<open>n\<close> pages, \<open>Unget j\<close> gives back the \<open>j\<close>th block still owned.
  The second component is what the callers own, as byte ranges.
\<close>

datatype page_op = Get nat | Unget nat

fun page_run :: "nat \<Rightarrow> (nat \<Rightarrow> 's \<Rightarrow> (nat \<times> 's) option) \<Rightarrow> (nat \<Rightarrow> 's \<Rightarrow> 's option) \<Rightarrow>
    's \<Rightarrow> (nat \<times> nat) list \<Rightarrow> page_op list \<Rightarrow> ('s \<times> (nat \<times> nat) list) option" where
  "page_run ps get unget s own [] = Some (s, own)"
| "page_run ps get unget s own (Get n # ops) = do {
     (a, s1) \<leftarrow> get n s;
     page_run ps get unget s1 (if a = 0 then own else (a, ps * n) # own) ops }"
| "page_run ps get unget s own (Unget j # ops) =
     (if j < length own then do {
        s1 \<leftarrow> unget (fst (own ! j)) s;
        page_run ps get unget s1 (take j own @ drop (Suc j) own) ops }
      else page_run ps get unget s own ops)"

definition apart :: "nat \<times> nat \<Rightarrow> nat \<times> nat \<Rightarrow> bool" where
  "apart x y \<longleftrightarrow> {fst x..<fst x + snd x} \<inter> {fst y..<fst y + snd y} = {}"

lemma remove_nth:
  assumes "distinct xs" "j < length xs"
  shows "set (take j xs @ drop (Suc j) xs) = set xs - {xs ! j}" "distinct (take j xs @ drop (Suc j) xs)"
    "sorted_wrt P xs \<Longrightarrow> sorted_wrt P (take j xs @ drop (Suc j) xs)"
proof -
  have xs: "xs = take j xs @ xs ! j # drop (Suc j) xs" using assms(2) by (rule id_take_nth_drop)
  have d: "distinct (take j xs @ xs ! j # drop (Suc j) xs)" using assms(1) xs by simp
  then show "distinct (take j xs @ drop (Suc j) xs)" by auto
  have "set xs = set (take j xs @ xs ! j # drop (Suc j) xs)" using xs by simp
  then show "set (take j xs @ drop (Suc j) xs) = set xs - {xs ! j}" using d by auto
  assume "sorted_wrt P xs"
  then have "sorted_wrt P (take j xs @ xs ! j # drop (Suc j) xs)" using xs by simp
  then show "sorted_wrt P (take j xs @ drop (Suc j) xs)" by (simp add: sorted_wrt_append)
qed

locale page_allocator =
  fixes psize :: nat
    and limit :: nat
    and get :: "nat \<Rightarrow> 's \<Rightarrow> (nat \<times> 's) option"
    and unget :: "nat \<Rightarrow> 's \<Rightarrow> 's option"
    and blocks :: "'s \<Rightarrow> (nat \<times> nat) set"
    and invar :: "'s \<Rightarrow> bool"
  assumes psize: "0 < psize"
    and get: "invar s \<Longrightarrow> 0 < n \<Longrightarrow> n < limit \<Longrightarrow> get n s = Some (a, s') \<Longrightarrow>
          invar s' \<and> (if a = 0 then blocks s' = blocks s
            else blocks s' = insert (a, psize * n) (blocks s) \<and> (\<forall>x \<in> blocks s. apart (a, psize * n) x))"
    and unget: "invar s \<Longrightarrow> (a, k) \<in> blocks s \<Longrightarrow>
          \<exists>s'. unget a s = Some s' \<and> invar s' \<and> blocks s' = blocks s - {(a, k)}"
begin

lemma run_apart:
  assumes "invar s" "set own = blocks s" "distinct own" "sorted_wrt apart own"
    and "\<forall>n. Get n \<in> set ops \<longrightarrow> 0 < n \<and> n < limit"
    and "page_run psize get unget s own ops = Some (s', own')"
  shows "invar s' \<and> set own' = blocks s' \<and> distinct own' \<and> sorted_wrt apart own'"
  using assms
proof (induction ops arbitrary: s own)
  case (Cons op ops)
  show ?case
  proof (cases op)
    case (Get n)
    obtain a s1 where g: "get n s = Some (a, s1)"
        and run: "page_run psize get unget s1 (if a = 0 then own else (a, psize * n) # own) ops = Some (s', own')"
      using Cons.prems(6) Get by (auto simp: bind_eq_Some_conv)
    have n: "0 < n" "n < limit" using Cons.prems(5) Get by auto
    note law = get [OF Cons.prems(1) n g]
    have new: "a \<noteq> 0 \<Longrightarrow> (a, psize * n) \<notin> blocks s"
      using law psize n(1) by (auto simp: apart_def)
    show ?thesis
      by (rule Cons.IH [OF _ _ _ _ _ run]) (use law new Cons.prems in \<open>auto split: if_splits\<close>)
  next
    case (Unget j)
    show ?thesis
    proof (cases "j < length own")
      case False
      then show ?thesis using Cons Unget by simp
    next
      case True
      then have "(fst (own ! j), snd (own ! j)) \<in> blocks s" using Cons.prems(2) nth_mem by force
      from unget [OF Cons.prems(1) this] obtain s1 where u: "unget (fst (own ! j)) s = Some s1" "invar s1"
          "blocks s1 = blocks s - {own ! j}" by auto
      have run: "page_run psize get unget s1 (take j own @ drop (Suc j) own) ops = Some (s', own')"
        using Cons.prems(6) Unget True u(1) by simp
      show ?thesis
        by (rule Cons.IH [OF u(2) _ _ _ _ run]) (use remove_nth [OF Cons.prems(3) True] u(3) Cons.prems in auto)
    qed
  qed
qed simp

text \<open>Giving a fresh block straight back leaves what was allocated before.\<close>

lemma get_unget:
  assumes "invar s" "0 < n" "n < limit" "get n s = Some (a, s1)" "a \<noteq> 0"
  shows "\<exists>s2. unget a s1 = Some s2 \<and> invar s2 \<and> blocks s2 = blocks s"
proof -
  note law = get [OF assms(1-4)]
  have "(a, psize * n) \<notin> blocks s" using law assms(2,5) psize by (auto simp: apart_def)
  moreover have "(a, psize * n) \<in> blocks s1" "invar s1" using law assms(5) by auto
  ultimately show ?thesis using unget [of s1 a "psize * n"] law assms(5) by auto
qed

end

definition get_frames :: "nat \<Rightarrow> coremap \<Rightarrow> (nat \<times> coremap) option" where
  "get_frames n st = map_option (\<lambda>(a, st'). (unat a, st')) (getppages (of_nat n) st)"

definition unget_frames :: "nat \<Rightarrow> coremap \<Rightarrow> coremap option" where
  "unget_frames a st = ungetppages (of_nat a) st"

lemma run_apart_head:
  assumes "cm_wf st" "free_run (cm_map st) n b" "0 < n" "i \<in> heads (cm_map st)"
  shows "apart (frame_addr st b, 4096 * n) (frame_addr st i, 4096 * nat (cme_size (cm_map st ! i)))"
proof -
  let ?m = "cm_map st"
  obtain k where k: "cm_ok k ?m" using assms(1) by (auto simp: cm_wf_def)
  have i: "i < length ?m" "1 \<le> cme_size (?m ! i)" using assms(4) by (auto simp: heads_def)
  have free: "cme_use (?m ! j) = 0" if "b \<le> j" "j < b + n" for j using assms(2) that by (simp add: free_run_def)
  have "b + n \<le> i \<or> i + nat (cme_size (?m ! i)) \<le> b"
  proof (rule ccontr)
    assume "\<not> ?thesis"
    then have c: "i < b + n" "b < i + nat (cme_size (?m ! i))" by simp_all
    show False
    proof (cases "b \<le> i")
      case True
      then show ?thesis using free [OF True c(1)] head_ok(2) [OF k i] by simp
    next
      case False
      then have "in_block ?m i b" using c(2) i(2) by (simp add: in_block_def)
      then show ?thesis using False head_ok(4) [OF k i, of b] free [of b] assms(3) by simp
    qed
  qed
  then show ?thesis by (auto simp: apart_def frame_addr_def)
qed

lemma getppages_law:
  assumes wf: "cm_wf st" and n: "0 < unat npages" and g: "getppages npages st = Some (a, st')"
  shows "cm_wf st' \<and> (if a = 0 then st' = st
     else cm_blocks st' = insert (unat a, 4096 * unat npages) (cm_blocks st) \<and>
          (\<forall>x \<in> cm_blocks st. apart (unat a, 4096 * unat npages) x))"
proof (cases "\<exists>s. free_run (cm_map st) (unat npages) s")
  case True
  then obtain s where s: "free_run (cm_map st) (unat npages) s" ..
  define b where "b = (LEAST s. free_run (cm_map st) (unat npages) s)"
  have fr: "free_run (cm_map st) (unat npages) b" unfolding b_def by (rule LeastI) (rule s)
  have b: "b < cm_size st" "b + unat npages \<le> cm_size st" using fr n wf by (auto simp: free_run_def cm_wf_def)
  let ?mem = "take (frame_addr st b) (cm_mem st) @ replicate (4096 * unat npages) 0 @
                  drop (frame_addr st b + 4096 * unat npages) (cm_mem st)"
  have eq: "a = cm_firstaddr st + 4096 * of_nat b"
      "st' = st\<lparr>cm_map := take_block b (unat npages) (cm_map st), cm_mem := ?mem\<rparr>"
    using getppages_eq [OF wf refl n s b_def] g by simp_all
  have "frame_addr st b + 4096 * unat npages \<le> length (cm_mem st)"
    using wf b by (auto simp: cm_wf_def frame_addr_def)
  then have "length ?mem = length (cm_mem st)" by simp
  note tb = take_block_wf [OF wf fr n this]
  have "unat a = frame_addr st b" "a \<noteq> 0" using unat_frame [OF wf b(1)] eq(1) by simp_all
  then show ?thesis
    using tb run_apart_head [OF wf fr n] unfolding eq(2) by (auto simp: cm_blocks_def)
next
  case False
  have "cm_map st \<noteq> []" "cm_bootstrapped st" using wf by (auto simp: cm_wf_def)
  then have "a = 0" "st' = st"
    using g find_block_spec [OF n, of "cm_map st"] False by (auto simp: getppages_def split: if_splits)
  then show ?thesis using wf by simp
qed

interpretation cm: page_allocator 4096 "2 ^ 32" get_frames unget_frames cm_blocks cm_wf
proof
  show "0 < (4096 :: nat)" by simp
  show "cm_wf s' \<and> (if a = 0 then cm_blocks s' = cm_blocks s
            else cm_blocks s' = insert (a, 4096 * n) (cm_blocks s) \<and> (\<forall>x \<in> cm_blocks s. apart (a, 4096 * n) x))"
    if g: "cm_wf s" "0 < n" "n < 2 ^ 32" "get_frames n s = Some (a, s')" for s n a s'
  proof -
    obtain w where w: "getppages (of_nat n) s = Some (w, s')" "a = unat w"
      using g(4) by (auto simp: get_frames_def)
    have un: "unat (of_nat n :: 32 word) = n" using g(3) by (rule unat_of_nat_32)
    show ?thesis using getppages_law [OF g(1) _ w(1), unfolded un, OF g(2)] w(2) by (auto simp: unat_eq_0)
  qed
  show "\<exists>s'. unget_frames a s = Some s' \<and> cm_wf s' \<and> cm_blocks s' = cm_blocks s - {(a, k)}"
    if u: "cm_wf s" "(a, k) \<in> cm_blocks s" for s a k
  proof -
    obtain i where i: "i \<in> heads (cm_map s)" "a = frame_addr s i" "k = 4096 * nat (cme_size (cm_map s ! i))"
      using u(2) by (auto simp: cm_blocks_def)
    have b: "i < cm_size s" "1 \<le> cme_size (cm_map s ! i)" using i(1) u(1) by (auto simp: heads_def cm_wf_def)
    have "of_nat a = cm_firstaddr s + 4096 * of_nat i" by (simp add: i(2) flip: unat_frame(1) [OF u(1) b(1)])
    then show ?thesis
      using ungetppages_eq [OF u(1) b] give_block_wf [OF u(1) b] i(2,3) by (simp add: unget_frames_def)
  qed
qed

section \<open>Properties\<close>

text \<open>
  A small machine for the concrete instances: four frames from address 4096 on, the first two
  holding the kernel, the other two free.
\<close>

definition wit_coremap :: coremap where
  "wit_coremap = \<lparr>cm_ram = \<lparr>firstpaddr = 12288, lastpaddr = 20480\<rparr>, cm_size = 4, cm_firstaddr = 4096,
     cm_lastaddr = 20480, cm_freeaddr = 12288, cm_bootstrapped = True,
     cm_map = [\<lparr>cme_paddr = 4096, cme_use = 1, cme_size = - 1\<rparr>, \<lparr>cme_paddr = 8192, cme_use = 1, cme_size = - 1\<rparr>,
               \<lparr>cme_paddr = 12288, cme_use = 0, cme_size = 0\<rparr>, \<lparr>cme_paddr = 16384, cme_use = 0, cme_size = 0\<rparr>],
     cm_mem = replicate 20480 7\<rparr>"

lemma wit_coremap_map: "length (cm_map wit_coremap) = 4" "cm_map wit_coremap ! 0 = \<lparr>cme_paddr = 4096, cme_use = 1, cme_size = - 1\<rparr>"
  "cm_map wit_coremap ! 1 = \<lparr>cme_paddr = 8192, cme_use = 1, cme_size = - 1\<rparr>"
  "cm_map wit_coremap ! 2 = \<lparr>cme_paddr = 12288, cme_use = 0, cme_size = 0\<rparr>"
  "cm_map wit_coremap ! 3 = \<lparr>cme_paddr = 16384, cme_use = 0, cme_size = 0\<rparr>"
  by (simp_all add: wit_coremap_def)

lemma less_4: "i < (4 :: nat) \<longleftrightarrow> i = 0 \<or> i = 1 \<or> i = 2 \<or> i = 3"
  by linarith

lemma wit_coremap_wf: "cm_wf wit_coremap"
proof -
  have "entry_ok 2 (cm_map wit_coremap) 0" "entry_ok 2 (cm_map wit_coremap) 1" "entry_ok 2 (cm_map wit_coremap) 2"
      "entry_ok 2 (cm_map wit_coremap) 3"
    unfolding entry_ok_def wit_coremap_map by simp_all
  then have "cm_ok 2 (cm_map wit_coremap)" unfolding cm_ok_def wit_coremap_map less_4 by blast
  then have ok: "\<exists>k \<ge> 1. cm_ok k (cm_map wit_coremap)" by (intro exI [of _ 2]) simp
  have "cme_paddr (cm_map wit_coremap ! i) = 4096 + 4096 * of_nat i" if "i < 4" for i
    using that unfolding less_4 by (elim disjE) (simp_all only: wit_coremap_map, simp_all)
  moreover have "cm_size wit_coremap = 4" "cm_firstaddr wit_coremap = 4096" "cm_bootstrapped wit_coremap"
      "length (cm_mem wit_coremap) = 20480" by (simp_all add: wit_coremap_def)
  ultimately show ?thesis using ok by (simp add: cm_wf_def wit_coremap_map(1))
qed

lemma wit_coremap_run: "free_run (cm_map wit_coremap) 2 2" "(LEAST s. free_run (cm_map wit_coremap) 2 s) = 2"
proof -
  show r: "free_run (cm_map wit_coremap) 2 2"
    unfolding free_run_def
  proof (intro conjI allI impI)
    fix j :: nat
    assume "2 \<le> j \<and> j < 2 + 2"
    then have "j = 2 \<or> j = 3" by linarith
    then show "frame_free (cm_map wit_coremap) j" using wit_coremap_map by auto
  qed (simp add: wit_coremap_map)
  have "\<not> free_run (cm_map wit_coremap) 2 s" if "s < 2" for s
  proof -
    have "s \<le> 1 \<and> 1 < s + 2" using that by linarith
    moreover have "\<not> frame_free (cm_map wit_coremap) 1" by (simp add: wit_coremap_def)
    ultimately show ?thesis unfolding free_run_def by blast
  qed
  then show "(LEAST s. free_run (cm_map wit_coremap) 2 s) = 2"
    using r by (intro Least_equality) (auto simp: not_less [symmetric])
qed

text \<open>
  Claim C26: \<^verbatim>\<open>getppages\<close> is first fit. On a well-formed coremap a request for at least one page returns
  the lowest run of free frames, clears those bytes and no others, and marks the run as one block;
  with no run long enough it returns 0 and changes nothing when the last frame is in use, and
  otherwise reads the entry after the end of the coremap.
\<close>

theorem getppages_first_fit:
  assumes "cm_wf st" "n = unat npages" "0 < n"
  shows "getppages npages st =
     (if \<exists>s. free_run (cm_map st) n s then
        let b = (LEAST s. free_run (cm_map st) n s) in
        Some (cm_firstaddr st + 4096 * of_nat b,
          st\<lparr>cm_map := take_block b n (cm_map st),
             cm_mem := take (frame_addr st b) (cm_mem st) @ replicate (4096 * n) 0 @
                       drop (frame_addr st b + 4096 * n) (cm_mem st)\<rparr>)
      else if frame_free (cm_map st) (cm_size st - 1) then None else Some (0, st))"
proof (cases "\<exists>s. free_run (cm_map st) n s")
  case True
  then show ?thesis using getppages_eq [OF assms _ refl] by (auto simp: Let_def)
next
  case False
  have st: "cm_map st \<noteq> []" "cm_bootstrapped st" "length (cm_map st) = cm_size st"
    using assms(1) by (auto simp: cm_wf_def)
  show ?thesis
    using find_block_spec [OF assms(3) st(1)] False st(2,3) assms(2) by (simp add: getppages_def)
qed

theorem getppages_first_fit_witness:
  "getppages 2 wit_coremap = Some (12288, wit_coremap\<lparr>cm_map := take_block 2 2 (cm_map wit_coremap),
     cm_mem := replicate 12288 7 @ replicate 8192 0\<rparr>)"
  using getppages_first_fit [OF wit_coremap_wf, of 2 2] wit_coremap_run
  by (auto simp: Let_def frame_addr_def) (auto simp: wit_coremap_def)

text \<open>
  Claim C4: no frame ever belongs to two owners. Starting from a coremap with no block given out,
  after any sequence of requests and releases the blocks the callers hold are exactly the blocks the
  coremap records, and no two of them overlap.
\<close>

theorem coremap_blocks_stay_apart:
  assumes "cm_wf st" "cm_blocks st = {}" "\<forall>n. Get n \<in> set ops \<longrightarrow> 0 < n \<and> n < 2 ^ 32"
    and "page_run 4096 get_frames unget_frames st [] ops = Some (st', own)"
  shows "cm_wf st' \<and> set own = cm_blocks st' \<and> distinct own \<and> sorted_wrt apart own"
  using cm.run_apart [OF assms(1) _ _ _ assms(3,4)] assms(2) by simp

theorem coremap_blocks_stay_apart_witness:
  "\<exists>st'. page_run 4096 get_frames unget_frames wit_coremap [] [Get 2] = Some (st', [(12288, 8192)]) \<and>
     cm_wf st' \<and> cm_blocks st' = {(12288, 8192)}"
proof -
  have "cme_size (cm_map wit_coremap ! i) \<le> 0" if "i < 4" for i
    using that unfolding less_4 by (elim disjE) (simp_all only: wit_coremap_map, simp_all)
  then have "cm_blocks wit_coremap = {}"
    unfolding cm_blocks_def heads_def wit_coremap_map(1) by force
  note law = coremap_blocks_stay_apart [OF wit_coremap_wf this, of "[Get 2]"]
  have "\<exists>st'. getppages 2 wit_coremap = Some (12288, st')"
    using getppages_eq [OF wit_coremap_wf _ _ wit_coremap_run(1) refl, of 2] wit_coremap_run(2)
    by (simp add: wit_coremap_def)
  then obtain st' where "getppages 2 wit_coremap = Some (12288, st')" ..
  then have "page_run 4096 get_frames unget_frames wit_coremap [] [Get 2] = Some (st', [(12288, 8192)])"
    by (simp add: get_frames_def)
  then show ?thesis using law by auto
qed

text \<open>
  Claim C27: releasing a block straight after it was given out restores the coremap, entry by entry.
\<close>

theorem getppages_ungetppages:
  assumes "cm_wf st" "npages \<noteq> 0" "getppages npages st = Some (a, st1)" "a \<noteq> 0"
  shows "\<exists>st2. ungetppages a st1 = Some st2 \<and> cm_map st2 = cm_map st"
proof -
  define n where "n = unat npages"
  let ?m = "cm_map st"
  have n: "0 < n" using assms(2) by (simp add: unat_gt_0 n_def)
  have st: "?m \<noteq> []" "cm_bootstrapped st" "length ?m = cm_size st" using assms(1) by (auto simp: cm_wf_def)
  have "\<exists>s. free_run ?m n s"
    using assms(3,4) find_block_spec [OF n st(1)] st(2) by (auto simp: getppages_def n_def split: if_splits)
  then obtain s where s: "free_run ?m n s" ..
  define b where "b = (LEAST s. free_run ?m n s)"
  have fr: "free_run ?m n b" unfolding b_def by (rule LeastI) (rule s)
  have b: "b < cm_size st" "b + n \<le> length ?m" using fr n st(3) by (auto simp: free_run_def)
  have g: "a = cm_firstaddr st + 4096 * of_nat b" "cm_map st1 = take_block b n ?m" "cm_firstaddr st1 = cm_firstaddr st"
      "cm_size st1 = cm_size st"
    using getppages_eq [OF assms(1) n_def n s b_def] assms(3) by auto
  have wf: "cm_wf st1" using getppages_law [OF assms(1) n [unfolded n_def] assms(3)] by simp
  have nth: "take_block b n ?m ! i = (if i = b then (?m ! b)\<lparr>cme_use := 1, cme_size := int n\<rparr>
      else if b < i \<and> i < b + n then tail_entry (?m ! i) else ?m ! i)" if "i < length ?m" for i
    using nth_take_block [OF b(2) n that] .
  have hd: "cme_size (cm_map st1 ! b) = int n" using nth [of b] b(1) st(3) g(2) by simp
  have "ungetppages a st1 = Some (st1\<lparr>cm_map := give_block b (cm_map st1)\<rparr>)"
    using ungetppages_eq [OF wf, of b] hd n b(1) g by simp
  moreover have "give_block b (cm_map st1) ! i = ?m ! i" if "i < length ?m" for i
  proof -
    have "?m ! i = free_entry (?m ! i)" if "b \<le> i" "i < b + n"
    proof -
      obtain k where "entry_ok k ?m i" using assms(1) \<open>i < length ?m\<close> by (auto simp: cm_wf_def cm_ok_def)
      then show ?thesis using fr that by (simp add: free_run_def entry_ok_def free_entry_def)
    qed
    then show ?thesis
      using that nth [OF that] nth [of b] b st(3) hd n unfolding g(2)
      by (auto simp: give_block_def free_entry_def tail_entry_def)
  qed
  then have "give_block b (cm_map st1) = ?m" using g(2) by (intro nth_equalityI) simp_all
  ultimately show ?thesis by simp
qed

theorem getppages_ungetppages_witness:
  "\<exists>st1 st2. getppages 2 wit_coremap = Some (12288, st1) \<and> ungetppages 12288 st1 = Some st2 \<and>
     cm_map st2 = cm_map wit_coremap"
proof -
  have "\<exists>st1. getppages 2 wit_coremap = Some (12288, st1)"
    using getppages_eq [OF wit_coremap_wf _ _ wit_coremap_run(1) refl, of 2] wit_coremap_run(2)
    by (simp add: wit_coremap_def)
  then obtain st1 where "getppages 2 wit_coremap = Some (12288, st1)" ..
  then show ?thesis using getppages_ungetppages [OF wit_coremap_wf _ _, of 2 12288 st1] by auto
qed

text \<open>
  \<^verbatim>\<open>ungetppages\<close> stops the kernel on an address that is no block. The address 0, which is the
  stack base of an address space made by \<^verbatim>\<open>as_create\<close>, indexes outside the coremap; for the first frame
  the unsigned loop variable wraps below zero and the loop runs off the array.
\<close>

lemma ungetppages_stray_address:
  assumes "cm_wf st"
  shows "ungetppages 0 st = None \<and> ungetppages (cm_firstaddr st) st = None"
proof -
  have st: "length (cm_map st) = cm_size st" "0 < unat (cm_firstaddr st)" "cm_size st < 2 ^ 32"
      "unat (cm_firstaddr st) + 4096 * cm_size st < 2 ^ 32"
    using assms by (auto simp: cm_wf_def)
  have "unat (0 - cm_firstaddr st) = 2 ^ 32 - unat (cm_firstaddr st)"
    using st(2) unat_sub_if' [of 0 "cm_firstaddr st"] by simp
  then have "unat ((0 - cm_firstaddr st) div 4096) = (2 ^ 32 - unat (cm_firstaddr st)) div 4096"
    by (simp only: unat_div) simp
  moreover have "cm_size st \<le> (2 ^ 32 - unat (cm_firstaddr st)) div 4096"
    using st(4) by (simp add: less_eq_div_iff_mult_less_eq)
  ultimately have "int (cm_size st) \<le> uint ((0 - cm_firstaddr st) div 4096)" by (metis of_nat_le_iff uint_nat)
  then have "cell (cm_map st) (uint ((0 - cm_firstaddr st) div 4096)) = None" using st(1) by (simp add: cell_def)
  then have a: "ungetppages 0 st = None" by (simp add: ungetppages_def)
  have top: "uint (- 1 :: 32 word) = 2 ^ 32 - 1" by (simp add: unsigned_minus_1_eq_mask mask_eq_exp_minus_1)
  have loop: "unget_loop 0 (of_nat n) m = None" if "n < 2 ^ 32" "length m < 2 ^ 32" for n m
    using that
  proof (induction n arbitrary: m)
    case 0
    have "unget_loop 0 (- 1) m = None" if "length m < 2 ^ 32" for m
      using that top unfolding unget_loop.simps [of 0 "- 1"] by (simp add: cell_def)
    then show ?case using 0 unfolding unget_loop.simps [of 0 "of_nat 0"] by (auto simp: cell_def set_cell_def)
  next
    case (Suc n)
    then show ?case unfolding unget_loop.simps [of 0 "of_nat (Suc n)"] by (auto simp: cell_def set_cell_def)
  qed
  have "unget_loop 0 w (cm_map st) = None" for w
  proof -
    have "unat w < 2 ^ 32" using unsigned_less [of w, where 'a = nat] by simp
    then show ?thesis using loop [of "unat w" "cm_map st"] st(1,3) by simp
  qed
  then have "ungetppages (cm_firstaddr st) st = None" by (simp add: ungetppages_def bind_eq_None_conv)
  with a show ?thesis ..
qed

lemma ungetppages_stray_address_witness:
  "ungetppages 0 wit_coremap = None \<and> ungetppages 4096 wit_coremap = None"
  using ungetppages_stray_address [OF wit_coremap_wf] by (simp add: wit_coremap_def)

text \<open>
  \<^verbatim>\<open>ram_stealmem\<close> is exact as long as the size does not wrap. It then reserves the pages when
  they fit below the end of memory and reports 0 otherwise; but for a request of \<open>2 ^ 20\<close> pages the
  32-bit size is 0, and it returns the first free address without reserving anything.
\<close>

lemma ram_stealmem_bounds:
  assumes "unat (firstpaddr r) + 4096 * unat npages < 2 ^ 32" "firstpaddr r \<le> lastpaddr r"
  shows "ram_stealmem npages r =
       (if unat (firstpaddr r) + 4096 * unat npages \<le> unat (lastpaddr r)
        then (firstpaddr r, r\<lparr>firstpaddr := of_nat (unat (firstpaddr r) + 4096 * unat npages)\<rparr>) else (0, r)) \<and>
     ram_stealmem (2 ^ 20) r = (firstpaddr r, r)"
proof -
  have "unat (npages * 4096) = 4096 * unat npages"
    using unat_of_nat_32 [of "4096 * unat npages"] assms(1) by (simp add: mult.commute)
  then have u: "unat (firstpaddr r + npages * 4096) = unat (firstpaddr r) + 4096 * unat npages"
    using unat_add_32 [of "firstpaddr r" "npages * 4096"] assms(1) by simp
  then have "lastpaddr r < firstpaddr r + npages * 4096 \<longleftrightarrow> \<not> unat (firstpaddr r) + 4096 * unat npages \<le> unat (lastpaddr r)"
    by (simp only: word_less_nat_alt not_le)
  moreover have "firstpaddr r + npages * 4096 = of_nat (unat (firstpaddr r) + 4096 * unat npages)"
    by (simp flip: u)
  moreover have "2 ^ 20 * 4096 = (0 :: 32 word)" by simp
  ultimately show ?thesis unfolding ram_stealmem_def Let_def using assms(2) by (simp only: leD if_False) (simp add: leD)
qed

lemma ram_stealmem_bounds_witness:
  "ram_stealmem 3 \<lparr>firstpaddr = 4096, lastpaddr = 20480\<rparr> = (4096, \<lparr>firstpaddr = 16384, lastpaddr = 20480\<rparr>) \<and>
   ram_stealmem (2 ^ 20) \<lparr>firstpaddr = 4096, lastpaddr = 20480\<rparr> = (4096, \<lparr>firstpaddr = 4096, lastpaddr = 20480\<rparr>)"
  using ram_stealmem_bounds [of "\<lparr>firstpaddr = 4096, lastpaddr = 20480\<rparr>" 3] by simp



end
