(* ===== verification/Kern_Thread.thy ===== *)
theory Kern_Thread
  imports Kern_Array Kern_Queue "HOL-Library.Multiset"
begin

text \<open>
  The core thread system and the scheduler: \<^verbatim>\<open>kern/thread/thread.c\<close> and
  \<^verbatim>\<open>kern/thread/scheduler.c\<close>. Threads, sleep addresses, address spaces and vnodes are named by
  numbers. A context switch is split where the code splits it: what the old thread does up to
  \<^verbatim>\<open>md_switch\<close>, and what the resumed thread does after it.
\<close>

section \<open>Data\<close>

datatype threadstate = S_RUN | S_READY | S_SLEEP | S_ZOMB

text \<open>\<^verbatim>\<open>struct thread\<close>; of the stack only the four magic bytes at its low end are kept.\<close>

record thread =
  t_sleepaddr :: "nat option"
  t_stack :: "8 word list option"
  t_vmspace :: "nat option"
  t_cwd :: "nat option"

text \<open>
  The globals of the two files: \<^verbatim>\<open>curthread\<close>, \<^verbatim>\<open>sleepers\<close>, \<^verbatim>\<open>zombies\<close>,
  \<^verbatim>\<open>numthreads\<close>, \<^verbatim>\<open>runqueue\<close> and \<^verbatim>\<open>curspl\<close>, with the thread structures and the
  reference counts of the current directories.
\<close>

record tsys =
  ts_cur :: "nat option"
  ts_sleepers :: "nat karray"
  ts_zombies :: "nat karray"
  ts_num :: int
  ts_run :: "nat kqueue"
  ts_spl :: int
  ts_thr :: "nat \<Rightarrow> thread option"
  ts_vref :: "nat \<Rightarrow> int"

section \<open>The scheduler\<close>

definition scheduler_bootstrap :: "bool \<Rightarrow> bool \<Rightarrow> nat kqueue option" where
  "scheduler_bootstrap ok1 ok2 = q_create ok1 ok2 32"

definition scheduler_preallocate :: "bool \<Rightarrow> int \<Rightarrow> tsys \<Rightarrow> ((errno + unit) \<times> tsys) option" where
  "scheduler_preallocate ok nthreads st = do {
     kassert (ts_spl st > 0);
     (r, q) \<leftarrow> q_preallocate ok (ts_run st) nthreads;
     Some (r, st\<lparr>ts_run := q\<rparr>) }"

text \<open>The threads dropped, in order.\<close>

partial_function (option) drop_all :: "nat kqueue \<Rightarrow> (nat list \<times> nat kqueue) option" where
  "drop_all q =
     (if \<not> q_empty q then do {
        (t, q1) \<leftarrow> q_remhead q;
        (ts, q2) \<leftarrow> drop_all q1;
        Some (t # ts, q2) }
      else Some ([], q))"

declare drop_all.simps [code]

definition scheduler_killall :: "tsys \<Rightarrow> (nat list \<times> tsys) option" where
  "scheduler_killall st = do {
     kassert (ts_spl st > 0);
     (ts, q) \<leftarrow> drop_all (ts_run st);
     Some (ts, st\<lparr>ts_run := q\<rparr>) }"

definition scheduler_shutdown :: "tsys \<Rightarrow> (nat list \<times> queue_block list \<times> tsys) option" where
  "scheduler_shutdown st = do {
     (ts, st1) \<leftarrow> scheduler_killall st;
     kassert (ts_spl st1 > 0);
     blocks \<leftarrow> q_destroy (ts_run st1);
     Some (ts, blocks, st1) }"

text \<open>
  \<^verbatim>\<open>scheduler\<close>; \<open>idle\<close> is \<^verbatim>\<open>cpu_idle\<close>, machine-dependent code during which interrupts may make a
  thread runnable.
\<close>

partial_function (option) scheduler :: "(tsys \<Rightarrow> tsys) \<Rightarrow> tsys \<Rightarrow> (nat \<times> tsys) option" where
  "scheduler idle st = do {
     kassert (ts_spl st > 0);
     if q_empty (ts_run st) then scheduler idle (idle st)
     else do {
       (t, q) \<leftarrow> q_remhead (ts_run st);
       Some (t, st\<lparr>ts_run := q\<rparr>) } }"

declare scheduler.simps [code]

definition make_runnable :: "bool \<Rightarrow> nat \<Rightarrow> tsys \<Rightarrow> ((errno + unit) \<times> tsys) option" where
  "make_runnable ok t st = do {
     kassert (ts_spl st > 0);
     (r, q) \<leftarrow> q_addtail ok (ts_run st) t;
     Some (r, st\<lparr>ts_run := q\<rparr>) }"

section \<open>Threads\<close>

definition thread_create :: "bool \<Rightarrow> bool \<Rightarrow> thread option" where
  "thread_create ok okname =
     (if \<not> ok then None
      else if \<not> okname then None
      else Some \<lparr>t_sleepaddr = None, t_stack = None, t_vmspace = None, t_cwd = None\<rparr>)"

definition thread_destroy :: "nat \<Rightarrow> tsys \<Rightarrow> tsys option" where
  "thread_destroy t st = do {
     kassert (Some t \<noteq> ts_cur st);
     th \<leftarrow> ts_thr st t;
     kassert (t_vmspace th = None);
     kassert (t_cwd th = None);
     Some (st\<lparr>ts_thr := (ts_thr st)(t := None)\<rparr>) }"

fun exorcise_loop :: "nat \<Rightarrow> int \<Rightarrow> tsys \<Rightarrow> tsys option" where
  "exorcise_loop 0 i st = Some st"
| "exorcise_loop (Suc n) i st = do {
     z \<leftarrow> array_getguy (ts_zombies st) i;
     kassert (Some z \<noteq> ts_cur st);
     st' \<leftarrow> thread_destroy z st;
     exorcise_loop n (i + 1) st' }"

definition exorcise :: "tsys \<Rightarrow> tsys option" where
  "exorcise st = do {
     kassert (ts_spl st > 0);
     st1 \<leftarrow> exorcise_loop (nat (array_getnum (ts_zombies st))) 0 st;
     (result, z) \<leftarrow> array_setsize False (ts_zombies st1) 0;
     kassert (result = Inr ());
     Some (st1\<lparr>ts_zombies := z\<rparr>) }"

text \<open>The loop of \<^verbatim>\<open>thread_killall\<close> reads the name of every sleeper to print it.\<close>

fun name_sleepers :: "nat \<Rightarrow> int \<Rightarrow> tsys \<Rightarrow> nat list option" where
  "name_sleepers 0 i st = Some []"
| "name_sleepers (Suc n) i st = do {
     t \<leftarrow> array_getguy (ts_sleepers st) i;
     th \<leftarrow> ts_thr st t;
     ts \<leftarrow> name_sleepers n (i + 1) st;
     Some (t # ts) }"

definition thread_killall :: "tsys \<Rightarrow> tsys option" where
  "thread_killall st = do {
     kassert (ts_spl st > 0);
     dropped \<leftarrow> name_sleepers (nat (array_getnum (ts_sleepers st))) 0 st;
     (result, s) \<leftarrow> array_setsize False (ts_sleepers st) 0;
     kassert (result = Inr ());
     Some (st\<lparr>ts_sleepers := s\<rparr>) }"

definition thread_panic :: "tsys \<Rightarrow> (nat list \<times> tsys) option" where
  "thread_panic st = do {
     kassert (ts_spl st > 0);
     st1 \<leftarrow> thread_killall st;
     scheduler_killall st1 }"

definition one_thread_only :: "tsys \<Rightarrow> bool" where
  "one_thread_only st = (ts_num st = 1)"

definition thread_bootstrap ::
    "bool \<Rightarrow> bool \<Rightarrow> bool \<Rightarrow> bool \<Rightarrow> nat \<Rightarrow> tsys \<Rightarrow> tsys option" where
  "thread_bootstrap oks okz okt okn me st = do {
     sl \<leftarrow> array_create oks;
     z \<leftarrow> array_create okz;
     th \<leftarrow> thread_create okt okn;
     Some (st\<lparr>ts_sleepers := sl, ts_zombies := z, ts_thr := (ts_thr st)(me \<mapsto> th), ts_cur := Some me,
              ts_num := 1\<rparr>) }"

text \<open>The blocks freed.\<close>

definition thread_shutdown :: "tsys \<Rightarrow> array_block list" where
  "thread_shutdown st = array_destroy (ts_sleepers st) @ array_destroy (ts_zombies st)"

definition stack_magic :: "8 word list" where
  "stack_magic = [0xae, 0x11, 0xda, 0x33]"

text \<open>
  \<^verbatim>\<open>thread_fork\<close>. \<open>t\<close> is the address of the new structure; \<open>ascopy\<close> is what \<^verbatim>\<open>as_copy\<close> returns,
  used when the caller has an address space.
\<close>

record fork_allocs =
  fa_thread :: bool
  fa_name :: bool
  fa_stack :: bool
  fa_sleepers :: bool
  fa_zombies :: bool
  fa_run :: bool
  fa_runnable :: bool

definition fork_fail :: "nat \<Rightarrow> tsys \<Rightarrow> tsys" where
  "fork_fail t st =
     (case ts_thr st t of
        None \<Rightarrow> st
      | Some th \<Rightarrow>
          (case t_cwd th of
             None \<Rightarrow> st
           | Some v \<Rightarrow> st\<lparr>ts_vref := (ts_vref st)(v := ts_vref st v - 1)\<rparr>)\<lparr>ts_thr := (ts_thr st)(t := None)\<rparr>)"

definition fork_reserve :: "fork_allocs \<Rightarrow> nat \<Rightarrow> tsys \<Rightarrow> ((errno + unit) \<times> tsys) option" where
  "fork_reserve fa t st = do {
     (r1, sl) \<leftarrow> array_preallocate (fa_sleepers fa) (ts_sleepers st) (ts_num st + 1);
     let st1 = st\<lparr>ts_sleepers := sl\<rparr>;
     (case r1 of Inl e \<Rightarrow> Some (Inl e, st1) | Inr _ \<Rightarrow> do {
       (r2, z) \<leftarrow> array_preallocate (fa_zombies fa) (ts_zombies st1) (ts_num st1 + 1);
       let st2 = st1\<lparr>ts_zombies := z\<rparr>;
       (case r2 of Inl e \<Rightarrow> Some (Inl e, st2) | Inr _ \<Rightarrow> do {
         (r3, st3) \<leftarrow> scheduler_preallocate (fa_run fa) (ts_num st2 + 1) st2;
         (case r3 of Inl e \<Rightarrow> Some (Inl e, st3) | Inr _ \<Rightarrow> do {
           (r4, st4) \<leftarrow> make_runnable (fa_runnable fa) t st3;
           (case r4 of Inl e \<Rightarrow> Some (Inl e, st4)
            | Inr _ \<Rightarrow> Some (Inr (), st4\<lparr>ts_num := ts_num st4 + 1\<rparr>)) }) }) }) }"

definition thread_fork ::
    "fork_allocs \<Rightarrow> (errno + nat) \<Rightarrow> nat \<Rightarrow> tsys \<Rightarrow> ((errno + nat) \<times> tsys) option" where
  "thread_fork fa ascopy t st = (case thread_create (fa_thread fa) (fa_name fa) of
     None \<Rightarrow> Some (Inl ENOMEM, st)
   | Some th \<Rightarrow>
       if \<not> fa_stack fa then Some (Inl ENOMEM, st)
       else do {
         me \<leftarrow> ts_cur st;
         cth \<leftarrow> ts_thr st me;
         let th1 = th\<lparr>t_stack := Some stack_magic, t_cwd := t_cwd cth\<rparr>;
         let st1 = (case t_cwd cth of None \<Rightarrow> st
                    | Some v \<Rightarrow> st\<lparr>ts_vref := (ts_vref st)(v := ts_vref st v + 1)\<rparr>);
         (case (if t_vmspace cth = None then Inr None else map_sum id Some ascopy) of
            Inl e \<Rightarrow> Some (Inl e, st1\<lparr>ts_thr := (ts_thr st1)(t \<mapsto> th1)\<rparr>)
          | Inr vm \<Rightarrow> do {
              let st2 = st1\<lparr>ts_thr := (ts_thr st1)(t \<mapsto> th1\<lparr>t_vmspace := vm\<rparr>)\<rparr>;
              let spl = ts_spl st2;
              (r, st3) \<leftarrow> fork_reserve fa t (st2\<lparr>ts_spl := 15\<rparr>);
              let st4 = st3\<lparr>ts_spl := spl\<rparr>;
              (case r of
                 Inl e \<Rightarrow> Some (Inl e, fork_fail t st4)
               | Inr _ \<Rightarrow> Some (Inr t, st4)) }) })"

definition check_magic :: "nat \<Rightarrow> tsys \<Rightarrow> unit option" where
  "check_magic t st = do {
     th \<leftarrow> ts_thr st t;
     kassert (case t_stack th of None \<Rightarrow> True | Some s \<Rightarrow> take 4 s = stack_magic) }"

text \<open>
  \<^verbatim>\<open>mi_switch\<close> up to \<^verbatim>\<open>md_switch\<close>: the old thread is put on its list, which must not
  fail, and the scheduler picks the next one. When no thread is current the call does nothing.
\<close>

definition stash :: "bool \<Rightarrow> threadstate \<Rightarrow> nat \<Rightarrow> tsys \<Rightarrow> ((errno + unit) \<times> tsys) option" where
  "stash ok nextstate t st =
     (if nextstate = S_READY then make_runnable ok t st
      else if nextstate = S_SLEEP then do {
        (r, a) \<leftarrow> array_add ok (ts_sleepers st) t;
        Some (r, st\<lparr>ts_sleepers := a\<rparr>) }
      else do {
        kassert (nextstate = S_ZOMB);
        (r, a) \<leftarrow> array_add ok (ts_zombies st) t;
        Some (r, st\<lparr>ts_zombies := a\<rparr>) })"

definition mi_switch :: "bool \<Rightarrow> (tsys \<Rightarrow> tsys) \<Rightarrow> threadstate \<Rightarrow> tsys \<Rightarrow> tsys option" where
  "mi_switch ok idle nextstate st = do {
     kassert (ts_spl st > 0);
     (case ts_cur st of
        None \<Rightarrow> Some st
      | Some t \<Rightarrow> do {
          check_magic t st;
          (result, st1) \<leftarrow> stash ok nextstate t (st\<lparr>ts_cur := None\<rparr>);
          kassert (result = Inr ());
          (nxt, st2) \<leftarrow> scheduler idle st1;
          Some (st2\<lparr>ts_cur := Some nxt\<rparr>) }) }"

text \<open>What the resumed thread does in \<^verbatim>\<open>mi_switch\<close> after \<^verbatim>\<open>md_switch\<close>.\<close>

definition switch_resume :: "tsys \<Rightarrow> tsys option" where
  "switch_resume st = exorcise st"

text \<open>\<open>asd\<close> says whether \<^verbatim>\<open>as_destroy\<close> returns; its effect is on the address space only.\<close>

definition thread_exit :: "bool \<Rightarrow> bool \<Rightarrow> (tsys \<Rightarrow> tsys) \<Rightarrow> tsys \<Rightarrow> tsys option" where
  "thread_exit asd ok idle st = do {
     t \<leftarrow> ts_cur st;
     check_magic t st;
     th \<leftarrow> ts_thr st t;
     kassert (t_vmspace th = None \<or> asd);
     let th1 = th\<lparr>t_vmspace := None, t_cwd := None\<rparr>;
     let st1 = (case t_cwd th of None \<Rightarrow> st
                | Some v \<Rightarrow> st\<lparr>ts_vref := (ts_vref st)(v := ts_vref st v - 1)\<rparr>);
     let st2 = st1\<lparr>ts_spl := 15, ts_thr := (ts_thr st1)(t \<mapsto> th1)\<rparr>;
     kassert (ts_num st2 > 0);
     mi_switch ok idle S_ZOMB (st2\<lparr>ts_num := ts_num st2 - 1\<rparr>) }"

definition thread_yield :: "bool \<Rightarrow> (tsys \<Rightarrow> tsys) \<Rightarrow> tsys \<Rightarrow> tsys option" where
  "thread_yield ok idle st = mi_switch ok idle S_READY (st\<lparr>ts_spl := 15\<rparr>)"

definition set_sleepaddr :: "nat \<Rightarrow> nat option \<Rightarrow> tsys \<Rightarrow> tsys option" where
  "set_sleepaddr t a st = do {
     th \<leftarrow> ts_thr st t;
     Some (st\<lparr>ts_thr := (ts_thr st)(t \<mapsto> th\<lparr>t_sleepaddr := a\<rparr>)\<rparr>) }"

definition thread_sleep :: "bool \<Rightarrow> bool \<Rightarrow> (tsys \<Rightarrow> tsys) \<Rightarrow> nat \<Rightarrow> tsys \<Rightarrow> tsys option" where
  "thread_sleep in_interrupt ok idle addr st = do {
     kassert (\<not> in_interrupt);
     t \<leftarrow> ts_cur st;
     st1 \<leftarrow> set_sleepaddr t (Some addr) st;
     mi_switch ok idle S_SLEEP st1 }"

definition thread_sleep_resume :: "tsys \<Rightarrow> tsys option" where
  "thread_sleep_resume st = do {
     st1 \<leftarrow> switch_resume st;
     t \<leftarrow> ts_cur st1;
     set_sleepaddr t None st1 }"

text \<open>
  The loop of \<^verbatim>\<open>thread_wakeup\<close>: after a removal the same index is looked at again.
  \<open>okf\<close> says, per thread woken, whether growing the run queue would succeed.
\<close>

partial_function (option) wakeup_loop :: "(nat \<Rightarrow> bool) \<Rightarrow> nat \<Rightarrow> int \<Rightarrow> tsys \<Rightarrow> tsys option" where
  "wakeup_loop okf addr i st =
     (if i < array_getnum (ts_sleepers st) then do {
        t \<leftarrow> array_getguy (ts_sleepers st) i;
        th \<leftarrow> ts_thr st t;
        if t_sleepaddr th = Some addr then do {
          a \<leftarrow> array_remove (ts_sleepers st) i;
          (result, st1) \<leftarrow> make_runnable (okf t) t (st\<lparr>ts_sleepers := a\<rparr>);
          kassert (result = Inr ());
          wakeup_loop okf addr i st1 }
        else wakeup_loop okf addr (i + 1) st }
      else Some st)"

declare wakeup_loop.simps [code]

definition thread_wakeup :: "(nat \<Rightarrow> bool) \<Rightarrow> nat \<Rightarrow> tsys \<Rightarrow> tsys option" where
  "thread_wakeup okf addr st = do {
     kassert (ts_spl st > 0);
     wakeup_loop okf addr 0 st }"

definition sleeping_on :: "tsys \<Rightarrow> nat \<Rightarrow> nat \<Rightarrow> bool" where
  "sleeping_on st addr t \<longleftrightarrow> (case ts_thr st t of None \<Rightarrow> False | Some th \<Rightarrow> t_sleepaddr th = Some addr)"

definition thread_hassleepers :: "nat \<Rightarrow> tsys \<Rightarrow> bool option" where
  "thread_hassleepers addr st = do {
     kassert (ts_spl st > 0);
     r \<leftarrow> scan (\<lambda>i. do { t \<leftarrow> array_getguy (ts_sleepers st) i; th \<leftarrow> ts_thr st t; Some t })
             (sleeping_on st addr) (nat (array_getnum (ts_sleepers st))) 0;
     Some (r \<noteq> None) }"

section \<open>The accounting invariant\<close>

abbreviation run_list :: "tsys \<Rightarrow> nat list" where
  "run_list st \<equiv> q_elems (ts_run st)"

abbreviation sleep_list :: "tsys \<Rightarrow> nat list" where
  "sleep_list st \<equiv> array_elems (ts_sleepers st)"

abbreviation zombie_list :: "tsys \<Rightarrow> nat list" where
  "zombie_list st \<equiv> array_elems (ts_zombies st)"

definition live_threads :: "tsys \<Rightarrow> nat list" where
  "live_threads st = (case ts_cur st of None \<Rightarrow> [] | Some t \<Rightarrow> [t]) @ run_list st @ sleep_list st"

text \<open>
  Every live thread is in exactly one place (running, on the run queue, or asleep), has its
  structure and an intact stack, and \<^verbatim>\<open>numthreads\<close> counts them.
\<close>

definition ts_inv :: "tsys \<Rightarrow> bool" where
  "ts_inv st \<longleftrightarrow> q_wf (ts_run st) \<and> array_invar (ts_sleepers st) \<and> array_invar (ts_zombies st) \<and>
     distinct (live_threads st @ zombie_list st) \<and> int (length (live_threads st)) = ts_num st \<and>
     ts_num st < 2 ^ 28 \<and>
     (\<forall>t \<in> set (live_threads st). \<exists>th. ts_thr st t = Some th \<and>
        (case t_stack th of None \<Rightarrow> True | Some s \<Rightarrow> take 4 s = stack_magic))"

text \<open>The space \<^verbatim>\<open>thread_fork\<close> has set aside: for every thread on the sleep table, for all but one on the run queue.\<close>

definition ts_reserved :: "tsys \<Rightarrow> bool" where
  "ts_reserved st \<longleftrightarrow> ts_num st \<le> arr_max (ts_sleepers st) \<and> ts_num st \<le> q_size (ts_run st)"

lemma q_addtail_reserved:
  assumes "q_wf q" "int (length (q_elems q)) + 1 < q_size q"
  shows "\<exists>q'. q_addtail ok q x = Some (Inr (), q') \<and> q_wf q' \<and> q_elems q' = q_elems q @ [x] \<and>
           q_size q' = q_size q"
  using q_addtail_slot [OF assms, of 1 ok x] by (simp add: q_addtail_def numeral_2_eq_2)

lemma q_remhead_size: "q_remhead q = Some (x, q') \<Longrightarrow> q_size q' = q_size q"
  by (auto simp: q_remhead_def bind_eq_Some_conv)

lemma scheduler_picks:
  assumes "ts_spl st > 0" "q_wf (ts_run st)" "run_list st = t # ts"
  shows "\<exists>q. scheduler idle st = Some (t, st\<lparr>ts_run := q\<rparr>) \<and> q_wf q \<and> q_elems q = ts \<and>
           q_size q = q_size (ts_run st)"
proof -
  obtain q where q: "q_remhead (ts_run st) = Some (t, q)" "q_wf q" "q_elems q = ts"
    using rq.remhead_Cons [OF assms(2,3)] by blast
  moreover have "\<not> q_empty (ts_run st)" using rq.isempty [OF assms(2)] assms(3) by simp
  ultimately show ?thesis using assms(1)
    by (intro exI [of _ q]) (simp add: scheduler.simps [of idle st] q_remhead_size)
qed

lemma q_size_addtail:
  assumes "q_wf q" "int (length (q_elems q)) + 1 < q_size q" "q_addtail ok q x = Some (r, q')"
  shows "r = Inr ()" "q_wf q'" "q_elems q' = q_elems q @ [x]" "q_size q' = q_size q"
  using q_addtail_reserved [OF assms(1,2), of ok x] assms(3) by auto

subsection \<open>Waking up\<close>

text \<open>The part of the state the wakeup loop works on.\<close>

lemma wakeup_loop_spec:
  assumes "ts_spl st > 0" "q_wf (ts_run st)" "array_invar (ts_sleepers st)"
    and "\<forall>t \<in> set (sleep_list st). ts_thr st t \<noteq> None"
    and "i \<le> length (sleep_list st)"
    and "int (length (run_list st) + (length (sleep_list st) - i)) < q_size (ts_run st)"
  shows "\<exists>q a. wakeup_loop okf addr (int i) st = Some (st\<lparr>ts_run := q, ts_sleepers := a\<rparr>) \<and>
     q_wf q \<and> q_size q = q_size (ts_run st) \<and> array_invar a \<and>
     q_elems q = run_list st @ filter (sleeping_on st addr) (drop i (sleep_list st)) \<and>
     array_elems a = take i (sleep_list st) @ filter (\<lambda>t. \<not> sleeping_on st addr t) (drop i (sleep_list st)) \<and>
     arr_max a = arr_max (ts_sleepers st)"
  using assms
proof (induction "length (sleep_list st) - i" arbitrary: i st)
  case (0 i st)
  have "\<not> int i < array_getnum (ts_sleepers st)"
    using 0(1,4) arr.getnum [of "ts_sleepers st"] by simp
  then have "wakeup_loop okf addr (int i) st = Some st"
    by (simp add: wakeup_loop.simps [of okf addr "int i" st])
  then show ?case
    using 0 by (intro exI [of _ "ts_run st"] exI [of _ "ts_sleepers st"]) simp
next
  case (Suc n i st)
  let ?xs = "sleep_list st"
  have i: "i < length ?xs" using Suc.hyps(2) by simp
  have num: "array_getnum (ts_sleepers st) = int (length ?xs)" using Suc.prems(3) by (rule arr.getnum)
  have get: "array_getguy (ts_sleepers st) (int i) = Some (?xs ! i)"
    using Suc.prems(3) i by (simp add: arr.getguy)
  obtain th where th: "ts_thr st (?xs ! i) = Some th" using Suc.prems(4) i by force
  have drop: "drop i ?xs = ?xs ! i # drop (Suc i) ?xs" using i by (simp add: Cons_nth_drop_Suc)
  show ?case
  proof (cases "sleeping_on st addr (?xs ! i)")
    case False
    then have ne: "t_sleepaddr th \<noteq> Some addr" using th by (simp add: sleeping_on_def)
    have "wakeup_loop okf addr (int i) st = wakeup_loop okf addr (int (Suc i)) st"
      using i num get th ne by (simp add: wakeup_loop.simps [of okf addr "int i"] add.commute)
    moreover have "take (Suc i) ?xs = take i ?xs @ [?xs ! i]" using i by (rule take_Suc_conv_app_nth)
    ultimately show ?thesis
      using Suc.hyps(1) [of st "Suc i"] Suc.hyps(2) Suc.prems False drop i by simp
  next
    case True
    then have eq: "t_sleepaddr th = Some addr" using th by (simp add: sleeping_on_def)
    obtain a where a: "array_remove (ts_sleepers st) (int i) = Some a" "array_invar a"
        "array_elems a = take i ?xs @ drop (Suc i) ?xs"
      using arr.remove_in [OF Suc.prems(3), of "int i"] i num by auto
    have amax: "arr_max a = arr_max (ts_sleepers st)"
      using a(1) by (auto simp: array_remove_def bind_eq_Some_conv Let_def)
    have fits: "int (length (run_list st)) + 1 < q_size (ts_run st)" using Suc.prems(6) i by simp
    obtain q where q: "q_addtail (okf (?xs ! i)) (ts_run st) (?xs ! i) = Some (Inr (), q)" "q_wf q"
        "q_elems q = run_list st @ [?xs ! i]" "q_size q = q_size (ts_run st)"
      using q_addtail_reserved [OF Suc.prems(2) fits, of "okf (?xs ! i)" "?xs ! i"] by blast
    let ?st = "st\<lparr>ts_sleepers := a, ts_run := q\<rparr>"
    have so: "sleeping_on ?st addr = sleeping_on st addr" by (simp add: sleeping_on_def fun_eq_iff)
    have "wakeup_loop okf addr (int i) st = wakeup_loop okf addr (int i) ?st"
      using i num get th eq a q Suc.prems(1)
      by (simp add: wakeup_loop.simps [of okf addr "int i" st] make_runnable_def)
    moreover have da: "drop i (array_elems a) = drop (Suc i) ?xs" "take i (array_elems a) = take i ?xs"
      using a(3) i by simp_all
    have len: "length (array_elems a) = length ?xs - 1" using a(3) i by simp
    have sub: "set (array_elems a) \<subseteq> set ?xs"
      using a(3) by (metis Un_least set_append set_drop_subset set_take_subset)
    have "\<exists>q' a'. wakeup_loop okf addr (int i) ?st = Some (?st\<lparr>ts_run := q', ts_sleepers := a'\<rparr>) \<and>
        q_wf q' \<and> q_size q' = q_size q \<and> array_invar a' \<and>
        q_elems q' = q_elems q @ filter (sleeping_on ?st addr) (drop i (array_elems a)) \<and>
        array_elems a' = take i (array_elems a) @ filter (\<lambda>t. \<not> sleeping_on ?st addr t) (drop i (array_elems a)) \<and>
        arr_max a' = arr_max a"
    proof -
      have "n = length (sleep_list ?st) - i" "i \<le> length (sleep_list ?st)"
          "int (length (run_list ?st) + (length (sleep_list ?st) - i)) < q_size (ts_run ?st)"
        using Suc.hyps(2) Suc.prems(6) len q i by simp_all
      moreover have "\<forall>t \<in> set (sleep_list ?st). ts_thr ?st t \<noteq> None" using Suc.prems(4) sub by auto
      moreover have "0 < ts_spl ?st" "q_wf (ts_run ?st)" "array_invar (ts_sleepers ?st)"
        using Suc.prems(1) q a by simp_all
      ultimately show ?thesis using Suc.hyps(1) [of ?st i] by simp
    qed
    ultimately show ?thesis
      using True drop q(3,4) amax unfolding so da by auto
  qed
qed

subsection \<open>Switching\<close>

lemma ts_inv_cong:
  assumes "ts_inv st" "mset (live_threads st') = mset (live_threads st)" "zombie_list st' = zombie_list st"
    and "q_wf (ts_run st')" "array_invar (ts_sleepers st')" "array_invar (ts_zombies st')"
    and "ts_num st' = ts_num st"
    and "\<forall>t th. ts_thr st t = Some th \<longrightarrow> (\<exists>th'. ts_thr st' t = Some th' \<and> t_stack th' = t_stack th)"
  shows "ts_inv st'"
proof -
  have m: "mset (live_threads st' @ zombie_list st') = mset (live_threads st @ zombie_list st)"
    using assms(2,3) by simp
  then have "distinct (live_threads st' @ zombie_list st')"
    using assms(1) mset_eq_imp_distinct_iff [OF m] by (simp add: ts_inv_def)
  moreover have "length (live_threads st') = length (live_threads st)"
      "set (live_threads st') = set (live_threads st)"
    using assms(2) by (metis size_mset, metis set_mset_mset)
  ultimately show ?thesis
    using assms unfolding ts_inv_def by (metis (no_types, lifting))
qed

lemma ts_inv_magic:
  assumes "ts_inv st" "ts_cur st = Some me"
  shows "check_magic me st = Some ()" "ts_thr st me \<noteq> None"
proof -
  have "me \<in> set (live_threads st)" using assms(2) by (simp add: live_threads_def)
  then obtain th where "ts_thr st me = Some th"
      "case t_stack th of None \<Rightarrow> True | Some s \<Rightarrow> take 4 s = stack_magic"
    using assms(1) unfolding ts_inv_def by blast
  then show "check_magic me st = Some ()" "ts_thr st me \<noteq> None" by (simp_all add: check_magic_def)
qed

lemma ts_inv_add:
  assumes "ts_inv st" "mset (live_threads st') = add_mset t (mset (live_threads st))" "zombie_list st' = zombie_list st"
    and "q_wf (ts_run st')" "array_invar (ts_sleepers st')" "array_invar (ts_zombies st')"
    and "ts_num st' = ts_num st + 1" "ts_num st' < 2 ^ 28" "t \<notin> set (live_threads st @ zombie_list st)"
    and "\<forall>u. u \<noteq> t \<longrightarrow> ts_thr st' u = ts_thr st u" "ts_thr st' t = Some th" "t_stack th = Some stack_magic"
  shows "ts_inv st'"
proof -
  have m: "mset (live_threads st' @ zombie_list st') = mset (t # live_threads st @ zombie_list st)"
    using assms(2,3) by simp
  have d: "distinct (live_threads st' @ zombie_list st')"
    using assms(1,9) mset_eq_imp_distinct_iff [OF m] by (simp add: ts_inv_def)
  have l: "int (length (live_threads st')) = ts_num st'"
    using assms(1,7) arg_cong [OF assms(2), of size] by (simp add: ts_inv_def)
  have s: "set (live_threads st') = insert t (set (live_threads st))"
    using arg_cong [OF assms(2), of set_mset] by simp
  have "\<exists>th. ts_thr st' u = Some th \<and> (case t_stack th of None \<Rightarrow> True | Some s \<Rightarrow> take 4 s = stack_magic)"
    if "u \<in> set (live_threads st')" for u
  proof (cases "u = t")
    case True
    then show ?thesis using assms(11,12) by (simp add: stack_magic_def)
  next
    case False
    then have "u \<in> set (live_threads st)" "ts_thr st' u = ts_thr st u" using that s assms(10) by auto
    then show ?thesis using assms(1) by (simp add: ts_inv_def)
  qed
  then show ?thesis using assms d l unfolding ts_inv_def by blast
qed

lemma ts_count:
  "ts_inv st \<Longrightarrow> ts_cur st = Some me \<Longrightarrow>
     ts_num st = 1 + int (length (run_list st)) + int (length (sleep_list st))"
  by (auto simp: ts_inv_def live_threads_def)

subsection \<open>Forking\<close>

lemma array_preallocate_any:
  assumes "array_invar a" "n \<le> 2 ^ 29"
  shows "\<exists>r a'. array_preallocate ok a n = Some (r, a') \<and> array_invar a' \<and> array_elems a' = array_elems a \<and>
           (r = Inr () \<and> n \<le> arr_max a' \<or> r = Inl ENOMEM)"
proof (cases ok)
  case True
  then show ?thesis using array_preallocate_keeps [OF assms] by auto
next
  case False
  then show ?thesis
    using array_preallocate_wf [of a n False] assms by (auto simp: array_invar_def)
qed

lemma q_preallocate_any:
  assumes "q_wf q" "n \<le> 2 ^ 28"
  shows "\<exists>r q'. q_preallocate ok q n = Some (r, q') \<and> q_wf q' \<and> q_elems q' = q_elems q \<and>
           (r = Inr () \<and> n \<le> q_size q' \<or> r = Inl ENOMEM)"
proof (cases "n \<le> q_size q")
  case True
  then show ?thesis using assms(1) by (auto simp: q_preallocate_def q_wf_def)
next
  case False
  have t: "n \<le> 2 ^ 29" using assms(2) by simp
  obtain r q' where g: "q_grow_with (q_addtail_at (Suc 1) ok) ok q n = Some (r, q')" "q_wf q'"
      "q_elems q' = q_elems q"
      "if ok then r = Inr () \<and> n \<le> q_size q' \<and> q_size q \<le> q_size q' else r = Inl ENOMEM \<and> q' = q"
    using q_grow_with_wf [OF assms(1) t, of 1 ok] by (elim exE conjE) (rule that)
  have "q_preallocate ok q n = q_grow_with (q_addtail_at (Suc 1) ok) ok q n"
    using False assms(1) by (simp add: q_preallocate_def q_grow_def q_addtail_def numeral_2_eq_2 q_wf_def)
  then show ?thesis using g by (auto split: if_splits)
qed

lemma fork_reserve_spec:
  assumes "q_wf (ts_run st)" "array_invar (ts_sleepers st)" "array_invar (ts_zombies st)" "ts_spl st > 0"
    and "0 \<le> ts_num st" "ts_num st < 2 ^ 28" "int (length (run_list st)) < ts_num st"
  shows "\<exists>r q sl z. fork_reserve fa t st =
       Some (r, st\<lparr>ts_run := q, ts_sleepers := sl, ts_zombies := z,
                   ts_num := (if r = Inr () then ts_num st + 1 else ts_num st)\<rparr>) \<and>
     q_wf q \<and> array_invar sl \<and> array_invar z \<and> array_elems sl = sleep_list st \<and>
     array_elems z = zombie_list st \<and>
     (if r = Inr () then q_elems q = run_list st @ [t] \<and> ts_num st + 1 \<le> arr_max sl \<and> ts_num st + 1 \<le> q_size q
      else q_elems q = run_list st)"
proof -
  have n: "ts_num st + 1 \<le> 2 ^ 29" "ts_num st + 1 \<le> 2 ^ 28" using assms(6) by simp_all
  obtain r1 sl where sl: "array_preallocate (fa_sleepers fa) (ts_sleepers st) (ts_num st + 1) = Some (r1, sl)"
      "array_invar sl" "array_elems sl = sleep_list st" "r1 = Inr () \<and> ts_num st + 1 \<le> arr_max sl \<or> r1 = Inl ENOMEM"
    using array_preallocate_any [OF assms(2) n(1)] by blast
  obtain r2 z where z: "array_preallocate (fa_zombies fa) (ts_zombies st) (ts_num st + 1) = Some (r2, z)"
      "array_invar z" "array_elems z = zombie_list st" "r2 = Inr () \<and> ts_num st + 1 \<le> arr_max z \<or> r2 = Inl ENOMEM"
    using array_preallocate_any [OF assms(3) n(1)] by blast
  obtain r3 q where q: "q_preallocate (fa_run fa) (ts_run st) (ts_num st + 1) = Some (r3, q)"
      "q_wf q" "q_elems q = run_list st" "r3 = Inr () \<and> ts_num st + 1 \<le> q_size q \<or> r3 = Inl ENOMEM"
    using q_preallocate_any [OF assms(1) n(2)] by blast
  consider "r1 = Inl ENOMEM" | "r1 = Inr ()" "r2 = Inl ENOMEM" | "r1 = Inr ()" "r2 = Inr ()" "r3 = Inl ENOMEM"
    | "r1 = Inr ()" "r2 = Inr ()" "r3 = Inr ()"
    using sl(4) z(4) q(4) by blast
  then show ?thesis
  proof cases
    case 1
    then show ?thesis using sl assms
      by (intro exI [of _ "Inl ENOMEM"] exI [of _ "ts_run st"] exI [of _ sl] exI [of _ "ts_zombies st"])
        (simp add: fork_reserve_def)
  next
    case 2
    then show ?thesis using sl z assms
      by (intro exI [of _ "Inl ENOMEM"] exI [of _ "ts_run st"] exI [of _ sl] exI [of _ z])
        (simp add: fork_reserve_def)
  next
    case 3
    then show ?thesis using sl z q assms
      by (intro exI [of _ "Inl ENOMEM"] exI [of _ q] exI [of _ sl] exI [of _ z])
        (simp add: fork_reserve_def scheduler_preallocate_def)
  next
    case 4
    then have "int (length (q_elems q)) + 1 < q_size q" using q assms(7) by simp
    then obtain q' where q': "q_addtail (fa_runnable fa) q t = Some (Inr (), q')" "q_wf q'"
        "q_elems q' = run_list st @ [t]" "q_size q' = q_size q"
      using q_addtail_reserved [OF q(2), of "fa_runnable fa" t] q(3) by auto
    then show ?thesis using 4 sl z q assms
      by (intro exI [of _ "Inr ()"] exI [of _ q'] exI [of _ sl] exI [of _ z])
        (simp add: fork_reserve_def scheduler_preallocate_def make_runnable_def)
  qed
qed

section \<open>Properties\<close>

text \<open>A small system: thread 0 runs, 1 is runnable, 2 sleeps on address 9; the ring buffer has \<^verbatim>\<open>n\<close> cells.\<close>

definition wit_thread :: "nat option \<Rightarrow> thread" where
  "wit_thread a = \<lparr>t_sleepaddr = a, t_stack = None, t_vmspace = None, t_cwd = None\<rparr>"

definition wit_tsys :: "nat \<Rightarrow> tsys" where
  "wit_tsys n = \<lparr>ts_cur = Some 0, ts_sleepers = \<lparr>arr_num = 1, arr_max = 4, arr_v = Some [Some 2, None, None, None]\<rparr>,
     ts_zombies = \<lparr>arr_num = 0, arr_max = 4, arr_v = Some [None, None, None, None]\<rparr>, ts_num = 3,
     ts_run = \<lparr>q_size = int n, q_nextwrite = 1, q_nextread = 0, q_data = Some 1 # replicate (n - 1) None\<rparr>,
     ts_spl = 15,
     ts_thr = (\<lambda>u. if u < 2 then Some (wit_thread None) else if u = 2 then Some (wit_thread (Some 9)) else None),
     ts_vref = (\<lambda>_. 0)\<rparr>"

lemma wit_thr: "ts_thr (wit_tsys n) u =
    (if u < 2 then Some (wit_thread None) else if u = 2 then Some (wit_thread (Some 9)) else None)"
  by (simp add: wit_tsys_def)

lemma wit_tsys:
  assumes "n = 4"
  shows "ts_inv (wit_tsys n)" "ts_reserved (wit_tsys n)" "ts_spl (wit_tsys n) > 0" "ts_cur (wit_tsys n) = Some 0"
    "run_list (wit_tsys n) = [1]" "sleep_list (wit_tsys n) = [2]" "ts_num (wit_tsys n) = 3" "zombie_list (wit_tsys n) = []"
proof -
  have q: "q_elems (ts_run (wit_tsys n)) = [1]" "q_wf (ts_run (wit_tsys n))"
    using assms by (simp_all add: wit_tsys_def q_elems_def q_wf_def ring_cells_def)
  have a: "array_elems (ts_sleepers (wit_tsys n)) = [2]" "array_elems (ts_zombies (wit_tsys n)) = []"
      "array_invar (ts_sleepers (wit_tsys n))" "array_invar (ts_zombies (wit_tsys n))"
    by (simp_all add: wit_tsys_def array_elems_def array_invar_def array_wf_def array_full_def)
  show c: "ts_cur (wit_tsys n) = Some 0" "run_list (wit_tsys n) = [1]" "sleep_list (wit_tsys n) = [2]"
    "zombie_list (wit_tsys n) = []" "ts_num (wit_tsys n) = 3" "ts_spl (wit_tsys n) > 0"
    using q a by (simp_all add: wit_tsys_def)
  show "ts_inv (wit_tsys n)"
    using q a c by (simp add: ts_inv_def live_threads_def wit_thr wit_thread_def)
  show "ts_reserved (wit_tsys n)" using assms by (simp add: ts_reserved_def wit_tsys_def)
qed

lemma thread_wakeup_spec:
  assumes "ts_inv st" "ts_reserved st" "ts_spl st > 0" "ts_cur st = Some me"
  shows "\<exists>st'. thread_wakeup okf addr st = Some st' \<and> ts_inv st' \<and> ts_reserved st' \<and> ts_cur st' = Some me \<and>
     run_list st' = run_list st @ filter (sleeping_on st addr) (sleep_list st) \<and>
     sleep_list st' = filter (\<lambda>t. \<not> sleeping_on st addr t) (sleep_list st) \<and>
     ts_spl st' = ts_spl st \<and> ts_thr st' = ts_thr st"
proof -
  have wf: "q_wf (ts_run st)" "array_invar (ts_sleepers st)" using assms(1) by (simp_all add: ts_inv_def)
  have thr: "\<forall>t \<in> set (sleep_list st). ts_thr st t \<noteq> None"
    using assms(1) by (auto simp: ts_inv_def live_threads_def)
  have room: "int (length (run_list st) + (length (sleep_list st) - 0)) < q_size (ts_run st)"
    using ts_count [OF assms(1,4)] assms(2) by (simp add: ts_reserved_def)
  obtain q a where qa: "wakeup_loop okf addr (int 0) st = Some (st\<lparr>ts_run := q, ts_sleepers := a\<rparr>)"
      "q_wf q" "q_size q = q_size (ts_run st)" "array_invar a"
      "q_elems q = run_list st @ filter (sleeping_on st addr) (drop 0 (sleep_list st))"
      "array_elems a = take 0 (sleep_list st) @ filter (\<lambda>t. \<not> sleeping_on st addr t) (drop 0 (sleep_list st))"
      "arr_max a = arr_max (ts_sleepers st)"
    using wakeup_loop_spec [OF assms(3) wf thr le0 room, of okf addr] by (elim exE conjE) (rule that)
  let ?st = "st\<lparr>ts_run := q, ts_sleepers := a\<rparr>"
  have "mset (live_threads ?st) = mset (live_threads st)"
    using qa by (simp add: live_threads_def)
  then have "ts_inv ?st"
    using assms(1) qa by (intro ts_inv_cong [OF assms(1)]) (simp_all add: ts_inv_def)
  then show ?thesis
    using qa assms by (intro exI [of _ ?st]) (simp add: thread_wakeup_def ts_reserved_def)
qed

text \<open>
  Claim C17: \<^verbatim>\<open>thread_wakeup\<close> wakes exactly the threads asleep on the address. In a consistent thread
  system with the space reserved by \<^verbatim>\<open>thread_fork\<close> it always returns, whatever the allocator does;
  the sleepers on the address move, in order, to the end of the run queue, every other sleeper
  stays, and the invariant is kept.
\<close>

theorem thread_wakeup_exact:
  assumes "ts_inv st" "ts_reserved st" "ts_spl st > 0" "ts_cur st = Some me"
  shows "\<exists>st'. thread_wakeup okf addr st = Some st' \<and> ts_inv st' \<and> ts_reserved st' \<and> ts_cur st' = Some me \<and>
     run_list st' = run_list st @ filter (sleeping_on st addr) (sleep_list st) \<and>
     sleep_list st' = filter (\<lambda>t. \<not> sleeping_on st addr t) (sleep_list st)"
  using thread_wakeup_spec [OF assms, of okf addr] by blast

theorem thread_wakeup_exact_witness:
  "\<exists>st'. thread_wakeup (\<lambda>_. False) 9 (wit_tsys 4) = Some st' \<and> ts_inv st' \<and> run_list st' = [1, 2] \<and> sleep_list st' = []"
  using thread_wakeup_exact [of "wit_tsys 4" 0 "\<lambda>_. False" 9] wit_tsys [of 4]
  by (auto simp: sleeping_on_def wit_thr wit_thread_def)

lemma thread_sleep_spec:
  assumes "ts_inv st" "ts_reserved st" "ts_spl st > 0" "ts_cur st = Some me" "run_list st = nxt # rest"
  shows "\<exists>st'. thread_sleep False ok idle addr st = Some st' \<and> ts_inv st' \<and> ts_reserved st' \<and>
     ts_cur st' = Some nxt \<and> run_list st' = rest \<and> sleep_list st' = sleep_list st @ [me] \<and>
     sleeping_on st' addr me \<and> ts_spl st' = ts_spl st \<and>
     ts_thr st' = (ts_thr st)(me := map_option (t_sleepaddr_update (\<lambda>_. Some addr)) (ts_thr st me))"
proof -
  obtain th where th: "ts_thr st me = Some th" using ts_inv_magic(2) [OF assms(1,4)] by blast
  let ?s1 = "st\<lparr>ts_thr := (ts_thr st)(me \<mapsto> th\<lparr>t_sleepaddr := Some addr\<rparr>)\<rparr>"
  have i1: "ts_inv ?s1"
    using assms(1) th by (intro ts_inv_cong [OF assms(1)]) (simp_all add: ts_inv_def live_threads_def)
  have room: "arr_num (ts_sleepers st) < arr_max (ts_sleepers st)"
    using ts_count [OF assms(1,4)] assms(1,2) arr.getnum [of "ts_sleepers st"]
    by (simp add: ts_reserved_def ts_inv_def array_getnum_def)
  obtain a where a: "array_add ok (ts_sleepers st) me = Some (Inr (), a)" "array_invar a"
      "array_elems a = sleep_list st @ [me]" "arr_max a = arr_max (ts_sleepers st)"
    using array_add_no_alloc [OF _ room, of ok me] assms(1) by (auto simp: ts_inv_def)
  let ?s2 = "?s1\<lparr>ts_cur := None, ts_sleepers := a\<rparr>"
  have wf: "q_wf (ts_run ?s2)" "run_list ?s2 = nxt # rest" "0 < ts_spl ?s2"
    using assms by (simp_all add: ts_inv_def)
  obtain q where q: "scheduler idle ?s2 = Some (nxt, ?s2\<lparr>ts_run := q\<rparr>)" "q_wf q" "q_elems q = rest"
      and qs: "q_size q = q_size (ts_run st)"
    using scheduler_picks [OF wf(3,1,2), of idle] by auto
  let ?s3 = "?s2\<lparr>ts_run := q, ts_cur := Some nxt\<rparr>"
  have "mi_switch ok idle S_SLEEP ?s1 = Some ?s3"
    using assms(3,4) ts_inv_magic(1) [OF i1] a q(1) by (simp add: mi_switch_def stash_def)
  then have "thread_sleep False ok idle addr st = Some ?s3"
    using assms(4) th by (simp add: thread_sleep_def set_sleepaddr_def)
  moreover have "mset (live_threads ?s3) = mset (live_threads ?s1)"
    using assms(4,5) a q by (simp add: live_threads_def)
  then have "ts_inv ?s3"
    using i1 a q by (intro ts_inv_cong [OF i1]) (simp_all add: ts_inv_def)
  ultimately show ?thesis
    using assms(2) a q qs th by (intro exI [of _ ?s3]) (simp add: ts_reserved_def sleeping_on_def)
qed

subsection \<open>Yielding and resuming\<close>

text \<open>With nothing runnable and no interrupt to change that, the scheduler idles forever.\<close>

lemma scheduler_stuck:
  assumes "scheduler idle st = Some r"
  shows "idle = (\<lambda>s. s) \<longrightarrow> \<not> q_empty (ts_run st)"
proof (rule scheduler.raw_induct [OF _ assms])
  fix f :: "(tsys \<Rightarrow> tsys) \<Rightarrow> tsys \<Rightarrow> (nat \<times> tsys) option" and idle st r
  assume IH: "\<And>idle st r. f idle st = Some r \<Longrightarrow> idle = (\<lambda>s. s) \<longrightarrow> \<not> q_empty (ts_run st)"
    and eq: "do { kassert (ts_spl st > 0);
        if q_empty (ts_run st) then f idle (idle st)
        else do { (t, q) \<leftarrow> q_remhead (ts_run st); Some (t, st\<lparr>ts_run := q\<rparr>) } } = Some r"
  then have "q_empty (ts_run st) \<Longrightarrow> f idle (idle st) = Some r" by (auto simp: bind_eq_Some_conv)
  then show "idle = (\<lambda>s. s) \<longrightarrow> \<not> q_empty (ts_run st)" using IH [of idle "idle st" r] by auto
qed

lemma scheduler_some:
  assumes "ts_spl st > 0" "q_wf (ts_run st)" "scheduler (\<lambda>s. s) st = Some (t, st')"
  shows "\<exists>q. st' = st\<lparr>ts_run := q\<rparr> \<and> q_wf q \<and> run_list st = t # q_elems q \<and> q_size q = q_size (ts_run st)"
proof -
  have "run_list st \<noteq> []" using scheduler_stuck [OF assms(3)] rq.isempty [OF assms(2)] by simp
  then obtain u us where "run_list st = u # us" by (cases "run_list st") auto
  then show ?thesis using scheduler_picks [OF assms(1,2), of u us "\<lambda>s. s"] assms(3) by auto
qed

lemma thread_sleep_returns:
  assumes "ts_inv st" "ts_reserved st" "ts_spl st > 0" "ts_cur st = Some me"
    and "thread_sleep ii ok (\<lambda>s. s) addr st = Some st'"
  shows "ts_inv st' \<and> ts_reserved st' \<and> ts_spl st' = ts_spl st \<and> (\<exists>nxt. ts_cur st' = Some nxt) \<and>
     sleep_list st' = sleep_list st @ [me] \<and>
     ts_thr st' = (ts_thr st)(me := map_option (t_sleepaddr_update (\<lambda>_. Some addr)) (ts_thr st me))"
proof -
  have ii: "\<not> ii" using assms(5) by (cases ii) (auto simp: thread_sleep_def)
  have "run_list st \<noteq> []"
  proof
    assume "run_list st = []"
    then have e: "q_empty (ts_run st)" using rq.isempty [of "ts_run st"] assms(1) by (simp add: ts_inv_def)
    obtain st2 r where "scheduler (\<lambda>s. s) st2 = Some r" "ts_run st2 = ts_run st"
      using assms(3-5)
      by (fastforce simp: thread_sleep_def set_sleepaddr_def mi_switch_def stash_def bind_eq_Some_conv intro: that)
    then show False using scheduler_stuck [of "\<lambda>s. s" st2 r] e by simp
  qed
  then obtain nxt rest where "run_list st = nxt # rest" by (cases "run_list st") auto
  from thread_sleep_spec [OF assms(1-4) this, of ok "\<lambda>s. s" addr] show ?thesis
    using assms(5) ii by auto
qed

lemma thread_yield_returns:
  assumes "ts_inv st" "ts_reserved st" "ts_cur st = Some me" "thread_yield ok (\<lambda>s. s) st = Some st'"
  shows "ts_inv st' \<and> ts_reserved st' \<and> (\<exists>nxt. ts_cur st' = Some nxt) \<and>
     sleep_list st' = sleep_list st \<and> ts_thr st' = ts_thr st"
proof -
  have wf: "q_wf (ts_run st)" "q_room (ts_run st)"
    using assms(1) ts_count [OF assms(1,3)] by (auto simp: ts_inv_def q_room_def)
  obtain r q where r: "q_addtail ok (ts_run st) me = Some (r, q)"
      "if ok \<or> int (length (run_list st)) + 1 < q_size (ts_run st)
       then r = Inr () \<and> q_elems q = run_list st @ [me] \<and> q_size (ts_run st) \<le> q_size q
       else r = Inl ENOMEM \<and> q = ts_run st" "q_wf q"
    using q_addtail_wf [OF wf, of 0 ok me] unfolding q_addtail_def numeral_2_eq_2 by blast
  let ?s1 = "st\<lparr>ts_spl := 15, ts_cur := None, ts_run := q\<rparr>"
  have y: "r = Inr ()" "\<exists>nxt s2. scheduler (\<lambda>s. s) ?s1 = Some (nxt, s2) \<and> st' = s2\<lparr>ts_cur := Some nxt\<rparr>"
    using assms(3,4) r(1) by (auto simp: thread_yield_def mi_switch_def stash_def make_runnable_def bind_eq_Some_conv)
  then obtain nxt s2 where s2: "scheduler (\<lambda>s. s) ?s1 = Some (nxt, s2)" "st' = s2\<lparr>ts_cur := Some nxt\<rparr>" by blast
  have q: "q_elems q = run_list st @ [me]" "q_size (ts_run st) \<le> q_size q" using r(2) y(1) by (auto split: if_splits)
  obtain q' where q': "s2 = ?s1\<lparr>ts_run := q'\<rparr>" "q_wf q'" "q_elems q = nxt # q_elems q'" "q_size q' = q_size q"
    using scheduler_some [OF _ _ s2(1)] r(3) by auto
  have eq: "st' = st\<lparr>ts_spl := 15, ts_cur := Some nxt, ts_run := q'\<rparr>" using s2(2) q'(1) by simp
  have "mset (nxt # q_elems q') = mset (me # run_list st)" unfolding q'(3) [symmetric] q(1) by simp
  then have "mset (live_threads st') = mset (live_threads st)"
    using assms(3) by (simp add: live_threads_def eq)
  then have "ts_inv st'" by (rule ts_inv_cong [OF assms(1)]) (use assms(1) q'(2) eq in \<open>simp_all add: ts_inv_def\<close>)
  then show ?thesis using assms(2) q(2) q'(4) by (simp add: eq ts_reserved_def)
qed

lemma exorcise_loop_frame:
  assumes "exorcise_loop n i st = Some st'"
  shows "\<exists>f. st' = st\<lparr>ts_thr := f\<rparr> \<and> (\<forall>u. (\<forall>j. array_getguy (ts_zombies st) j \<noteq> Some u) \<longrightarrow> f u = ts_thr st u)"
  using assms
proof (induction n arbitrary: i st)
  case 0
  then show ?case by (intro exI [of _ "ts_thr st"]) simp
next
  case (Suc n)
  obtain z where z: "array_getguy (ts_zombies st) i = Some z"
      "exorcise_loop n (i + 1) (st\<lparr>ts_thr := (ts_thr st)(z := None)\<rparr>) = Some st'"
    using Suc.prems by (auto simp: thread_destroy_def bind_eq_Some_conv)
  from Suc.IH [OF z(2)] obtain f where f: "st' = st\<lparr>ts_thr := f\<rparr>"
      "\<forall>u. (\<forall>j. array_getguy (ts_zombies st) j \<noteq> Some u) \<longrightarrow> f u = ((ts_thr st)(z := None)) u" by auto
  then show ?case using z(1) by (intro exI [of _ f]) (auto simp: fun_upd_def)
qed

lemma exorcise_returns:
  assumes "ts_inv st" "exorcise st = Some st'"
  shows "ts_inv st' \<and> ts_reserved st' = ts_reserved st \<and> ts_cur st' = ts_cur st \<and> run_list st' = run_list st \<and>
     sleep_list st' = sleep_list st \<and> ts_spl st' = ts_spl st \<and>
     (\<forall>u \<in> set (live_threads st). ts_thr st' u = ts_thr st u)"
proof -
  have az: "array_invar (ts_zombies st)" using assms(1) by (simp add: ts_inv_def)
  obtain st1 z where st1: "exorcise_loop (nat (array_getnum (ts_zombies st))) 0 st = Some st1"
      and z: "array_setsize False (ts_zombies st1) 0 = Some (Inr (), z)" and st': "st' = st1\<lparr>ts_zombies := z\<rparr>"
    using assms(2) by (auto simp: exorcise_def bind_eq_Some_conv)
  from exorcise_loop_frame [OF st1] obtain f where f: "st1 = st\<lparr>ts_thr := f\<rparr>"
      "\<forall>u. (\<forall>j. array_getguy (ts_zombies st) j \<noteq> Some u) \<longrightarrow> f u = ts_thr st u" by blast
  have fu: "f u = ts_thr st u" if "u \<in> set (live_threads st)" for u
  proof -
    have "u \<notin> set (zombie_list st)" using assms(1) that by (auto simp: ts_inv_def)
    then have "array_getguy (ts_zombies st) j \<noteq> Some u" for j
      using arr.getguy [OF az, of j] by (auto simp: in_set_conv_nth cell_eq_Some_iff)
    then show ?thesis using f(2) by blast
  qed
  have "array_invar z \<and> array_elems z = []"
    using z az f(1) array_setsize_wf [of "ts_zombies st" 0 False]
    by (auto simp: array_invar_def array_full_def array_elems_def)
  then show ?thesis
    using assms(1) fu by (auto simp: st' f(1) ts_inv_def live_threads_def ts_reserved_def)
qed

text \<open>
  Claim C18: going to sleep cannot fail for lack of memory. With the space reserved by
  \<^verbatim>\<open>thread_fork\<close> and a runnable thread to switch to, \<^verbatim>\<open>thread_sleep\<close> returns for every
  allocator, puts the caller at the end of the sleep table under the address, and hands the
  processor to the head of the run queue.
\<close>

theorem thread_sleep_switches:
  assumes "ts_inv st" "ts_reserved st" "ts_spl st > 0" "ts_cur st = Some me" "run_list st = nxt # rest"
  shows "\<exists>st'. thread_sleep False ok idle addr st = Some st' \<and> ts_inv st' \<and> ts_reserved st' \<and>
     ts_cur st' = Some nxt \<and> run_list st' = rest \<and> sleep_list st' = sleep_list st @ [me] \<and>
     sleeping_on st' addr me"
  using thread_sleep_spec [OF assms, of ok idle addr] by blast

theorem thread_sleep_switches_witness:
  "\<exists>st'. thread_sleep False False (\<lambda>st. st) 9 (wit_tsys 4) = Some st' \<and> ts_cur st' = Some 1 \<and> run_list st' = [] \<and>
     sleep_list st' = [2, 0] \<and> sleeping_on st' 9 0"
  using thread_sleep_switches [of "wit_tsys 4" 0 1 "[]" False "\<lambda>st. st" 9] wit_tsys [of 4] by auto



text \<open>
  Claim C38: the zombie slots \<^verbatim>\<open>thread_fork\<close> reserves are lost when zombies are collected. Once more than
  16 slots are reserved, \<^verbatim>\<open>exorcise\<close> shrinks the zombie array to nothing and frees its storage; if the
  allocation that the next \<^verbatim>\<open>thread_exit\<close> then needs fails, the kernel panics.
\<close>

theorem thread_exit_may_panic:
  assumes "16 < arr_max (ts_zombies st)" "exorcise st = Some st'"
  shows "thread_exit asd False idle st' = None"
proof -
  obtain st1 z where st1: "exorcise_loop (nat (array_getnum (ts_zombies st))) 0 st = Some st1"
      and z: "array_setsize False (ts_zombies st1) 0 = Some (Inr (), z)" and st': "st' = st1\<lparr>ts_zombies := z\<rparr>"
    using assms(2) by (auto simp: exorcise_def bind_eq_Some_conv)
  have "ts_zombies st1 = ts_zombies st" using exorcise_loop_frame [OF st1] by auto
  then have z0: "arr_num z = 0" "arr_max z = 0"
    using z assms(1) by (auto simp: array_setsize_def bind_eq_Some_conv split: if_splits)
  have "array_add False z t = Some (r, a) \<Longrightarrow> r = Inl ENOMEM" for t r a
    using z0 by (cases "grow_max 1 1") (simp_all add: array_add_def array_setsize_def array_preallocate_def)
  then have "mi_switch False idle S_ZOMB s = None" if "ts_zombies s = z" "ts_cur s \<noteq> None" for s
    using that by (fastforce simp: mi_switch_def stash_def bind_eq_None_conv kassert_bind)
  then show ?thesis
    by (auto simp: thread_exit_def st' bind_eq_None_conv Let_def split: option.split)
qed

theorem thread_exit_may_panic_witness:
  "\<exists>st'. exorcise (wit_tsys 4\<lparr>ts_zombies := \<lparr>arr_num = 0, arr_max = 17, arr_v = Some (replicate 17 None)\<rparr>\<rparr>) = Some st' \<and>
     thread_exit True False (\<lambda>s. s) st' = None"
proof -
  let ?st = "wit_tsys 4\<lparr>ts_zombies := \<lparr>arr_num = 0, arr_max = 17, arr_v = Some (replicate 17 None)\<rparr>\<rparr>"
  have "\<exists>st'. exorcise ?st = Some st'"
    by (simp add: exorcise_def array_getnum_def array_setsize_def wit_tsys_def)
  then show ?thesis using thread_exit_may_panic [of ?st] by auto
qed

lemma ts_inv_frame:
  assumes "ts_inv st" "ts_run st' = ts_run st" "ts_sleepers st' = ts_sleepers st" "ts_zombies st' = ts_zombies st"
    and "ts_cur st' = ts_cur st" "ts_num st' = ts_num st"
    and "\<forall>u \<in> set (live_threads st). ts_thr st' u = ts_thr st u"
  shows "ts_inv st'"
  using assms by (simp add: ts_inv_def live_threads_def)

lemma fork_fail_frame:
  "ts_run (fork_fail t st) = ts_run st" "ts_sleepers (fork_fail t st) = ts_sleepers st"
  "ts_zombies (fork_fail t st) = ts_zombies st" "ts_cur (fork_fail t st) = ts_cur st"
  "ts_num (fork_fail t st) = ts_num st" "u \<noteq> t \<Longrightarrow> ts_thr (fork_fail t st) u = ts_thr st u"
  by (simp_all add: fork_fail_def split: option.split)

text \<open>The reservations of a fork, from a state in which the new thread exists but is in no list.\<close>

lemma fork_reserve_inv:
  assumes inv: "ts_inv st" "ts_cur st = Some me" "ts_spl st > 0" "ts_num st + 1 < 2 ^ 28"
    and new: "t \<notin> set (live_threads st @ zombie_list st)" "ts_thr st t = Some th" "t_stack th = Some stack_magic"
  shows "\<exists>r st'. fork_reserve fa t st = Some (r, st') \<and> ts_inv st' \<and> ts_cur st' = Some me \<and>
     sleep_list st' = sleep_list st \<and>
     (if r = Inr () then ts_reserved st' \<and> run_list st' = run_list st @ [t] \<and> ts_num st' = ts_num st + 1
      else run_list st' = run_list st \<and> ts_num st' = ts_num st \<and> t \<notin> set (live_threads st'))"
proof -
  have pre: "q_wf (ts_run st)" "array_invar (ts_sleepers st)" "array_invar (ts_zombies st)" "0 \<le> ts_num st"
      "ts_num st < 2 ^ 28" "int (length (run_list st)) < ts_num st"
    using inv ts_count [OF inv(1,2)] by (simp_all add: ts_inv_def)
  obtain r q sl z where f: "fork_reserve fa t st = Some (r, st\<lparr>ts_run := q, ts_sleepers := sl, ts_zombies := z,
        ts_num := (if r = Inr () then ts_num st + 1 else ts_num st)\<rparr>)"
      and g: "q_wf q" "array_invar sl" "array_invar z" "array_elems sl = sleep_list st" "array_elems z = zombie_list st"
      "if r = Inr () then q_elems q = run_list st @ [t] \<and> ts_num st + 1 \<le> arr_max sl \<and> ts_num st + 1 \<le> q_size q
       else q_elems q = run_list st"
    using fork_reserve_spec [OF pre(1-3) inv(3) pre(4-6), of fa t] by (elim exE conjE) (rule that)
  let ?st' = "st\<lparr>ts_run := q, ts_sleepers := sl, ts_zombies := z,
        ts_num := (if r = Inr () then ts_num st + 1 else ts_num st)\<rparr>"
  have "ts_inv ?st'"
  proof (cases "r = Inr ()")
    case True
    then have "mset (live_threads ?st') = add_mset t (mset (live_threads st))"
      using g inv(2) by (simp add: live_threads_def)
    then show ?thesis
      by (rule ts_inv_add [OF inv(1)]) (use True inv(4) new g in simp_all)
  next
    case False
    then have "mset (live_threads ?st') = mset (live_threads st)"
      using g by (simp add: live_threads_def)
    then show ?thesis
      by (rule ts_inv_cong [OF inv(1)]) (use False g in simp_all)
  qed
  then show ?thesis
    using f g inv(2) new(1) by (intro exI [of _ r] exI [of _ ?st']) (simp add: ts_reserved_def live_threads_def)
qed



end
