(* ===== verification/Kern_Synch.thy ===== *)
theory Kern_Synch
  imports Kern_Thread
begin

text \<open>
  Semaphores, locks and condition variables: \<^verbatim>\<open>kern/thread/synch.c\<close>, with the interrupt level of
  \<^verbatim>\<open>kern/arch/mips/mips/spl.c\<close>. An operation that can sleep is split where the processor is handed
  to another thread: the part up to the switch, and the part the thread runs when it is resumed. Each
  part runs with interrupts off and is one atomic step.
\<close>

section \<open>Data\<close>

record semaphore =
  sem_count :: int

text \<open>A lock whose queue could not be allocated has the null pointer there.\<close>

record lock =
  lk_held :: "nat option"
  lk_wait :: "nat kqueue option"

record cv =
  cv_queue :: "nat kqueue option"

record syn =
  sy_ts :: tsys
  sy_sem :: "nat \<Rightarrow> semaphore option"
  sy_lock :: "nat \<Rightarrow> lock option"
  sy_cv :: "nat \<Rightarrow> cv option"

text \<open>How a part of an operation ends: it returned, the caller sleeps, or the process was killed.\<close>

datatype outcome = Returned | Asleep | Killed

definition splx :: "int \<Rightarrow> tsys \<Rightarrow> int \<times> tsys" where
  "splx newspl ts = (ts_spl ts, ts\<lparr>ts_spl := newspl\<rparr>)"

definition splhigh :: "tsys \<Rightarrow> int \<times> tsys" where
  "splhigh = splx 15"

definition spl0 :: "tsys \<Rightarrow> int \<times> tsys" where
  "spl0 = splx 0"

abbreviation restore_spl :: "int \<Rightarrow> syn \<Rightarrow> syn" where
  "restore_spl s sy \<equiv> sy\<lparr>sy_ts := snd (splx s (sy_ts sy))\<rparr>"

section \<open>Semaphores\<close>

definition sem_create :: "bool \<Rightarrow> bool \<Rightarrow> int \<Rightarrow> semaphore option option" where
  "sem_create ok okname initial_count = do {
     kassert (initial_count \<ge> 0);
     Some (if \<not> ok then None else if \<not> okname then None else Some \<lparr>sem_count = initial_count\<rparr>) }"

definition sem_destroy :: "nat \<Rightarrow> syn \<Rightarrow> syn option" where
  "sem_destroy s sy = do {
     sem \<leftarrow> sy_sem sy s;
     let (spl, ts) = splhigh (sy_ts sy);
     h \<leftarrow> thread_hassleepers s ts;
     kassert (\<not> h);
     Some (sy\<lparr>sy_ts := snd (splx spl ts), sy_sem := (sy_sem sy)(s := None)\<rparr>) }"

text \<open>
  The loop of \<^verbatim>\<open>P\<close>: sleep and test again, or take one. \<open>idle\<close> is what the interrupt handlers do to
  the thread system while the scheduler waits for a thread to run.
\<close>

definition P_loop :: "bool \<Rightarrow> bool \<Rightarrow> (tsys \<Rightarrow> tsys) \<Rightarrow> nat \<Rightarrow> int \<Rightarrow> syn \<Rightarrow> (outcome \<times> syn) option" where
  "P_loop in_interrupt ok idle s spl sy = do {
     sem \<leftarrow> sy_sem sy s;
     if sem_count sem = 0 then do {
       ts \<leftarrow> thread_sleep in_interrupt ok idle s (sy_ts sy);
       Some (Asleep, sy\<lparr>sy_ts := ts\<rparr>) }
     else do {
       kassert (sem_count sem > 0);
       Some (Returned, restore_spl spl (sy\<lparr>sy_sem := (sy_sem sy)(s \<mapsto> sem\<lparr>sem_count := sem_count sem - 1\<rparr>)\<rparr>)) } }"

definition P :: "bool \<Rightarrow> bool \<Rightarrow> (tsys \<Rightarrow> tsys) \<Rightarrow> nat \<Rightarrow> syn \<Rightarrow> (outcome \<times> syn) option" where
  "P in_interrupt ok idle s sy = do {
     sem \<leftarrow> sy_sem sy s;
     kassert (\<not> in_interrupt);
     let (spl, ts) = splhigh (sy_ts sy);
     P_loop in_interrupt ok idle s spl (sy\<lparr>sy_ts := ts\<rparr>) }"

definition P_resume :: "bool \<Rightarrow> (tsys \<Rightarrow> tsys) \<Rightarrow> nat \<Rightarrow> int \<Rightarrow> syn \<Rightarrow> (outcome \<times> syn) option" where
  "P_resume ok idle s spl sy = do {
     ts \<leftarrow> thread_sleep_resume (sy_ts sy);
     P_loop False ok idle s spl (sy\<lparr>sy_ts := ts\<rparr>) }"

definition V :: "(nat \<Rightarrow> bool) \<Rightarrow> nat \<Rightarrow> syn \<Rightarrow> syn option" where
  "V okf s sy = do {
     sem \<leftarrow> sy_sem sy s;
     let (spl, ts) = splhigh (sy_ts sy);
     let n = c_int (sem_count sem + 1);
     kassert (n > 0);
     ts1 \<leftarrow> thread_wakeup okf s ts;
     Some (sy\<lparr>sy_ts := snd (splx spl ts1), sy_sem := (sy_sem sy)(s \<mapsto> sem\<lparr>sem_count := n\<rparr>)\<rparr>) }"

section \<open>Locks\<close>

definition lock_create :: "bool \<Rightarrow> bool \<Rightarrow> bool \<Rightarrow> bool \<Rightarrow> lock option" where
  "lock_create ok okname okq okdata =
     (if \<not> ok then None
      else if \<not> okname then None
      else Some \<lparr>lk_held = None, lk_wait = q_create okq okdata 10\<rparr>)"

definition lock_destroy :: "nat \<Rightarrow> syn \<Rightarrow> syn option" where
  "lock_destroy l sy = do {
     lk \<leftarrow> sy_lock sy l;
     let (spl, ts) = splhigh (sy_ts sy);
     h \<leftarrow> thread_hassleepers l ts;
     kassert (\<not> h);
     kassert (lk_held lk = None);
     q \<leftarrow> lk_wait lk;
     blocks \<leftarrow> q_destroy q;
     Some (sy\<lparr>sy_ts := snd (splx spl ts), sy_lock := (sy_lock sy)(l := None)\<rparr>) }"

definition lock_do_i_hold :: "nat \<Rightarrow> syn \<Rightarrow> bool option" where
  "lock_do_i_hold l sy = do {
     lk \<leftarrow> sy_lock sy l;
     Some (lk_held lk = ts_cur (sy_ts sy)) }"

text \<open>When the wait queue cannot grow, the interrupt level is restored and \<^verbatim>\<open>kill_process(0)\<close> called.\<close>

definition lock_acquire :: "bool \<Rightarrow> bool \<Rightarrow> bool \<Rightarrow> (tsys \<Rightarrow> tsys) \<Rightarrow> nat \<Rightarrow> syn \<Rightarrow> (outcome \<times> syn) option" where
  "lock_acquire in_interrupt okq oks idle l sy = do {
     lk \<leftarrow> sy_lock sy l;
     kassert (\<not> in_interrupt);
     let (spl, ts) = splhigh (sy_ts sy);
     if lk_held lk \<noteq> None then do {
       me \<leftarrow> ts_cur ts;
       q \<leftarrow> lk_wait lk;
       (err, q1) \<leftarrow> q_addtail okq q me;
       let sy1 = sy\<lparr>sy_ts := ts, sy_lock := (sy_lock sy)(l \<mapsto> lk\<lparr>lk_wait := Some q1\<rparr>)\<rparr>;
       if err \<noteq> Inr () then Some (Killed, restore_spl spl sy1)
       else do {
         ts1 \<leftarrow> thread_sleep in_interrupt oks idle me ts;
         Some (Asleep, sy1\<lparr>sy_ts := ts1\<rparr>) } }
     else Some (Returned,
       sy\<lparr>sy_ts := snd (splx spl ts), sy_lock := (sy_lock sy)(l \<mapsto> lk\<lparr>lk_held := ts_cur ts\<rparr>)\<rparr>) }"

definition lock_acquire_resume :: "nat \<Rightarrow> int \<Rightarrow> syn \<Rightarrow> syn option" where
  "lock_acquire_resume l spl sy = do {
     ts \<leftarrow> thread_sleep_resume (sy_ts sy);
     lk \<leftarrow> sy_lock sy l;
     Some (sy\<lparr>sy_ts := snd (splx spl ts), sy_lock := (sy_lock sy)(l \<mapsto> lk\<lparr>lk_held := ts_cur ts\<rparr>)\<rparr>) }"

definition lock_release :: "(nat \<Rightarrow> bool) \<Rightarrow> nat \<Rightarrow> syn \<Rightarrow> syn option" where
  "lock_release okf l sy = do {
     lk \<leftarrow> sy_lock sy l;
     mine \<leftarrow> lock_do_i_hold l sy;
     kassert mine;
     let (spl, ts) = splhigh (sy_ts sy);
     q \<leftarrow> lk_wait lk;
     if \<not> q_empty q then do {
       (t, q1) \<leftarrow> q_remhead q;
       ts1 \<leftarrow> thread_wakeup okf t ts;
       Some (sy\<lparr>sy_ts := snd (splx spl ts1),
                sy_lock := (sy_lock sy)(l \<mapsto> lk\<lparr>lk_held := Some t, lk_wait := Some q1\<rparr>)\<rparr>) }
     else Some (sy\<lparr>sy_ts := snd (splx spl ts), sy_lock := (sy_lock sy)(l \<mapsto> lk\<lparr>lk_held := None\<rparr>)\<rparr>) }"

section \<open>Condition variables\<close>

definition cv_create :: "bool \<Rightarrow> bool \<Rightarrow> bool \<Rightarrow> bool \<Rightarrow> cv option" where
  "cv_create ok okname okq okdata =
     (if \<not> ok then None else if \<not> okname then None else Some \<lparr>cv_queue = q_create okq okdata 10\<rparr>)"

definition cv_destroy :: "nat \<Rightarrow> syn \<Rightarrow> syn option" where
  "cv_destroy c sy = do {
     v \<leftarrow> sy_cv sy c;
     let (spl, ts) = splhigh (sy_ts sy);
     h \<leftarrow> thread_hassleepers c ts;
     kassert (\<not> h);
     q \<leftarrow> cv_queue v;
     blocks \<leftarrow> q_destroy q;
     Some (sy\<lparr>sy_ts := snd (splx spl ts), sy_cv := (sy_cv sy)(c := None)\<rparr>) }"

text \<open>
  \<^verbatim>\<open>cv_wait\<close> in its four parts. Interrupts are enabled between the first, which releases the lock,
  and the second, which enters the queue; the last is \<^verbatim>\<open>lock_acquire\<close>.
\<close>

definition cv_wait_release :: "(nat \<Rightarrow> bool) \<Rightarrow> nat \<Rightarrow> nat \<Rightarrow> syn \<Rightarrow> syn option" where
  "cv_wait_release okf c l sy = do {
     v \<leftarrow> sy_cv sy c;
     mine \<leftarrow> lock_do_i_hold l sy;
     kassert mine;
     lock_release okf l sy }"

definition cv_wait_sleep :: "bool \<Rightarrow> bool \<Rightarrow> (tsys \<Rightarrow> tsys) \<Rightarrow> nat \<Rightarrow> syn \<Rightarrow> syn option" where
  "cv_wait_sleep okq oks idle c sy = do {
     let (spl, ts) = splhigh (sy_ts sy);
     v \<leftarrow> sy_cv sy c;
     me \<leftarrow> ts_cur ts;
     q \<leftarrow> cv_queue v;
     (err, q1) \<leftarrow> q_addtail okq q me;
     kassert (err = Inr ());
     ts1 \<leftarrow> thread_sleep False oks idle me ts;
     Some (sy\<lparr>sy_ts := ts1, sy_cv := (sy_cv sy)(c \<mapsto> v\<lparr>cv_queue := Some q1\<rparr>)\<rparr>) }"

definition cv_wait_resume :: "int \<Rightarrow> syn \<Rightarrow> syn option" where
  "cv_wait_resume spl sy = do {
     ts \<leftarrow> thread_sleep_resume (sy_ts sy);
     Some (sy\<lparr>sy_ts := snd (splx spl ts)\<rparr>) }"

definition cv_signal :: "(nat \<Rightarrow> bool) \<Rightarrow> nat \<Rightarrow> nat \<Rightarrow> syn \<Rightarrow> syn option" where
  "cv_signal okf c l sy = do {
     v \<leftarrow> sy_cv sy c;
     mine \<leftarrow> lock_do_i_hold l sy;
     kassert mine;
     let (spl, ts) = splhigh (sy_ts sy);
     q \<leftarrow> cv_queue v;
     if \<not> q_empty q then do {
       (t, q1) \<leftarrow> q_remhead q;
       ts1 \<leftarrow> thread_wakeup okf t ts;
       Some (sy\<lparr>sy_ts := snd (splx spl ts1), sy_cv := (sy_cv sy)(c \<mapsto> v\<lparr>cv_queue := Some q1\<rparr>)\<rparr>) }
     else Some (sy\<lparr>sy_ts := snd (splx spl ts)\<rparr>) }"

partial_function (option) wake_all :: "(nat \<Rightarrow> bool) \<Rightarrow> nat kqueue \<Rightarrow> tsys \<Rightarrow> (nat kqueue \<times> tsys) option" where
  "wake_all okf q ts =
     (if \<not> q_empty q then do {
        (t, q1) \<leftarrow> q_remhead q;
        ts1 \<leftarrow> thread_wakeup okf t ts;
        wake_all okf q1 ts1 }
      else Some (q, ts))"

declare wake_all.simps [code]

definition cv_broadcast :: "(nat \<Rightarrow> bool) \<Rightarrow> nat \<Rightarrow> nat \<Rightarrow> syn \<Rightarrow> syn option" where
  "cv_broadcast okf c l sy = do {
     v \<leftarrow> sy_cv sy c;
     mine \<leftarrow> lock_do_i_hold l sy;
     kassert mine;
     let (spl, ts) = splhigh (sy_ts sy);
     q \<leftarrow> cv_queue v;
     (q1, ts1) \<leftarrow> wake_all okf q ts;
     Some (sy\<lparr>sy_ts := snd (splx spl ts1), sy_cv := (sy_cv sy)(c \<mapsto> v\<lparr>cv_queue := Some q1\<rparr>)\<rparr>) }"

section \<open>What the primitives need from the thread system\<close>

text \<open>
  \<open>asleep_on s a t\<close>: thread \<open>t\<close> sleeps on address \<open>a\<close>. The laws say who falls asleep, who is woken, and
  that nobody else is affected.
\<close>

locale sleep_wake =
  fixes invar :: "'s \<Rightarrow> bool"
    and cur :: "'s \<Rightarrow> nat option"
    and asleep_on :: "'s \<Rightarrow> nat \<Rightarrow> nat \<Rightarrow> bool"
    and sleep :: "bool \<Rightarrow> nat \<Rightarrow> 's \<Rightarrow> 's option"
    and wakeup :: "(nat \<Rightarrow> bool) \<Rightarrow> nat \<Rightarrow> 's \<Rightarrow> 's option"
    and yield :: "bool \<Rightarrow> 's \<Rightarrow> 's option"
    and resume :: "'s \<Rightarrow> 's option"
  assumes cur_awake: "invar s \<Longrightarrow> cur s = Some t \<Longrightarrow> \<not> asleep_on s a t"
    and one_address: "invar s \<Longrightarrow> asleep_on s a t \<Longrightarrow> asleep_on s b t \<Longrightarrow> a = b"
    and sleep: "invar s \<Longrightarrow> cur s = Some t \<Longrightarrow> sleep ok a s = Some s' \<Longrightarrow>
          invar s' \<and> asleep_on s' b u = (if u = t then b = a else asleep_on s b u)"
    and wakeup: "invar s \<Longrightarrow> wakeup okf a s = Some s' \<Longrightarrow>
          invar s' \<and> cur s' = cur s \<and> asleep_on s' b u = (b \<noteq> a \<and> asleep_on s b u)"
    and yield: "invar s \<Longrightarrow> yield ok s = Some s' \<Longrightarrow> invar s' \<and> asleep_on s' b u = asleep_on s b u"
    and resume: "invar s \<Longrightarrow> resume s = Some s' \<Longrightarrow>
          invar s' \<and> cur s' = cur s \<and> asleep_on s' b u = asleep_on s b u"
begin

text \<open>Waking an address on which a single thread sleeps wakes that thread and no other.\<close>

lemma wakeup_single:
  assumes "invar s" "wakeup okf a s = Some s'" "asleep_on s a t" "\<And>u. asleep_on s a u \<Longrightarrow> u = t"
  shows "\<not> asleep_on s' b t" "u \<noteq> t \<Longrightarrow> asleep_on s' b u = asleep_on s b u"
proof -
  note w = wakeup [OF assms(1,2)]
  show "\<not> asleep_on s' b t" using w one_address [OF assms(1,3), of b] by blast
  show "u \<noteq> t \<Longrightarrow> asleep_on s' b u = asleep_on s b u" using w assms(4) by blast
qed

end

text \<open>
  The steps below are those of executions in which some thread can always run: interrupts do nothing
  while the scheduler waits, so waiting does not end.
\<close>

definition ts_ok :: "tsys \<Rightarrow> bool" where
  "ts_ok ts \<longleftrightarrow> ts_inv ts \<and> ts_reserved ts \<and> ts_cur ts \<noteq> None"

definition asleep_on :: "tsys \<Rightarrow> nat \<Rightarrow> nat \<Rightarrow> bool" where
  "asleep_on ts a t \<longleftrightarrow> t \<in> set (sleep_list ts) \<and> sleeping_on ts a t"

lemma ts_inv_cur_awake:
  assumes "ts_inv ts" "ts_cur ts = Some t"
  shows "t \<notin> set (sleep_list ts)"
proof -
  have "distinct (live_threads ts)" using assms(1) by (simp only: ts_inv_def distinct_append)
  then show ?thesis using assms(2) by (simp add: live_threads_def)
qed

lemma thread_sleep_spl: "thread_sleep ii ok idle a ts = Some ts' \<Longrightarrow> ts_cur ts = Some t \<Longrightarrow> 0 < ts_spl ts"
  by (auto simp: thread_sleep_def set_sleepaddr_def mi_switch_def bind_eq_Some_conv)

lemma thread_sleep_resume_returns:
  assumes "ts_inv ts" "ts_reserved ts" "ts_cur ts = Some t" "thread_sleep_resume ts = Some ts'"
  shows "ts_inv ts' \<and> ts_reserved ts' \<and> ts_cur ts' = Some t \<and> ts_spl ts' = ts_spl ts \<and>
     sleep_list ts' = sleep_list ts \<and> (\<forall>u \<in> set (sleep_list ts). ts_thr ts' u = ts_thr ts u)"
proof -
  obtain ts1 where ts1: "exorcise ts = Some ts1" and r: "ts_cur ts1 \<bind> (\<lambda>t. set_sleepaddr t None ts1) = Some ts'"
    using assms(4) by (cases "exorcise ts") (simp_all add: thread_sleep_resume_def switch_resume_def)
  note ex = exorcise_returns [OF assms(1) ts1]
  have c: "ts_cur ts1 = Some t" "ts_inv ts1" "ts_reserved ts1" using ex assms by simp_all
  obtain th where th: "ts_thr ts1 t = Some th" using ts_inv_magic(2) [OF c(2,1)] by blast
  have ts': "ts' = ts1\<lparr>ts_thr := (ts_thr ts1)(t \<mapsto> th\<lparr>t_sleepaddr := None\<rparr>)\<rparr>"
    using r c th by (simp add: set_sleepaddr_def)
  have "ts_inv ts'"
    unfolding ts' using c(2) th by (intro ts_inv_cong [OF c(2)]) (simp_all add: ts_inv_def live_threads_def)
  moreover have "t \<notin> set (sleep_list ts)" using ts_inv_cur_awake [OF assms(1,3)] .
  moreover have "\<forall>u \<in> set (sleep_list ts). ts_thr ts1 u = ts_thr ts u" using ex by (simp add: live_threads_def)
  ultimately show ?thesis using ex c by (auto simp: ts' ts_reserved_def)
qed

interpretation tsw: sleep_wake ts_ok ts_cur asleep_on "\<lambda>ok a. thread_sleep False ok (\<lambda>ts. ts) a" thread_wakeup
  "\<lambda>ok. thread_yield ok (\<lambda>ts. ts)" thread_sleep_resume
proof
  show "\<not> asleep_on ts a t" if "ts_ok ts" "ts_cur ts = Some t" for ts t a
    using ts_inv_cur_awake that by (auto simp: ts_ok_def asleep_on_def)
  show "a = b" if "ts_ok ts" "asleep_on ts a t" "asleep_on ts b t" for ts a b t
    using that by (auto simp: asleep_on_def sleeping_on_def split: option.splits)
  show "ts_ok ts' \<and> asleep_on ts' b u = (if u = t then b = x else asleep_on ts b u)"
    if a: "ts_ok ts" "ts_cur ts = Some t" "thread_sleep False ok (\<lambda>ts. ts) x ts = Some ts'" for ts t ok x ts' b u
  proof -
    note r = thread_sleep_returns [OF _ _ thread_sleep_spl [OF a(3,2)] a(2,3)]
    obtain th where "ts_thr ts t = Some th" using ts_inv_magic(2) [OF _ a(2)] a(1) by (auto simp: ts_ok_def)
    then show ?thesis
      using r a(1) by (auto simp: ts_ok_def asleep_on_def sleeping_on_def)
  qed
  show "ts_ok ts' \<and> ts_cur ts' = ts_cur ts \<and> asleep_on ts' b u = (b \<noteq> x \<and> asleep_on ts b u)"
    if a: "ts_ok ts" "thread_wakeup okf x ts = Some ts'" for ts okf x ts' b u
  proof -
    obtain t where t: "ts_cur ts = Some t" using a(1) by (auto simp: ts_ok_def)
    have "0 < ts_spl ts" using a(2) by (auto simp: thread_wakeup_def bind_eq_Some_conv)
    from thread_wakeup_spec [OF _ _ this t, of okf x] have
      "ts_inv ts'" "ts_reserved ts'" "ts_cur ts' = Some t" "ts_thr ts' = ts_thr ts"
      "sleep_list ts' = filter (\<lambda>t. \<not> sleeping_on ts x t) (sleep_list ts)"
      using a by (auto simp: ts_ok_def)
    then show ?thesis
      using t by (auto simp: ts_ok_def asleep_on_def sleeping_on_def split: option.splits)
  qed
  show "ts_ok ts' \<and> asleep_on ts' b u = asleep_on ts b u"
    if a: "ts_ok ts" "thread_yield ok (\<lambda>ts. ts) ts = Some ts'" for ts ok ts' b u
  proof -
    obtain t where t: "ts_cur ts = Some t" using a(1) by (auto simp: ts_ok_def)
    show ?thesis
      using thread_yield_returns [OF _ _ t a(2)] a(1) by (auto simp: ts_ok_def asleep_on_def sleeping_on_def)
  qed
  show "ts_ok ts' \<and> ts_cur ts' = ts_cur ts \<and> asleep_on ts' b u = asleep_on ts b u"
    if a: "ts_ok ts" "thread_sleep_resume ts = Some ts'" for ts ts' b u
  proof -
    obtain t where t: "ts_cur ts = Some t" using a(1) by (auto simp: ts_ok_def)
    show ?thesis
      using thread_sleep_resume_returns [OF _ _ t a(2)] a(1) t
      by (simp add: ts_ok_def asleep_on_def sleeping_on_def cong: conj_cong)
  qed
qed

text \<open>The rest of the kernel: what any thread may do to the thread system, and the addresses it uses.\<close>

datatype env_op = Op_yield bool | Op_sleep bool nat | Op_wakeup "nat \<Rightarrow> bool" nat | Op_resume | Op_spl int

fun env_do :: "env_op \<Rightarrow> tsys \<Rightarrow> tsys option" where
  "env_do (Op_yield ok) ts = thread_yield ok (\<lambda>ts. ts) ts"
| "env_do (Op_sleep ok a) ts = thread_sleep False ok (\<lambda>ts. ts) a ts"
| "env_do (Op_wakeup okf a) ts = thread_wakeup okf a ts"
| "env_do Op_resume ts = thread_sleep_resume ts"
| "env_do (Op_spl n) ts = Some (snd (splx n ts))"

fun env_addrs :: "env_op \<Rightarrow> nat set" where
  "env_addrs (Op_sleep ok a) = {a}"
| "env_addrs (Op_wakeup okf a) = {a}"
| "env_addrs op = {}"

lemma ts_ok_spl [simp]: "ts_ok (ts\<lparr>ts_spl := n\<rparr>) = ts_ok ts"
  by (simp add: ts_ok_def ts_inv_def ts_reserved_def live_threads_def)

lemma asleep_on_spl [simp]: "asleep_on (ts\<lparr>ts_spl := n\<rparr>) = asleep_on ts"
  by (intro ext) (simp add: asleep_on_def sleeping_on_def)

lemma env_do_keeps:
  assumes "ts_ok ts" "env_do op ts = Some ts'"
  shows "ts_ok ts'" "b \<notin> env_addrs op \<Longrightarrow> asleep_on ts' b u = asleep_on ts b u"
    and "ts_cur ts \<noteq> Some u \<Longrightarrow> asleep_on ts' b u \<Longrightarrow> asleep_on ts b u"
proof -
  obtain t where t: "ts_cur ts = Some t" using assms(1) by (auto simp: ts_ok_def)
  have "ts_ok ts' \<and> (b \<notin> env_addrs op \<longrightarrow> asleep_on ts' b u = asleep_on ts b u) \<and>
    (ts_cur ts \<noteq> Some u \<longrightarrow> asleep_on ts' b u \<longrightarrow> asleep_on ts b u)"
  proof (cases op)
    case (Op_sleep ok a)
    then show ?thesis using tsw.sleep [OF assms(1) t, of ok a ts' b u] assms t tsw.cur_awake [OF assms(1) t, of b]
      by (auto split: if_splits)
  qed (use assms tsw.yield [of ts _ ts' b u] tsw.wakeup [of ts _ _ ts' b u] tsw.resume [of ts ts' b u] in
        \<open>auto simp: splx_def\<close>)
  then show "ts_ok ts'" "b \<notin> env_addrs op \<Longrightarrow> asleep_on ts' b u = asleep_on ts b u"
    and "ts_cur ts \<noteq> Some u \<Longrightarrow> asleep_on ts' b u \<Longrightarrow> asleep_on ts b u" by blast+
qed

lemma asleep_few:
  assumes "ts_ok ts" "distinct xs" "\<And>u. u \<in> set xs \<Longrightarrow> asleep_on ts (f u) u"
  shows "length xs < 2 ^ 28"
proof -
  obtain t where t: "ts_cur ts = Some t" using assms(1) by (auto simp: ts_ok_def)
  have "set xs \<subseteq> set (sleep_list ts)" using assms(3) by (auto simp: asleep_on_def)
  then have "card (set xs) \<le> length (sleep_list ts)"
    using card_mono [of "set (sleep_list ts)" "set xs"] card_length [of "sleep_list ts"] by (auto intro: le_trans)
  moreover have "int (length (sleep_list ts)) < 2 ^ 28"
    using ts_count [OF _ t] assms(1) by (auto simp: ts_ok_def ts_inv_def)
  ultimately show ?thesis using assms(2) by (simp add: distinct_card)
qed

section \<open>Locks: one holder, in order of arrival\<close>

text \<open>
  \<open>lock_step T l\<close> is one atomic step of a system in which the threads \<open>T\<close> use the lock \<open>l\<close>, each
  where its control point says, and everything else leaves the addresses of \<open>T\<close> alone.
\<close>

datatype lpc = Outside | Waiting int | Holding

record lsys =
  ls_sy :: syn
  ls_pc :: "nat \<Rightarrow> lpc"

inductive lock_step :: "nat set \<Rightarrow> nat \<Rightarrow> lsys \<Rightarrow> lsys \<Rightarrow> bool" for T l where
  acquire: "ts_cur (sy_ts sy) = Some t \<Longrightarrow> t \<in> T \<Longrightarrow> pc t = Outside \<Longrightarrow>
    lock_acquire False okq oks (\<lambda>ts. ts) l sy = Some (Returned, sy') \<Longrightarrow>
    lock_step T l \<lparr>ls_sy = sy, ls_pc = pc\<rparr> \<lparr>ls_sy = sy', ls_pc = pc(t := Holding)\<rparr>"
| wait: "ts_cur (sy_ts sy) = Some t \<Longrightarrow> t \<in> T \<Longrightarrow> pc t = Outside \<Longrightarrow>
    lock_acquire False okq oks (\<lambda>ts. ts) l sy = Some (Asleep, sy') \<Longrightarrow>
    lock_step T l \<lparr>ls_sy = sy, ls_pc = pc\<rparr> \<lparr>ls_sy = sy', ls_pc = pc(t := Waiting (ts_spl (sy_ts sy)))\<rparr>"
| resume: "ts_cur (sy_ts sy) = Some t \<Longrightarrow> t \<in> T \<Longrightarrow> pc t = Waiting spl \<Longrightarrow>
    lock_acquire_resume l spl sy = Some sy' \<Longrightarrow>
    lock_step T l \<lparr>ls_sy = sy, ls_pc = pc\<rparr> \<lparr>ls_sy = sy', ls_pc = pc(t := Holding)\<rparr>"
| release: "ts_cur (sy_ts sy) = Some t \<Longrightarrow> t \<in> T \<Longrightarrow> pc t = Holding \<Longrightarrow>
    lock_release okf l sy = Some sy' \<Longrightarrow>
    lock_step T l \<lparr>ls_sy = sy, ls_pc = pc\<rparr> \<lparr>ls_sy = sy', ls_pc = pc(t := Outside)\<rparr>"
| env: "env_do op (sy_ts sy) = Some ts \<Longrightarrow> env_addrs op \<inter> T = {} \<Longrightarrow>
    ts_cur (sy_ts sy) = Some t \<Longrightarrow> (\<And>n. pc t \<noteq> Waiting n) \<Longrightarrow>
    lock_step T l \<lparr>ls_sy = sy, ls_pc = pc\<rparr> \<lparr>ls_sy = sy\<lparr>sy_ts := ts\<rparr>, ls_pc = pc\<rparr>"

text \<open>
  The holder is the thread at the head of the abstract queue and the waiters follow it: a waiter is
  asleep on its own address as long as it is queued, and awake and the holder once it is not.
\<close>

definition lock_ok :: "nat set \<Rightarrow> (nat \<Rightarrow> nat \<Rightarrow> bool) \<Rightarrow> (nat \<Rightarrow> lpc) \<Rightarrow> nat option \<Rightarrow> nat list \<Rightarrow> bool" where
  "lock_ok T A pc held xs \<longleftrightarrow> distinct xs \<and> set xs \<subseteq> T \<and> (held = None \<longrightarrow> xs = []) \<and>
     (\<forall>t. held = Some t \<longrightarrow> t \<in> T \<and> t \<notin> set xs \<and> pc t \<noteq> Outside) \<and>
     (\<forall>t. pc t = Holding \<longrightarrow> held = Some t) \<and>
     (\<forall>t \<in> set xs. (\<exists>spl. pc t = Waiting spl) \<and> A t t) \<and>
     (\<forall>t spl. pc t = Waiting spl \<longrightarrow> t \<in> set xs \<or> held = Some t) \<and>
     (\<forall>a u. A a u \<and> (a \<in> T \<or> (\<exists>spl. pc u = Waiting spl)) \<longrightarrow> a = u \<and> u \<in> set xs)"

definition lock_inv :: "nat set \<Rightarrow> nat \<Rightarrow> lsys \<Rightarrow> bool" where
  "lock_inv T l s \<longleftrightarrow> ts_ok (sy_ts (ls_sy s)) \<and>
     (\<exists>lk q. sy_lock (ls_sy s) l = Some lk \<and> lk_wait lk = Some q \<and> q_wf q \<and>
        lock_ok T (asleep_on (sy_ts (ls_sy s))) (ls_pc s) (lk_held lk) (q_elems q))"

lemma lock_okI:
  assumes "distinct xs" "set xs \<subseteq> T" "held = None \<Longrightarrow> xs = []"
    and "\<And>t. held = Some t \<Longrightarrow> t \<in> T \<and> t \<notin> set xs \<and> pc t \<noteq> Outside"
    and "\<And>t. pc t = Holding \<Longrightarrow> held = Some t"
    and "\<And>t. t \<in> set xs \<Longrightarrow> (\<exists>n. pc t = Waiting n) \<and> A t t"
    and "\<And>t n. pc t = Waiting n \<Longrightarrow> t \<in> set xs \<or> held = Some t"
    and "\<And>a u. A a u \<Longrightarrow> a \<in> T \<or> (\<exists>n. pc u = Waiting n) \<Longrightarrow> a = u \<and> u \<in> set xs"
  shows "lock_ok T A pc held xs"
  unfolding lock_ok_def using assms(1-2)
  by (intro conjI allI ballI impI; (elim conjE)?) (use assms(3-8) in \<open>blast+\<close>)

lemma lock_okD:
  assumes "lock_ok T A pc held xs"
  shows "distinct xs" "set xs \<subseteq> T" "held = None \<Longrightarrow> xs = []"
    and "held = Some t \<Longrightarrow> t \<in> T" "held = Some t \<Longrightarrow> t \<notin> set xs" "held = Some t \<Longrightarrow> pc t \<noteq> Outside"
    and "pc t = Holding \<Longrightarrow> held = Some t"
    and "t \<in> set xs \<Longrightarrow> \<exists>n. pc t = Waiting n" "t \<in> set xs \<Longrightarrow> A t t"
    and "pc t = Waiting n \<Longrightarrow> t \<in> set xs \<or> held = Some t"
    and "A a u \<Longrightarrow> a \<in> T \<Longrightarrow> a = u \<and> u \<in> set xs" "A a u \<Longrightarrow> pc u = Waiting n \<Longrightarrow> a = u \<and> u \<in> set xs"
proof -
  note l = assms [unfolded lock_ok_def]
  show "distinct xs" "set xs \<subseteq> T" "held = None \<Longrightarrow> xs = []" using l by simp_all
  show "held = Some t \<Longrightarrow> t \<in> T" "held = Some t \<Longrightarrow> t \<notin> set xs" "held = Some t \<Longrightarrow> pc t \<noteq> Outside" using l by simp_all
  show "pc t = Holding \<Longrightarrow> held = Some t" using l by simp
  show "t \<in> set xs \<Longrightarrow> \<exists>n. pc t = Waiting n" "t \<in> set xs \<Longrightarrow> A t t" using l by simp_all
  show "pc t = Waiting n \<Longrightarrow> t \<in> set xs \<or> held = Some t" using l by simp
  from l have a: "\<forall>a u. A a u \<and> (a \<in> T \<or> (\<exists>spl. pc u = Waiting spl)) \<longrightarrow> a = u \<and> u \<in> set xs"
    by (elim conjE)
  show "A a u \<Longrightarrow> a \<in> T \<Longrightarrow> a = u \<and> u \<in> set xs" "A a u \<Longrightarrow> pc u = Waiting n \<Longrightarrow> a = u \<and> u \<in> set xs"
    using a [rule_format, of a u] by blast+
qed

lemma lock_ok_acquire:
  assumes l: "lock_ok T A pc None xs" and t: "pc t = Outside" "t \<in> T"
  shows "lock_ok T A (pc(t := Holding)) (Some t) xs"
proof (rule lock_okI)
  have xs: "xs = []" using lock_okD(3) [OF l] by simp
  have w: "pc u \<noteq> Holding" "pc u \<noteq> Waiting n" for u n using lock_okD(7,10) [OF l] xs by fastforce+
  show "distinct xs" "set xs \<subseteq> T" using xs by simp_all
  show "u \<in> T \<and> u \<notin> set xs \<and> (pc(t := Holding)) u \<noteq> Outside" if "Some t = Some u" for u using that t xs by simp
  show "Some t = Some u" if "(pc(t := Holding)) u = Holding" for u using that w(1) by (auto split: if_splits)
  show "u \<in> set xs \<or> Some t = Some u" if "(pc(t := Holding)) u = Waiting n" for u n using that w(2) by (auto split: if_splits)
  show "a = u \<and> u \<in> set xs" if "A a u" "a \<in> T \<or> (\<exists>n. (pc(t := Holding)) u = Waiting n)" for a u
    using that w(2) lock_okD(11) [OF l] by (auto split: if_splits)
qed (use lock_okD(3) [OF l] in simp_all)

lemma lock_ok_wait:
  assumes l: "lock_ok T A pc (Some h) xs" and t: "pc t = Outside" "t \<in> T"
    and A: "\<And>b u. A' b u = (if u = t then b = t else A b u)"
  shows "lock_ok T A' (pc(t := Waiting n)) (Some h) (xs @ [t])"
proof (rule lock_okI)
  have tx: "t \<notin> set xs" "h \<noteq> t" using lock_okD(6,8) [OF l, of t] t(1) by auto
  show "distinct (xs @ [t])" "set (xs @ [t]) \<subseteq> T" using lock_okD(1,2) [OF l] tx t(2) by auto
  show "u \<in> T \<and> u \<notin> set (xs @ [t]) \<and> (pc(t := Waiting n)) u \<noteq> Outside" if "Some h = Some u" for u
    using that tx lock_okD(4-6) [OF l, of u] by auto
  show "Some h = Some u" if "(pc(t := Waiting n)) u = Holding" for u
    using that lock_okD(7) [OF l, of u] by (auto split: if_splits)
  show "(\<exists>m. (pc(t := Waiting n)) u = Waiting m) \<and> A' u u" if "u \<in> set (xs @ [t])" for u
    using that lock_okD(8,9) [OF l, of u] by (auto simp: A)
  show "u \<in> set (xs @ [t]) \<or> Some h = Some u" if "(pc(t := Waiting n)) u = Waiting m" for u m
    using that lock_okD(10) [OF l, of u m] by (auto split: if_splits)
  show "a = u \<and> u \<in> set (xs @ [t])" if "A' a u" "a \<in> T \<or> (\<exists>m. (pc(t := Waiting n)) u = Waiting m)" for a u
    using that lock_okD(11,12) [OF l, of a u] by (auto simp: A split: if_splits)
qed simp

lemma lock_ok_resume:
  assumes l: "lock_ok T A pc held xs" and t: "pc t = Waiting n" "\<not> A t t"
  shows "held = Some t" "lock_ok T A (pc(t := Holding)) (Some t) xs"
proof -
  show h: "held = Some t" using lock_okD(9,10) [OF l, of t] t by blast
  show "lock_ok T A (pc(t := Holding)) (Some t) xs"
  proof (rule lock_okI)
    show "u \<in> T \<and> u \<notin> set xs \<and> (pc(t := Holding)) u \<noteq> Outside" if "Some t = Some u" for u
      using that lock_okD(4,5) [OF l, of u] h by auto
    show "Some t = Some u" if "(pc(t := Holding)) u = Holding" for u
      using that lock_okD(7) [OF l, of u] h by (auto split: if_splits)
    show "(\<exists>m. (pc(t := Holding)) u = Waiting m) \<and> A u u" if "u \<in> set xs" for u
      using that lock_okD(8,9) [OF l, of u] lock_okD(5) [OF l h] by auto
    show "u \<in> set xs \<or> Some t = Some u" if "(pc(t := Holding)) u = Waiting m" for u m
      using that lock_okD(10) [OF l, of u m] h by (auto split: if_splits)
    show "a = u \<and> u \<in> set xs" if "A a u" "a \<in> T \<or> (\<exists>m. (pc(t := Holding)) u = Waiting m)" for a u
      using that lock_okD(11,12) [OF l, of a u] by (auto split: if_splits)
  qed (use lock_okD(1,2) [OF l] in simp_all)
qed

lemma lock_ok_release_Nil:
  assumes l: "lock_ok T A pc (Some t) []" and t: "pc t = Holding"
  shows "lock_ok T A (pc(t := Outside)) None []"
proof (rule lock_okI)
  have w: "pc u \<noteq> Holding" "pc u \<noteq> Waiting n" if "u \<noteq> t" for u n
    using that lock_okD(7) [OF l, of u] lock_okD(10) [OF l, of u] by auto
  show "None = Some u" if "(pc(t := Outside)) u = Holding" for u using that w(1) by (auto split: if_splits)
  show "u \<in> set [] \<or> None = Some u" if "(pc(t := Outside)) u = Waiting m" for u m using that w(2) by (auto split: if_splits)
  show "a = u \<and> u \<in> set []" if "A a u" "a \<in> T \<or> (\<exists>m. (pc(t := Outside)) u = Waiting m)" for a u
    using that lock_okD(11,12) [OF l, of a u] by (auto split: if_splits)
qed simp_all

lemma lock_ok_release_Cons:
  assumes l: "lock_ok T A pc (Some t) (u # xs)" and t: "pc t = Holding"
    and A: "\<And>b. \<not> A' b u" "\<And>b w. w \<noteq> u \<Longrightarrow> A' b w = A b w"
  shows "lock_ok T A' (pc(t := Outside)) (Some u) xs"
proof (rule lock_okI)
  have u: "u \<noteq> t" "u \<in> T" "u \<notin> set xs" "t \<notin> set xs" "\<exists>n. pc u = Waiting n"
    using lock_okD(1,2,5,8) [OF l] by auto
  show "distinct xs" "set xs \<subseteq> T" using lock_okD(1,2) [OF l] by simp_all
  show "w \<in> T \<and> w \<notin> set xs \<and> (pc(t := Outside)) w \<noteq> Outside" if "Some u = Some w" for w
    using that u by auto
  show "Some u = Some w" if "(pc(t := Outside)) w = Holding" for w
    using that lock_okD(7) [OF l, of w] by (auto split: if_splits)
  show "(\<exists>m. (pc(t := Outside)) w = Waiting m) \<and> A' w w" if "w \<in> set xs" for w
    using that lock_okD(8,9) [OF l, of w] u A(2) [of w w] by (cases "w = u"; cases "w = t") auto
  show "w \<in> set xs \<or> Some u = Some w" if "(pc(t := Outside)) w = Waiting m" for w m
    using that lock_okD(10) [OF l, of w m] by (auto split: if_splits)
  show "a = w \<and> w \<in> set xs" if "A' a w" "a \<in> T \<or> (\<exists>m. (pc(t := Outside)) w = Waiting m)" for a w
    using that lock_okD(11,12) [OF l, of a w] A(1) [of a] A(2) [of w a] by (cases "w = u") (auto split: if_splits)
qed simp

lemma lock_ok_cong:
  assumes l: "lock_ok T A pc held xs" and A: "\<And>b u. b \<in> T \<Longrightarrow> A' b u = A b u"
    and W: "\<And>b u n. pc u = Waiting n \<Longrightarrow> A' b u \<Longrightarrow> A b u"
  shows "lock_ok T A' pc held xs"
proof (rule lock_okI)
  show "u \<in> T \<and> u \<notin> set xs \<and> pc u \<noteq> Outside" if "held = Some u" for u using that lock_okD(4-6) [OF l] by blast
  show "(\<exists>m. pc u = Waiting m) \<and> A' u u" if "u \<in> set xs" for u
    using that lock_okD(2) [OF l] lock_okD(8,9) [OF l, of u] A [of u u] by blast
  show "a = u \<and> u \<in> set xs" if "A' a u" "a \<in> T \<or> (\<exists>m. pc u = Waiting m)" for a u
    using that lock_okD(11,12) [OF l, of a u] A [of a u] W [of u _ a] by blast
qed (use lock_okD(1-3,7,10) [OF l] in simp_all)

text \<open>The operations of the lock on a queue in order.\<close>

lemma lock_acquire_free:
  assumes "sy_lock sy l = Some lk" "lk_held lk = None"
  shows "lock_acquire False okq oks idle l sy =
    Some (Returned, sy\<lparr>sy_lock := (sy_lock sy)(l \<mapsto> lk\<lparr>lk_held := ts_cur (sy_ts sy)\<rparr>)\<rparr>)"
  using assms by (simp add: lock_acquire_def splhigh_def splx_def)

lemma lock_acquire_held:
  assumes "sy_lock sy l = Some lk" "lk_held lk = Some h" "lk_wait lk = Some q" "q_wf q" "length (q_elems q) < 2 ^ 28"
    and "ts_ok (sy_ts sy)" "ts_cur (sy_ts sy) = Some t"
    and "lock_acquire False okq oks (\<lambda>ts. ts) l sy = Some (r, sy')"
  shows "r = Asleep \<and> ts_ok (sy_ts sy') \<and>
         (\<forall>b u. asleep_on (sy_ts sy') b u = (if u = t then b = t else asleep_on (sy_ts sy) b u)) \<and>
         (\<exists>q'. sy_lock sy' = (sy_lock sy)(l \<mapsto> lk\<lparr>lk_wait := Some q'\<rparr>) \<and> q_wf q' \<and> q_elems q' = q_elems q @ [t]) \<or>
         r = Killed \<and> sy_ts sy' = sy_ts sy \<and>
         (\<exists>q'. sy_lock sy' = (sy_lock sy)(l \<mapsto> lk\<lparr>lk_wait := Some q'\<rparr>) \<and> q_wf q' \<and> q_elems q' = q_elems q)"
proof -
  let ?ts = "(sy_ts sy)\<lparr>ts_spl := 15\<rparr>"
  obtain e q' where q': "q_addtail okq q t = Some (e, q')" "q_wf q'"
      "e = Inr () \<and> q_elems q' = q_elems q @ [t] \<or> e = Inl ENOMEM \<and> q_elems q' = q_elems q"
    using rq.addtail [OF assms(4,5), of okq t] by blast
  show ?thesis
  proof (cases "e = Inr ()")
    case True
    then obtain ts1 where ts1: "thread_sleep False oks (\<lambda>ts. ts) t ?ts = Some ts1"
        "r = Asleep" "sy' = sy\<lparr>sy_ts := ts1, sy_lock := (sy_lock sy)(l \<mapsto> lk\<lparr>lk_wait := Some q'\<rparr>)\<rparr>"
      using assms q' by (auto simp: lock_acquire_def splhigh_def splx_def bind_eq_Some_conv)
    have ok: "ts_ok ?ts" "ts_cur ?ts = Some t" using assms by simp_all
    have "q_elems q' = q_elems q @ [t]" using q'(3) True by simp
    then show ?thesis
      using tsw.sleep [OF ok ts1(1)] q'(2) by (intro disjI1 conjI exI [of _ q']) (simp_all add: ts1(2,3))
  next
    case False
    then show ?thesis
      using assms q' by (auto simp: lock_acquire_def splhigh_def splx_def bind_eq_Some_conv)
  qed
qed

lemma lock_release_cases:
  assumes "sy_lock sy l = Some lk" "lk_held lk = Some t" "lk_wait lk = Some q" "q_wf q"
    and "ts_ok (sy_ts sy)" "ts_cur (sy_ts sy) = Some t" "lock_release okf l sy = Some sy'"
  shows "q_elems q = [] \<and> sy' = sy\<lparr>sy_lock := (sy_lock sy)(l \<mapsto> lk\<lparr>lk_held := None\<rparr>)\<rparr> \<or>
    (\<exists>u xs q' ts1. q_elems q = u # xs \<and> q_wf q' \<and> q_elems q' = xs \<and>
       sy_lock sy' = (sy_lock sy)(l \<mapsto> lk\<lparr>lk_held := Some u, lk_wait := Some q'\<rparr>) \<and>
       sy_ts sy' = ts1\<lparr>ts_spl := ts_spl (sy_ts sy)\<rparr> \<and>
       thread_wakeup okf u ((sy_ts sy)\<lparr>ts_spl := 15\<rparr>) = Some ts1)"
proof (cases "q_elems q")
  case Nil
  then have "q_empty q" using rq.isempty [OF assms(4)] by simp
  then show ?thesis
    using assms Nil by (simp add: lock_release_def lock_do_i_hold_def splhigh_def splx_def)
next
  case (Cons u xs)
  then have e: "\<not> q_empty q" using rq.isempty [OF assms(4)] by simp
  obtain q' where "q_remhead q = Some (u, q')" "q_wf q'" "q_elems q' = xs"
    using rq.remhead_Cons [OF assms(4) Cons] by blast
  then show ?thesis
    using assms Cons e
    by (auto simp: lock_release_def lock_do_i_hold_def splhigh_def splx_def bind_eq_Some_conv)
qed

definition lock_abs :: "nat \<Rightarrow> syn \<Rightarrow> nat list" where
  "lock_abs l sy = (case sy_lock sy l of None \<Rightarrow> [] | Some lk \<Rightarrow>
     (case lk_held lk of None \<Rightarrow> [] | Some h \<Rightarrow> [h]) @
     (case lk_wait lk of None \<Rightarrow> [] | Some q \<Rightarrow> q_elems q))"

text \<open>The abstract lock: a queue of threads, the holder first; a step leaves it, enters it, or serves its head.\<close>

definition queue_lock_step :: "(nat \<Rightarrow> lpc) \<Rightarrow> nat list \<Rightarrow> nat list \<Rightarrow> bool" where
  "queue_lock_step pc xs ys \<longleftrightarrow>
     ys = xs \<or> (\<exists>t. pc t = Outside \<and> t \<notin> set xs \<and> ys = xs @ [t]) \<or> (\<exists>t. pc t = Holding \<and> xs = t # ys)"

lemma lock_ok_room:
  "ts_ok ts \<Longrightarrow> lock_ok T (asleep_on ts) pc held xs \<Longrightarrow> length xs < 2 ^ 28"
  by (rule asleep_few [of ts xs "\<lambda>u. u"]) (simp_all add: lock_ok_def)

lemma lock_inv_acquire:
  assumes "lock_inv T l \<lparr>ls_sy = sy, ls_pc = pc\<rparr>" "ts_cur (sy_ts sy) = Some t" "t \<in> T" "pc t = Outside"
    and "lock_acquire False okq oks (\<lambda>ts. ts) l sy = Some (r, sy')"
  shows "r = Returned \<Longrightarrow> lock_inv T l \<lparr>ls_sy = sy', ls_pc = pc(t := Holding)\<rparr>"
    and "r = Asleep \<Longrightarrow> lock_inv T l \<lparr>ls_sy = sy', ls_pc = pc(t := Waiting n)\<rparr>"
    and "r \<noteq> Killed \<Longrightarrow> t \<notin> set (lock_abs l sy) \<and> lock_abs l sy' = lock_abs l sy @ [t]"
proof -
  obtain lk q where lk: "sy_lock sy l = Some lk" "lk_wait lk = Some q" "q_wf q" "ts_ok (sy_ts sy)"
      "lock_ok T (asleep_on (sy_ts sy)) pc (lk_held lk) (q_elems q)"
    using assms(1) by (auto simp: lock_inv_def)
  have out: "t \<notin> set (q_elems q)" "lk_held lk \<noteq> Some t" using lk(5) assms(4) by (auto simp: lock_ok_def)
  have "(r = Returned \<longrightarrow> lock_inv T l \<lparr>ls_sy = sy', ls_pc = pc(t := Holding)\<rparr>) \<and>
        (r = Asleep \<longrightarrow> lock_inv T l \<lparr>ls_sy = sy', ls_pc = pc(t := Waiting n)\<rparr>) \<and>
        (r \<noteq> Killed \<longrightarrow> t \<notin> set (lock_abs l sy) \<and> lock_abs l sy' = lock_abs l sy @ [t])"
  proof (cases "lk_held lk")
    case None
    have r: "r = Returned" "sy' = sy\<lparr>sy_lock := (sy_lock sy)(l \<mapsto> lk\<lparr>lk_held := Some t\<rparr>)\<rparr>"
      using lock_acquire_free [OF lk(1) None, of okq oks "\<lambda>ts. ts"] assms(2,5) by simp_all
    have "q_elems q = []" using lk(5) None by (simp add: lock_ok_def)
    moreover have "lock_ok T (asleep_on (sy_ts sy)) (pc(t := Holding)) (Some t) (q_elems q)"
      using lock_ok_acquire [OF lk(5) [unfolded None] assms(4,3)] .
    ultimately show ?thesis using lk None unfolding r by (simp add: lock_inv_def lock_abs_def)
  next
    case (Some h)
    note c = lock_acquire_held [OF lk(1) Some lk(2,3) lock_ok_room [OF lk(4,5)] lk(4) assms(2,5)]
    show ?thesis
    proof (cases "r = Asleep")
      case True
      then obtain q' where q': "sy_lock sy' = (sy_lock sy)(l \<mapsto> lk\<lparr>lk_wait := Some q'\<rparr>)" "q_wf q'"
          "q_elems q' = q_elems q @ [t]" using c by auto
      have "ts_ok (sy_ts sy')" using c True by simp
      moreover have "lock_ok T (asleep_on (sy_ts sy')) (pc(t := Waiting n)) (Some h) (q_elems q @ [t])"
        using lock_ok_wait [OF lk(5) [unfolded Some] assms(4,3)] c True by simp
      ultimately show ?thesis using lk Some q' True out by (simp add: lock_inv_def lock_abs_def)
    next
      case False
      then show ?thesis using c by simp
    qed
  qed
  then show "r = Returned \<Longrightarrow> lock_inv T l \<lparr>ls_sy = sy', ls_pc = pc(t := Holding)\<rparr>"
    and "r = Asleep \<Longrightarrow> lock_inv T l \<lparr>ls_sy = sy', ls_pc = pc(t := Waiting n)\<rparr>"
    and "r \<noteq> Killed \<Longrightarrow> t \<notin> set (lock_abs l sy) \<and> lock_abs l sy' = lock_abs l sy @ [t]" by blast+
qed

lemma lock_inv_resume:
  assumes "lock_inv T l \<lparr>ls_sy = sy, ls_pc = pc\<rparr>" "ts_cur (sy_ts sy) = Some t" "pc t = Waiting spl"
    and "lock_acquire_resume l n sy = Some sy'"
  shows "lock_inv T l \<lparr>ls_sy = sy', ls_pc = pc(t := Holding)\<rparr> \<and> lock_abs l sy' = lock_abs l sy"
proof -
  obtain lk q where lk: "sy_lock sy l = Some lk" "lk_wait lk = Some q" "q_wf q" "ts_ok (sy_ts sy)"
      "lock_ok T (asleep_on (sy_ts sy)) pc (lk_held lk) (q_elems q)"
    using assms(1) by (auto simp: lock_inv_def)
  obtain ts where ts: "thread_sleep_resume (sy_ts sy) = Some ts"
      "sy' = sy\<lparr>sy_ts := ts\<lparr>ts_spl := n\<rparr>, sy_lock := (sy_lock sy)(l \<mapsto> lk\<lparr>lk_held := ts_cur ts\<rparr>)\<rparr>"
    using assms(4) lk(1) by (auto simp: lock_acquire_resume_def splx_def bind_eq_Some_conv)
  have r: "ts_ok ts" "ts_cur ts = Some t" "asleep_on ts = asleep_on (sy_ts sy)"
    using tsw.resume [OF lk(4) ts(1)] assms(2) by (simp_all add: fun_eq_iff)
  note h = lock_ok_resume [OF lk(5) assms(3) tsw.cur_awake [OF lk(4) assms(2)]]
  show ?thesis using lk r h by (simp add: lock_inv_def lock_abs_def ts(2))
qed

lemma lock_inv_release:
  assumes "lock_inv T l \<lparr>ls_sy = sy, ls_pc = pc\<rparr>" "ts_cur (sy_ts sy) = Some t" "pc t = Holding"
    and "lock_release okf l sy = Some sy'"
  shows "lock_inv T l \<lparr>ls_sy = sy', ls_pc = pc(t := Outside)\<rparr> \<and> lock_abs l sy = t # lock_abs l sy'"
proof -
  obtain lk q where lk: "sy_lock sy l = Some lk" "lk_wait lk = Some q" "q_wf q" "ts_ok (sy_ts sy)"
      "lock_ok T (asleep_on (sy_ts sy)) pc (lk_held lk) (q_elems q)"
    using assms(1) by (auto simp: lock_inv_def)
  have h: "lk_held lk = Some t" using lk(5) assms(3) by (simp add: lock_ok_def)
  note ok = lk(5) [unfolded h]
  from lock_release_cases [OF lk(1) h lk(2-4) assms(2,4)] show ?thesis
  proof (elim disjE exE conjE)
    assume e: "q_elems q = []" "sy' = sy\<lparr>sy_lock := (sy_lock sy)(l \<mapsto> lk\<lparr>lk_held := None\<rparr>)\<rparr>"
    show ?thesis using lock_ok_release_Nil [OF ok [unfolded e(1)] assms(3)] lk h e by (simp add: lock_inv_def lock_abs_def)
  next
    fix u xs q' ts1
    assume e: "q_elems q = u # xs" "q_wf q'" "q_elems q' = xs"
      "sy_lock sy' = (sy_lock sy)(l \<mapsto> lk\<lparr>lk_held := Some u, lk_wait := Some q'\<rparr>)"
      "sy_ts sy' = ts1\<lparr>ts_spl := ts_spl (sy_ts sy)\<rparr>" "thread_wakeup okf u ((sy_ts sy)\<lparr>ts_spl := 15\<rparr>) = Some ts1"
    have o: "ts_ok ((sy_ts sy)\<lparr>ts_spl := 15\<rparr>)" using lk(4) by simp
    have u: "asleep_on ((sy_ts sy)\<lparr>ts_spl := 15\<rparr>) u u" "\<And>w. asleep_on ((sy_ts sy)\<lparr>ts_spl := 15\<rparr>) u w \<Longrightarrow> w = u"
      using ok e(1) by (auto simp: lock_ok_def)
    note w = tsw.wakeup_single [OF o e(6) u]
    have "lock_ok T (asleep_on ts1) (pc(t := Outside)) (Some u) xs"
      using w by (intro lock_ok_release_Cons [OF ok [unfolded e(1)] assms(3)]) simp_all
    then show ?thesis using lk h e tsw.wakeup [OF o e(6)] by (simp add: lock_inv_def lock_abs_def)
  qed
qed

lemma lock_step_refines:
  assumes "lock_step T l s s'" "lock_inv T l s"
  shows "lock_inv T l s' \<and> queue_lock_step (ls_pc s) (lock_abs l (ls_sy s)) (lock_abs l (ls_sy s'))"
  using assms
proof cases
  case (acquire sy t pc okq oks sy')
  then show ?thesis using lock_inv_acquire(1,3) [of T l sy pc t okq oks Returned sy'] assms(2)
    by (auto simp: queue_lock_step_def)
next
  case (wait sy t pc okq oks sy')
  then show ?thesis using lock_inv_acquire(2,3) [of T l sy pc t okq oks Asleep sy'] assms(2)
    by (auto simp: queue_lock_step_def)
next
  case (resume sy t pc spl sy')
  then show ?thesis using lock_inv_resume [of T l sy pc t spl spl sy'] assms(2) by (simp add: queue_lock_step_def)
next
  case (release sy t pc okf sy')
  then show ?thesis using lock_inv_release [of T l sy pc t okf sy'] assms(2) by (auto simp: queue_lock_step_def)
next
  case (env op sy ts t pc)
  have ok: "ts_ok (sy_ts sy)" using assms(2) env(1) by (simp add: lock_inv_def)
  have "asleep_on ts b u = asleep_on (sy_ts sy) b u" if "b \<in> T" for b u
    using env_do_keeps(2) [OF ok env(3), of b u] env(4) that by auto
  moreover have "asleep_on (sy_ts sy) b u" if "pc u = Waiting n" "asleep_on ts b u" for b u n
    using env_do_keeps(3) [OF ok env(3), of u b] env(5,6) that by auto
  ultimately have "lock_inv T l s'"
    using assms(2) env(1,2) env_do_keeps(1) [OF ok env(3)] lock_ok_cong [of T "asleep_on (sy_ts sy)" pc _ _ "asleep_on ts"]
    by (simp add: lock_inv_def) blast
  then show ?thesis using env(1,2) by (simp add: queue_lock_step_def lock_abs_def)
qed

text \<open>A lock just made by \<^verbatim>\<open>lock_create\<close>, with every thread outside and nobody asleep on the address of a thread of \<open>T\<close>.\<close>

definition lock_init :: "nat set \<Rightarrow> nat \<Rightarrow> lsys \<Rightarrow> bool" where
  "lock_init T l s \<longleftrightarrow> ts_ok (sy_ts (ls_sy s)) \<and> sy_lock (ls_sy s) l = lock_create True True True True \<and>
     ls_pc s = (\<lambda>_. Outside) \<and> (\<forall>a \<in> T. \<forall>u. \<not> asleep_on (sy_ts (ls_sy s)) a u)"

lemma q_create_10:
  "\<exists>q. q_create True True 10 = Some q \<and> q_wf q \<and> q_elems q = []"
  by (simp add: q_create_def q_fresh_def q_wf_def q_elems_def ring_cells_def)

lemma lock_init_inv: "lock_init T l s \<Longrightarrow> lock_inv T l s"
  using q_create_10 by (auto simp: lock_init_def lock_inv_def lock_create_def lock_ok_def)

lemma lock_reach_inv: "(lock_step T l)\<^sup>*\<^sup>* s s' \<Longrightarrow> lock_inv T l s \<Longrightarrow> lock_inv T l s'"
  by (induction rule: rtranclp_induct) (auto dest: lock_step_refines)

definition wit_lsys :: lsys where
  "wit_lsys = \<lparr>ls_sy = \<lparr>sy_ts = wit_tsys 4, sy_sem = [9 \<mapsto> \<lparr>sem_count = 0\<rparr>],
     sy_lock = [5 \<mapsto> the (lock_create True True True True)], sy_cv = Map.empty\<rparr>, ls_pc = (\<lambda>_. Outside)\<rparr>"

lemma wit_ts_ok: "ts_ok (wit_tsys 4)"
  using wit_tsys [of 4] by (simp add: ts_ok_def)

lemma wit_asleep: "asleep_on (wit_tsys 4) a u \<longleftrightarrow> a = 9 \<and> u = 2"
  using wit_tsys(6) [of 4] by (auto simp: asleep_on_def sleeping_on_def wit_thr wit_thread_def)

lemma wit_lock_init: "lock_init {0, 1} 5 wit_lsys"
  by (simp add: lock_init_def wit_lsys_def wit_ts_ok wit_asleep lock_create_def)

lemma wit_lock_step:
  "\<exists>sy'. lock_step {0, 1} 5 wit_lsys \<lparr>ls_sy = sy', ls_pc = (\<lambda>_. Outside)(0 := Holding)\<rparr> \<and>
     ts_cur (sy_ts sy') = Some 0"
proof -
  let ?sy = "ls_sy wit_lsys"
  have c: "ts_cur (sy_ts ?sy) = Some 0" using wit_tsys(4) [of 4] by (simp add: wit_lsys_def)
  have l: "sy_lock ?sy 5 = Some (the (lock_create True True True True))" "lk_held (the (lock_create True True True True)) = None"
    by (simp_all add: wit_lsys_def lock_create_def)
  have w: "wit_lsys = \<lparr>ls_sy = ?sy, ls_pc = (\<lambda>_. Outside)\<rparr>" by (simp add: wit_lsys_def)
  show ?thesis
    by (subst w, rule exI, rule conjI, rule lock_step.acquire [OF c _ _ lock_acquire_free [OF l]])
      (use c in simp_all)
qed

text \<open>
  Claim C5: a lock is held by one thread at a time. In every execution of threads that acquire and
  release a lock made by \<^verbatim>\<open>lock_create\<close>, interleaved with any other activity of the kernel, two threads
  that have returned from \<^verbatim>\<open>lock_acquire\<close> and not yet released are the same thread, and it is the one
  the \<^verbatim>\<open>held\<close> field names.
\<close>

theorem lock_mutual_exclusion:
  assumes "lock_init T l s0" "(lock_step T l)\<^sup>*\<^sup>* s0 s" "ls_pc s t = Holding" "ls_pc s u = Holding"
  shows "t = u \<and> (\<exists>lk. sy_lock (ls_sy s) l = Some lk \<and> lk_held lk = Some t)"
proof -
  have "lock_inv T l s" using lock_reach_inv [OF assms(2) lock_init_inv [OF assms(1)]] .
  then obtain lk q where lk: "sy_lock (ls_sy s) l = Some lk"
      "lock_ok T (asleep_on (sy_ts (ls_sy s))) (ls_pc s) (lk_held lk) (q_elems q)"
    by (auto simp: lock_inv_def)
  have "lk_held lk = Some t" "lk_held lk = Some u" using lk(2) assms(3,4) unfolding lock_ok_def by blast+
  then show ?thesis using lk(1) by simp
qed

theorem lock_mutual_exclusion_witness:
  "\<exists>sy'. ((lock_step {0, 1} 5)\<^sup>*\<^sup>* wit_lsys \<lparr>ls_sy = sy', ls_pc = (\<lambda>_. Outside)(0 := Holding)\<rparr>) \<and>
     (\<exists>lk. sy_lock sy' 5 = Some lk \<and> lk_held lk = Some 0)"
proof -
  obtain sy' where s: "lock_step {0, 1} 5 wit_lsys \<lparr>ls_sy = sy', ls_pc = (\<lambda>_. Outside)(0 := Holding)\<rparr>"
    using wit_lock_step by blast
  show ?thesis
    using lock_mutual_exclusion [OF wit_lock_init r_into_rtranclp [of "lock_step {0, 1} 5", OF s], of 0 0]
      r_into_rtranclp [of "lock_step {0, 1} 5", OF s] by (intro exI [of _ sy']) simp
qed

text \<open>
  Claim C15: a lock serves its waiters in order of arrival. With the holder followed by the waiting
  threads as its abstract state, every step of a reachable system leaves the queue as it is, appends a
  thread that was outside, or removes the head, which is the thread that held the lock.
\<close>

theorem lock_refines_queue:
  assumes "lock_init T l s0" "(lock_step T l)\<^sup>*\<^sup>* s0 s" "lock_step T l s s'"
  shows "queue_lock_step (ls_pc s) (lock_abs l (ls_sy s)) (lock_abs l (ls_sy s'))"
  using lock_step_refines [OF assms(3) lock_reach_inv [OF assms(2) lock_init_inv [OF assms(1)]]] by blast

theorem lock_refines_queue_witness:
  "\<exists>s'. lock_step {0, 1} 5 wit_lsys s' \<and> queue_lock_step (\<lambda>_. Outside) [] (lock_abs 5 (ls_sy s'))"
proof -
  have e: "lock_abs 5 (ls_sy wit_lsys) = []" "ls_pc wit_lsys = (\<lambda>_. Outside)"
    by (simp_all add: lock_abs_def wit_lsys_def lock_create_def q_create_def q_elems_def ring_cells_def)
  obtain s' where s: "lock_step {0, 1} 5 wit_lsys s'" using wit_lock_step by blast
  then show ?thesis using lock_refines_queue [OF wit_lock_init rtranclp.rtrancl_refl s] e by auto
qed

lemma lock_ok_waiter:
  assumes "lock_ok T A pc held xs" "pc t = Waiting n"
  shows "\<exists>h. held = Some h \<and> (if h = t then \<forall>a. \<not> A a t else t \<in> set xs \<and> A t t)"
proof -
  have "t \<in> set xs \<or> held = Some t" "\<And>a. A a t \<Longrightarrow> a = t \<and> t \<in> set xs" "t \<in> set xs \<Longrightarrow> A t t"
      "held = None \<Longrightarrow> xs = []" "held = Some t \<Longrightarrow> t \<notin> set xs"
    using assms unfolding lock_ok_def by blast+
  then show ?thesis by (cases held) auto
qed

lemma lock_release_awake:
  assumes inv: "lock_inv T l \<lparr>ls_sy = sy, ls_pc = pc\<rparr>" and t: "ts_cur (sy_ts sy) = Some t" "pc t = Holding"
  shows "\<exists>sy'. lock_release okf l sy = Some sy' \<and> lock_abs l sy = t # lock_abs l sy' \<and>
           (\<forall>u xs a. lock_abs l sy' = u # xs \<longrightarrow> \<not> asleep_on (sy_ts sy') a u)"
proof -
  obtain lk q where lk: "sy_lock sy l = Some lk" "lk_wait lk = Some q" "q_wf q" "ts_ok (sy_ts sy)"
      "lock_ok T (asleep_on (sy_ts sy)) pc (lk_held lk) (q_elems q)"
    using inv by (auto simp: lock_inv_def)
  have h: "lk_held lk = Some t" using lk(5) t(2) by (simp add: lock_ok_def)
  have wake: "\<exists>ts1. thread_wakeup okf u ((sy_ts sy)\<lparr>ts_spl := 15\<rparr>) = Some ts1" for u
    using thread_wakeup_spec [of "(sy_ts sy)\<lparr>ts_spl := 15\<rparr>" t okf u] ts_ok_spl [of 15 "sy_ts sy"] lk(4) t(1)
    by (auto simp: ts_ok_def)
  have "\<exists>sy'. lock_release okf l sy = Some sy'"
  proof (cases "q_elems q")
    case Nil
    then show ?thesis
      using lk h t rq.isempty [OF lk(3)] by (simp add: lock_release_def lock_do_i_hold_def splhigh_def splx_def)
  next
    case (Cons u xs)
    obtain q' where "q_remhead q = Some (u, q')" using rq.remhead_Cons [OF lk(3) Cons] by blast
    then show ?thesis
      using lk h t rq.isempty [OF lk(3)] Cons wake [of u]
      by (auto simp: lock_release_def lock_do_i_hold_def splhigh_def splx_def)
  qed
  then obtain sy' where sy': "lock_release okf l sy = Some sy'" by blast
  note r = lock_inv_release [OF inv t sy']
  have "\<not> asleep_on (sy_ts sy') a u" if "lock_abs l sy' = u # xs" for u xs a
  proof -
    obtain lk' q' where k: "sy_lock sy' l = Some lk'" "lk_wait lk' = Some q'"
        "lock_ok T (asleep_on (sy_ts sy')) (pc(t := Outside)) (lk_held lk') (q_elems q')"
      using r by (auto simp: lock_inv_def)
    have "lk_held lk' = Some u" using k that by (cases "lk_held lk'") (auto simp: lock_abs_def lock_ok_def)
    moreover have o: "(pc(t := Outside)) u \<noteq> Outside" using lock_okD(6) [OF k(3) calculation] .
    then have "u \<noteq> t" by auto
    then have "pc u \<noteq> Holding" using lock_okD(7) [OF lk(5), of u] h by auto
    then obtain n where "(pc(t := Outside)) u = Waiting n" using o \<open>u \<noteq> t\<close> by (cases "pc u") auto
    ultimately show ?thesis using lock_ok_waiter [OF k(3)] by auto
  qed
  then show ?thesis using sy' r by blast
qed

text \<open>
  Claim C16: a waiting thread is never forgotten. In a reachable system a thread inside
  \<^verbatim>\<open>lock_acquire\<close> is either asleep in the queue of a lock that somebody else holds, or has been given the
  lock and is awake; and \<^verbatim>\<open>lock_release\<close> by the holder always returns, giving the lock to the first waiter,
  which is then awake, or freeing it when there is none.
\<close>

theorem lock_waiters_served:
  assumes "lock_init T l s0" "(lock_step T l)\<^sup>*\<^sup>* s0 s"
  shows "(\<forall>t n. ls_pc s t = Waiting n \<longrightarrow>
            (\<exists>h xs. lock_abs l (ls_sy s) = h # xs \<and>
               (if h = t then \<forall>a. \<not> asleep_on (sy_ts (ls_sy s)) a t
                else t \<in> set xs \<and> asleep_on (sy_ts (ls_sy s)) t t))) \<and>
         (\<forall>t. ls_pc s t = Holding \<and> ts_cur (sy_ts (ls_sy s)) = Some t \<longrightarrow>
            (\<exists>sy'. lock_release okf l (ls_sy s) = Some sy' \<and> lock_abs l (ls_sy s) = t # lock_abs l sy' \<and>
               (\<forall>u xs a. lock_abs l sy' = u # xs \<longrightarrow> \<not> asleep_on (sy_ts sy') a u)))"
proof (intro conjI allI impI)
  have inv: "lock_inv T l s" using lock_reach_inv [OF assms(2) lock_init_inv [OF assms(1)]] .
  then have inv': "lock_inv T l \<lparr>ls_sy = ls_sy s, ls_pc = ls_pc s\<rparr>" by (simp add: lock_inv_def)
  from inv obtain lk q where lk: "sy_lock (ls_sy s) l = Some lk" "lk_wait lk = Some q" "ts_ok (sy_ts (ls_sy s))"
      "lock_ok T (asleep_on (sy_ts (ls_sy s))) (ls_pc s) (lk_held lk) (q_elems q)"
    by (auto simp: lock_inv_def)
  show "\<exists>h xs. lock_abs l (ls_sy s) = h # xs \<and> (if h = t then \<forall>a. \<not> asleep_on (sy_ts (ls_sy s)) a t
                else t \<in> set xs \<and> asleep_on (sy_ts (ls_sy s)) t t)" if w: "ls_pc s t = Waiting n" for t n
  proof -
    obtain h where h: "lk_held lk = Some h" "if h = t then \<forall>a. \<not> asleep_on (sy_ts (ls_sy s)) a t
                else t \<in> set (q_elems q) \<and> asleep_on (sy_ts (ls_sy s)) t t" using lock_ok_waiter [OF lk(4) w] by blast
    show ?thesis by (rule exI [of _ h], rule exI [of _ "q_elems q"]) (use h lk(1,2) in \<open>simp add: lock_abs_def\<close>)
  qed
  show "\<exists>sy'. lock_release okf l (ls_sy s) = Some sy' \<and> lock_abs l (ls_sy s) = t # lock_abs l sy' \<and>
      (\<forall>u xs a. lock_abs l sy' = u # xs \<longrightarrow> \<not> asleep_on (sy_ts sy') a u)"
    if "ls_pc s t = Holding \<and> ts_cur (sy_ts (ls_sy s)) = Some t" for t
    using lock_release_awake [OF inv', of t okf] that by blast
qed

theorem lock_waiters_served_witness:
  "\<exists>sy sy'. lock_step {0, 1} 5 wit_lsys \<lparr>ls_sy = sy, ls_pc = (\<lambda>_. Outside)(0 := Holding)\<rparr> \<and>
     lock_release (\<lambda>_. False) 5 sy = Some sy' \<and> lock_abs 5 sy = 0 # lock_abs 5 sy'"
proof -
  obtain sy where s: "lock_step {0, 1} 5 wit_lsys \<lparr>ls_sy = sy, ls_pc = (\<lambda>_. Outside)(0 := Holding)\<rparr>"
      "ts_cur (sy_ts sy) = Some 0"
    using wit_lock_step by blast
  show ?thesis
    using lock_waiters_served [OF wit_lock_init r_into_rtranclp [of "lock_step {0, 1} 5", OF s(1)], of "\<lambda>_. False"] s
    by auto
qed

section \<open>Semaphores: the count and the sleepers\<close>

text \<open>
  A system in which threads call \<^verbatim>\<open>P\<close> and \<^verbatim>\<open>V\<close> on the semaphore \<open>s\<close>. \<open>ps_in\<close> says which threads are
  inside \<^verbatim>\<open>P\<close>, with the interrupt level they saved; \<open>ps_taken\<close> and \<open>ps_given\<close> count completed calls.
\<close>

record psys =
  ps_sy :: syn
  ps_in :: "nat \<Rightarrow> int option"
  ps_taken :: nat
  ps_given :: nat

inductive sem_step :: "nat \<Rightarrow> psys \<Rightarrow> psys \<Rightarrow> bool" for s where
  take: "ts_cur (sy_ts sy) = Some t \<Longrightarrow> pin t = None \<Longrightarrow> P False ok (\<lambda>ts. ts) s sy = Some (Returned, sy') \<Longrightarrow>
    sem_step s \<lparr>ps_sy = sy, ps_in = pin, ps_taken = n, ps_given = m\<rparr>
               \<lparr>ps_sy = sy', ps_in = pin, ps_taken = Suc n, ps_given = m\<rparr>"
| wait: "ts_cur (sy_ts sy) = Some t \<Longrightarrow> pin t = None \<Longrightarrow> P False ok (\<lambda>ts. ts) s sy = Some (Asleep, sy') \<Longrightarrow>
    sem_step s \<lparr>ps_sy = sy, ps_in = pin, ps_taken = n, ps_given = m\<rparr>
               \<lparr>ps_sy = sy', ps_in = pin(t \<mapsto> ts_spl (sy_ts sy)), ps_taken = n, ps_given = m\<rparr>"
| woken: "ts_cur (sy_ts sy) = Some t \<Longrightarrow> pin t = Some spl \<Longrightarrow> P_resume ok (\<lambda>ts. ts) s spl sy = Some (Returned, sy') \<Longrightarrow>
    sem_step s \<lparr>ps_sy = sy, ps_in = pin, ps_taken = n, ps_given = m\<rparr>
               \<lparr>ps_sy = sy', ps_in = pin(t := None), ps_taken = Suc n, ps_given = m\<rparr>"
| again: "ts_cur (sy_ts sy) = Some t \<Longrightarrow> pin t = Some spl \<Longrightarrow> P_resume ok (\<lambda>ts. ts) s spl sy = Some (Asleep, sy') \<Longrightarrow>
    sem_step s \<lparr>ps_sy = sy, ps_in = pin, ps_taken = n, ps_given = m\<rparr>
               \<lparr>ps_sy = sy', ps_in = pin, ps_taken = n, ps_given = m\<rparr>"
| give: "ts_cur (sy_ts sy) = Some t \<Longrightarrow> pin t = None \<Longrightarrow> V okf s sy = Some sy' \<Longrightarrow>
    sem_step s \<lparr>ps_sy = sy, ps_in = pin, ps_taken = n, ps_given = m\<rparr>
               \<lparr>ps_sy = sy', ps_in = pin, ps_taken = n, ps_given = Suc m\<rparr>"
| other: "ts_cur (sy_ts sy) = Some t \<Longrightarrow> pin t = None \<Longrightarrow> env_do op (sy_ts sy) = Some ts \<Longrightarrow> s \<notin> env_addrs op \<Longrightarrow>
    sem_step s \<lparr>ps_sy = sy, ps_in = pin, ps_taken = n, ps_given = m\<rparr>
               \<lparr>ps_sy = sy\<lparr>sy_ts := ts\<rparr>, ps_in = pin, ps_taken = n, ps_given = m\<rparr>"

text \<open>\<open>sem_ok\<close>: the count \<open>c\<close> accounts for the calls, and nobody sleeps on a semaphore that has units.\<close>

definition sem_ok :: "nat \<Rightarrow> int \<Rightarrow> psys \<Rightarrow> bool" where
  "sem_ok s c0 p \<longleftrightarrow> ts_ok (sy_ts (ps_sy p)) \<and> (\<exists>sem. sy_sem (ps_sy p) s = Some sem \<and>
     0 \<le> sem_count sem \<and> sem_count sem < 2 ^ 31 \<and>
     sem_count sem = c0 + int (ps_given p) - int (ps_taken p) \<and>
     (\<forall>u. asleep_on (sy_ts (ps_sy p)) s u \<longrightarrow> sem_count sem = 0 \<and> ps_in p u \<noteq> None))"

lemma P_loop_cases:
  assumes "sy_sem sy s = Some sem" "ts_ok (sy_ts sy)" "ts_cur (sy_ts sy) = Some t"
    and "P_loop False ok (\<lambda>ts. ts) s spl sy = Some (r, sy')"
  shows "if sem_count sem = 0
     then r = Asleep \<and> ts_ok (sy_ts sy') \<and> sy_sem sy' = sy_sem sy \<and>
       (\<forall>b u. asleep_on (sy_ts sy') b u = (if u = t then b = s else asleep_on (sy_ts sy) b u))
     else r = Returned \<and> ts_ok (sy_ts sy') \<and> sem_count sem > 0 \<and> asleep_on (sy_ts sy') = asleep_on (sy_ts sy) \<and>
       sy_sem sy' = (sy_sem sy)(s \<mapsto> sem\<lparr>sem_count := sem_count sem - 1\<rparr>)"
proof (cases "sem_count sem = 0")
  case True
  then obtain ts where ts: "thread_sleep False ok (\<lambda>ts. ts) s (sy_ts sy) = Some ts" "r = Asleep" "sy' = sy\<lparr>sy_ts := ts\<rparr>"
    using assms(1,4) by (auto simp: P_loop_def bind_eq_Some_conv)
  show ?thesis using tsw.sleep [OF assms(2,3) ts(1)] ts True by simp
next
  case False
  then show ?thesis using assms(1,2,4) by (auto simp: P_loop_def bind_eq_Some_conv splx_def)
qed

lemma P_loop_keeps:
  assumes "sem_ok s c0 \<lparr>ps_sy = sy, ps_in = pin, ps_taken = n, ps_given = m\<rparr>" "ts_cur (sy_ts sy) = Some t"
    and "P_loop False ok (\<lambda>ts. ts) s spl sy = Some (r, sy')"
  shows "r = Returned \<Longrightarrow> sem_ok s c0 \<lparr>ps_sy = sy', ps_in = pin(t := None), ps_taken = Suc n, ps_given = m\<rparr>"
    and "r = Asleep \<Longrightarrow> sem_ok s c0 \<lparr>ps_sy = sy', ps_in = pin(t \<mapsto> k), ps_taken = n, ps_given = m\<rparr>"
proof -
  obtain sem where sem: "sy_sem sy s = Some sem" "ts_ok (sy_ts sy)" "0 \<le> sem_count sem" "sem_count sem < 2 ^ 31"
      "sem_count sem = c0 + int m - int n"
      "\<And>u. asleep_on (sy_ts sy) s u \<Longrightarrow> sem_count sem = 0 \<and> pin u \<noteq> None"
    using assms(1) by (auto simp: sem_ok_def)
  note c = P_loop_cases [OF sem(1,2) assms(2,3)]
  show "sem_ok s c0 \<lparr>ps_sy = sy', ps_in = pin(t := None), ps_taken = Suc n, ps_given = m\<rparr>" if "r = Returned"
    using c sem that by (auto simp: sem_ok_def split: if_splits)
  show "sem_ok s c0 \<lparr>ps_sy = sy', ps_in = pin(t \<mapsto> k), ps_taken = n, ps_given = m\<rparr>" if "r = Asleep"
    using c sem that by (auto simp: sem_ok_def split: if_splits)
qed

lemma sem_ok_ts:
  assumes "sem_ok s c0 \<lparr>ps_sy = sy, ps_in = pin, ps_taken = n, ps_given = m\<rparr>" "ts_ok ts"
    and "\<And>u. asleep_on ts s u = asleep_on (sy_ts sy) s u"
  shows "sem_ok s c0 \<lparr>ps_sy = sy\<lparr>sy_ts := ts\<rparr>, ps_in = pin, ps_taken = n, ps_given = m\<rparr>"
  using assms by (simp add: sem_ok_def)

lemma V_returns:
  assumes "sy_sem sy s = Some sem" "ts_ok (sy_ts sy)" "0 \<le> sem_count sem" "sem_count sem < 2 ^ 31 - 1"
  shows "\<exists>sy'. V okf s sy = Some sy' \<and> ts_ok (sy_ts sy') \<and> ts_cur (sy_ts sy') = ts_cur (sy_ts sy) \<and>
     sy_sem sy' = (sy_sem sy)(s \<mapsto> sem\<lparr>sem_count := sem_count sem + 1\<rparr>) \<and>
     (\<forall>b u. asleep_on (sy_ts sy') b u = (b \<noteq> s \<and> asleep_on (sy_ts sy) b u))"
proof -
  let ?ts = "(sy_ts sy)\<lparr>ts_spl := 15\<rparr>"
  obtain t where t: "ts_cur ?ts = Some t" using assms(2) by (auto simp: ts_ok_def)
  have ok: "ts_ok ?ts" using assms(2) by simp
  obtain ts1 where ts1: "thread_wakeup okf s ?ts = Some ts1"
    using thread_wakeup_spec [of ?ts t okf s] ok t by (auto simp: ts_ok_def)
  have n: "c_int (sem_count sem + 1) = sem_count sem + 1" using assms(3,4) by (intro c_int_id) simp_all
  show ?thesis
    using tsw.wakeup [OF ok ts1] ts1 assms(1,3) n by (simp add: V_def splhigh_def splx_def)
qed

lemma V_overflow:
  "sy_sem sy s = Some sem \<Longrightarrow> sem_count sem = 2 ^ 31 - 1 \<Longrightarrow> V okf s sy = None"
  by (simp add: V_def splhigh_def splx_def c_int_def kassert_def)

lemma sem_step_keeps:
  assumes "sem_step s p p'" "sem_ok s c0 p"
  shows "sem_ok s c0 p'"
  using assms
proof cases
  case (take sy t pin ok sy' n m)
  have "sem_ok s c0 \<lparr>ps_sy = sy\<lparr>sy_ts := (sy_ts sy)\<lparr>ts_spl := 15\<rparr>\<rparr>, ps_in = pin, ps_taken = n, ps_given = m\<rparr>"
    using assms(2) take(1) by (intro sem_ok_ts) (auto simp: sem_ok_def)
  from P_loop_keeps(1) [OF this, of t ok "ts_spl (sy_ts sy)" Returned sy'] take show ?thesis
    by (auto simp: P_def splhigh_def splx_def bind_eq_Some_conv fun_upd_idem)
next
  case (wait sy t pin ok sy' n m)
  have "sem_ok s c0 \<lparr>ps_sy = sy\<lparr>sy_ts := (sy_ts sy)\<lparr>ts_spl := 15\<rparr>\<rparr>, ps_in = pin, ps_taken = n, ps_given = m\<rparr>"
    using assms(2) wait(1) by (intro sem_ok_ts) (auto simp: sem_ok_def)
  from P_loop_keeps(2) [OF this, of t ok "ts_spl (sy_ts sy)" Asleep sy'] wait show ?thesis
    by (auto simp: P_def splhigh_def splx_def bind_eq_Some_conv)
next
  case (woken sy t pin spl ok sy' n m)
  obtain ts where ts: "thread_sleep_resume (sy_ts sy) = Some ts"
      "P_loop False ok (\<lambda>ts. ts) s spl (sy\<lparr>sy_ts := ts\<rparr>) = Some (Returned, sy')"
    using woken(5) by (auto simp: P_resume_def bind_eq_Some_conv)
  have "ts_ok (sy_ts sy)" using assms(2) woken(1) by (simp add: sem_ok_def)
  note r = tsw.resume [OF this ts(1)]
  have "sem_ok s c0 \<lparr>ps_sy = sy\<lparr>sy_ts := ts\<rparr>, ps_in = pin, ps_taken = n, ps_given = m\<rparr>"
    using assms(2) woken(1) r by (intro sem_ok_ts) auto
  from P_loop_keeps(1) [OF this _ ts(2)] woken r show ?thesis by auto
next
  case (again sy t pin spl ok sy' n m)
  obtain ts where ts: "thread_sleep_resume (sy_ts sy) = Some ts"
      "P_loop False ok (\<lambda>ts. ts) s spl (sy\<lparr>sy_ts := ts\<rparr>) = Some (Asleep, sy')"
    using again(5) by (auto simp: P_resume_def bind_eq_Some_conv)
  have "ts_ok (sy_ts sy)" using assms(2) again(1) by (simp add: sem_ok_def)
  note r = tsw.resume [OF this ts(1)]
  have "sem_ok s c0 \<lparr>ps_sy = sy\<lparr>sy_ts := ts\<rparr>, ps_in = pin, ps_taken = n, ps_given = m\<rparr>"
    using assms(2) again(1) r by (intro sem_ok_ts) auto
  from P_loop_keeps(2) [OF this _ ts(2), of t spl] again r show ?thesis by (auto simp: fun_upd_idem)
next
  case (give sy t pin okf sy' n m)
  obtain sem where sem: "sy_sem sy s = Some sem" "ts_ok (sy_ts sy)" "0 \<le> sem_count sem" "sem_count sem < 2 ^ 31"
      "sem_count sem = c0 + int m - int n"
    using assms(2) give(1) by (auto simp: sem_ok_def)
  have b: "sem_count sem < 2 ^ 31 - 1"
    using V_overflow [OF sem(1), of okf] give(5) sem(4) by (cases "sem_count sem = 2 ^ 31 - 1") auto
  from V_returns [OF sem(1-3) b, of okf] show ?thesis
    using b sem give by (auto simp: sem_ok_def)
next
  case (other sy t pin op ts n m)
  have ok: "ts_ok (sy_ts sy)" using assms(2) other(1) by (simp add: sem_ok_def)
  show ?thesis
    unfolding other(2) using assms(2) other(1,6) env_do_keeps(1,2) [OF ok other(5)] by (intro sem_ok_ts) auto
qed

lemma sem_reach: "(sem_step s)\<^sup>*\<^sup>* p p' \<Longrightarrow> sem_ok s c0 p \<Longrightarrow> sem_ok s c0 p'"
  by (induction rule: rtranclp_induct) (auto dest: sem_step_keeps)

definition sem_init :: "nat \<Rightarrow> int \<Rightarrow> psys \<Rightarrow> bool" where
  "sem_init s c0 p \<longleftrightarrow> ts_ok (sy_ts (ps_sy p)) \<and> sem_create True True c0 = Some (sy_sem (ps_sy p) s) \<and> c0 < 2 ^ 31 \<and>
     ps_in p = Map.empty \<and> ps_taken p = 0 \<and> ps_given p = 0 \<and> (\<forall>u. \<not> asleep_on (sy_ts (ps_sy p)) s u)"

lemma sem_init_ok: "sem_init s c0 p \<Longrightarrow> sem_ok s c0 p"
  by (auto simp: sem_init_def sem_ok_def sem_create_def bind_eq_Some_conv kassert_def split: if_splits
      dest: sym [of "Some _"])

text \<open>
  Claim C14: a semaphore never hands out more than it was given, and no thread sleeps while it has units
  to give. In every execution that starts with a semaphore made by \<^verbatim>\<open>sem_create\<close>, its count is the
  initial count plus the completed calls of \<^verbatim>\<open>V\<close> minus the completed calls of \<^verbatim>\<open>P\<close>; it is never negative;
  and a thread asleep on the semaphore is inside \<^verbatim>\<open>P\<close> and the count is zero.
\<close>

theorem sem_conservation:
  assumes "sem_init s c0 p0" "(sem_step s)\<^sup>*\<^sup>* p0 p"
  shows "\<exists>sem. sy_sem (ps_sy p) s = Some sem \<and> 0 \<le> sem_count sem \<and>
     sem_count sem = c0 + int (ps_given p) - int (ps_taken p) \<and>
     (\<forall>u. asleep_on (sy_ts (ps_sy p)) s u \<longrightarrow> sem_count sem = 0 \<and> ps_in p u \<noteq> None)"
  using sem_reach [OF assms(2) sem_init_ok [OF assms(1)]] unfolding sem_ok_def by blast

definition wit_psys :: psys where
  "wit_psys = \<lparr>ps_sy = (ls_sy wit_lsys)\<lparr>sy_sem := [8 \<mapsto> \<lparr>sem_count = 1\<rparr>]\<rparr>, ps_in = Map.empty, ps_taken = 0, ps_given = 0\<rparr>"

lemma wit_psys_init: "sem_init 8 1 wit_psys"
  by (simp add: sem_init_def wit_psys_def wit_lsys_def wit_ts_ok wit_asleep sem_create_def)

theorem sem_conservation_witness:
  "\<exists>p. (sem_step 8)\<^sup>*\<^sup>* wit_psys p \<and> ps_taken p = 1 \<and> (\<exists>sem. sy_sem (ps_sy p) 8 = Some sem \<and> sem_count sem = 0)"
proof -
  let ?sy = "ps_sy wit_psys"
  have c: "ts_cur (sy_ts ?sy) = Some 0" using wit_tsys(4) [of 4] by (simp add: wit_psys_def wit_lsys_def)
  have w: "wit_psys = \<lparr>ps_sy = ?sy, ps_in = Map.empty, ps_taken = 0, ps_given = 0\<rparr>" by (simp add: wit_psys_def)
  have "\<exists>sy'. P False True (\<lambda>ts. ts) 8 ?sy = Some (Returned, sy')"
    by (simp add: P_def P_loop_def splhigh_def splx_def wit_psys_def wit_lsys_def)
  then obtain sy' where p: "P False True (\<lambda>ts. ts) 8 ?sy = Some (Returned, sy')" by blast
  have s: "sem_step 8 wit_psys \<lparr>ps_sy = sy', ps_in = Map.empty, ps_taken = Suc 0, ps_given = 0\<rparr>"
    by (subst w) (rule sem_step.take [OF c _ p], simp)
  show ?thesis
    using sem_conservation [OF wit_psys_init r_into_rtranclp [of "sem_step 8", OF s]] r_into_rtranclp [of "sem_step 8", OF s]
    by (intro exI [of _ "\<lparr>ps_sy = sy', ps_in = Map.empty, ps_taken = Suc 0, ps_given = 0\<rparr>"]) auto
qed

text \<open>
  \<^verbatim>\<open>V\<close> on a semaphore in use returns, except at one count: when the count is the largest
  \<^verbatim>\<open>int\<close> the increment wraps and the assertion stops the kernel. Otherwise the count grows by one and
  every thread asleep on the semaphore, and no other, is woken.
\<close>

lemma V_bounds:
  assumes "sy_sem sy s = Some sem" "ts_ok (sy_ts sy)" "0 \<le> sem_count sem" "sem_count sem < 2 ^ 31"
  shows "case V okf s sy of
      None \<Rightarrow> sem_count sem = 2 ^ 31 - 1
    | Some sy' \<Rightarrow> sem_count sem < 2 ^ 31 - 1 \<and> sy_sem sy' s = Some \<lparr>sem_count = sem_count sem + 1\<rparr> \<and>
        (\<forall>b u. asleep_on (sy_ts sy') b u = (b \<noteq> s \<and> asleep_on (sy_ts sy) b u))"
proof (cases "sem_count sem = 2 ^ 31 - 1")
  case True
  then show ?thesis using V_overflow [OF assms(1) True] by simp
next
  case False
  then have "sem_count sem < 2 ^ 31 - 1" using assms(4) by simp
  moreover from V_returns [OF assms(1-3) this, of okf] obtain sy' where "V okf s sy = Some sy'"
      "sy_sem sy' = (sy_sem sy)(s \<mapsto> sem\<lparr>sem_count := sem_count sem + 1\<rparr>)"
      "\<forall>b u. asleep_on (sy_ts sy') b u = (b \<noteq> s \<and> asleep_on (sy_ts sy) b u)" by blast
  ultimately show ?thesis by simp
qed

lemma V_bounds_witness:
  "\<exists>sy'. V (\<lambda>_. False) 9 (ls_sy wit_lsys) = Some sy' \<and> sy_sem sy' 9 = Some \<lparr>sem_count = 1\<rparr> \<and> \<not> asleep_on (sy_ts sy') 9 2"
proof -
  have "sy_sem (ls_sy wit_lsys) 9 = Some \<lparr>sem_count = 0\<rparr>" "ts_ok (sy_ts (ls_sy wit_lsys))"
    by (simp_all add: wit_lsys_def wit_ts_ok)
  from V_bounds [OF this, of "\<lambda>_. False"] show ?thesis by (simp split: option.splits)
qed

section \<open>Condition variables\<close>

lemma wake_all_spec:
  assumes "q_wf q" "ts_ok ts" "0 < ts_spl ts"
  shows "\<exists>q' ts'. wake_all okf q ts = Some (q', ts') \<and> q_wf q' \<and> q_elems q' = [] \<and> ts_ok ts' \<and>
     ts_cur ts' = ts_cur ts \<and> (\<forall>b u. asleep_on ts' b u = (b \<notin> set (q_elems q) \<and> asleep_on ts b u))"
  using assms
proof (induction "q_elems q" arbitrary: q ts)
  case Nil
  then show ?case using rq.isempty [of q] by (subst wake_all.simps) simp
next
  case (Cons t xs)
  have ne: "\<not> q_empty q" using rq.isempty [OF Cons.prems(1)] Cons.hyps(2) by auto
  obtain q1 where q1: "q_remhead q = Some (t, q1)" "q_wf q1" "q_elems q1 = xs"
    using rq.remhead_Cons [OF Cons.prems(1)] Cons.hyps(2) by metis
  obtain me where me: "ts_cur ts = Some me" using Cons.prems(2) by (auto simp: ts_ok_def)
  obtain ts1 where ts1: "thread_wakeup okf t ts = Some ts1" "ts_spl ts1 = ts_spl ts"
    using thread_wakeup_spec [OF _ _ Cons.prems(3) me, of okf t] Cons.prems(2) by (auto simp: ts_ok_def)
  note w = tsw.wakeup [OF Cons.prems(2) ts1(1)]
  obtain q' ts' where "wake_all okf q1 ts1 = Some (q', ts')" "q_wf q'" "q_elems q' = []" "ts_ok ts'"
      "ts_cur ts' = ts_cur ts1" "\<forall>b u. asleep_on ts' b u = (b \<notin> set xs \<and> asleep_on ts1 b u)"
    using Cons.hyps(1) [OF q1(3) [symmetric] q1(2), of ts1] w ts1(2) Cons.prems(3) q1(3) by auto
  then show ?case
    using ne q1(1) ts1(1) w Cons.hyps(2) [symmetric] by (subst wake_all.simps) (auto intro!: exI [of _ q'] exI [of _ ts'])
qed

text \<open>\<^verbatim>\<open>cv_signal\<close> takes the first thread off the queue and wakes it; with nobody waiting it does nothing.\<close>

lemma cv_signal_first:
  assumes "sy_cv sy c = Some v" "cv_queue v = Some q" "q_wf q" "ts_ok (sy_ts sy)" "lock_do_i_hold l sy = Some True"
  shows "\<exists>ts q'. cv_signal okf c l sy = Some (sy\<lparr>sy_ts := ts, sy_cv := (sy_cv sy)(c \<mapsto> \<lparr>cv_queue = Some q'\<rparr>)\<rparr>) \<and> ts_ok ts \<and>
     ts_cur ts = ts_cur (sy_ts sy) \<and> ts_spl ts = ts_spl (sy_ts sy) \<and> q_wf q' \<and> q_elems q' = tl (q_elems q) \<and>
     (\<forall>b u. asleep_on ts b u = (asleep_on (sy_ts sy) b u \<and> (q_elems q = [] \<or> b \<noteq> hd (q_elems q))))"
proof (cases "q_elems q")
  case Nil
  then have "q_empty q" using rq.isempty [OF assms(3)] by simp
  moreover have "\<lparr>cv_queue = Some q\<rparr> = v" using assms(2) by (cases v) simp
  ultimately show ?thesis
    using assms Nil by (intro exI [of _ "sy_ts sy"] exI [of _ q]) (simp add: cv_signal_def splhigh_def splx_def fun_upd_idem)
next
  case (Cons t xs)
  let ?ts = "(sy_ts sy)\<lparr>ts_spl := 15\<rparr>"
  have ok: "ts_ok ?ts" using assms(4) by simp
  obtain me where me: "ts_cur (sy_ts sy) = Some me" using assms(4) by (auto simp: ts_ok_def)
  obtain q1 where q1: "q_remhead q = Some (t, q1)" "q_wf q1" "q_elems q1 = xs" using rq.remhead_Cons [OF assms(3) Cons] by blast
  obtain ts1 where ts1: "thread_wakeup okf t ?ts = Some ts1" "ts_cur ts1 = Some me"
    using thread_wakeup_spec [of ?ts me okf t] ok me by (auto simp: ts_ok_def)
  note w = tsw.wakeup [OF ok ts1(1)]
  have "\<not> q_empty q" using rq.isempty [OF assms(3)] Cons by simp
  then have "cv_signal okf c l sy =
      Some (sy\<lparr>sy_ts := ts1\<lparr>ts_spl := ts_spl (sy_ts sy)\<rparr>, sy_cv := (sy_cv sy)(c \<mapsto> \<lparr>cv_queue = Some q1\<rparr>)\<rparr>)"
    using assms(1,2,5) q1(1) ts1(1) by (cases v) (simp add: cv_signal_def splhigh_def splx_def)
  moreover have "asleep_on (ts1\<lparr>ts_spl := n\<rparr>) b u = asleep_on ts1 b u" for n b u by (simp add: asleep_on_def sleeping_on_def)
  ultimately show ?thesis
    using w q1(2,3) ts1(2) me Cons by (intro exI [of _ "ts1\<lparr>ts_spl := ts_spl (sy_ts sy)\<rparr>"] exI [of _ q1]) auto
qed

text \<open>
  Claim C29: \<^verbatim>\<open>cv_broadcast\<close> by the holder of the lock always returns. It empties the queue of the
  condition variable and wakes exactly the threads that sleep on the address of a queued thread; it leaves
  every other sleeper, the locks and the running thread alone.
\<close>

theorem cv_broadcast_wakes_all:
  assumes "sy_cv sy c = Some v" "cv_queue v = Some q" "q_wf q" "ts_ok (sy_ts sy)" "lock_do_i_hold l sy = Some True"
  shows "\<exists>sy' q'. cv_broadcast okf c l sy = Some sy' \<and> sy_cv sy' c = Some \<lparr>cv_queue = Some q'\<rparr> \<and> q_elems q' = [] \<and>
     (\<forall>b u. asleep_on (sy_ts sy') b u = (b \<notin> set (q_elems q) \<and> asleep_on (sy_ts sy) b u)) \<and>
     sy_lock sy' = sy_lock sy \<and> ts_cur (sy_ts sy') = ts_cur (sy_ts sy) \<and> ts_spl (sy_ts sy') = ts_spl (sy_ts sy)"
proof -
  have ok: "ts_ok ((sy_ts sy)\<lparr>ts_spl := 15\<rparr>)" using assms(4) by simp
  obtain q' ts' where "wake_all okf q ((sy_ts sy)\<lparr>ts_spl := 15\<rparr>) = Some (q', ts')" "q_elems q' = []"
      "ts_cur ts' = ts_cur (sy_ts sy)"
      "\<forall>b u. asleep_on ts' b u = (b \<notin> set (q_elems q) \<and> asleep_on (sy_ts sy) b u)"
    using wake_all_spec [OF assms(3) ok, of okf] by auto
  then show ?thesis
    using assms(1,2,5) by (cases v) (simp add: cv_broadcast_def splhigh_def splx_def)
qed

definition wit_cv :: "nat list \<Rightarrow> syn" where
  "wit_cv xs = (ls_sy wit_lsys)\<lparr>
     sy_cv := [6 \<mapsto> \<lparr>cv_queue = Some \<lparr>q_size = 4, q_nextwrite = int (length xs), q_nextread = 0,
                                  q_data = map Some xs @ replicate (4 - length xs) None\<rparr>\<rparr>],
     sy_lock := [5 \<mapsto> (the (lock_create True True True True))\<lparr>lk_held := Some 0\<rparr>]\<rparr>"

lemma wit_cv:
  "ts_ok (sy_ts (wit_cv xs))" "lock_do_i_hold 5 (wit_cv xs) = Some True" "ts_cur (sy_ts (wit_cv xs)) = Some 0"
  using wit_tsys(4) [of 4] by (simp_all add: wit_cv_def wit_lsys_def wit_ts_ok lock_do_i_hold_def)

theorem cv_broadcast_wakes_all_witness:
  "\<exists>sy'. cv_broadcast (\<lambda>_. False) 6 5 (wit_cv [9]) = Some sy' \<and> \<not> asleep_on (sy_ts sy') 9 2"
proof -
  let ?q = "\<lparr>q_size = 4, q_nextwrite = 1, q_nextread = 0, q_data = [Some 9, None, None, None]\<rparr> :: nat kqueue"
  have q: "sy_cv (wit_cv [9]) 6 = Some \<lparr>cv_queue = Some ?q\<rparr>" "q_wf ?q" "q_elems ?q = [9]"
    by (simp_all add: wit_cv_def q_wf_def q_elems_def ring_cells_def numeral_3_eq_3)
  show ?thesis
    using cv_broadcast_wakes_all [OF q(1) _ q(2) wit_cv(1,2), of "\<lambda>_. False"] q(3) by auto
qed



section \<open>Critical sections\<close>

text \<open>
  How the rest of the kernel uses a lock: \<open>lock_take\<close> is the call of \<^verbatim>\<open>lock_acquire\<close> that finds the lock
  free, \<open>lock_give\<close> is \<^verbatim>\<open>lock_release\<close>. The null pointer fails the assertion of both. What happens when the
  lock is not free is the step relation above.
\<close>

definition lock_take :: "nat option \<Rightarrow> syn \<Rightarrow> syn option" where
  "lock_take l sy = do {
     a \<leftarrow> l;
     (r, sy') \<leftarrow> lock_acquire False True True (\<lambda>ts. ts) a sy;
     kassert (r = Returned);
     Some sy' }"

definition lock_give :: "nat option \<Rightarrow> syn \<Rightarrow> syn option" where
  "lock_give l sy = do { a \<leftarrow> l; lock_release (\<lambda>_. True) a sy }"

definition lock_idle :: "nat option \<Rightarrow> syn \<Rightarrow> bool" where
  "lock_idle l sy \<longleftrightarrow> ts_cur (sy_ts sy) \<noteq> None \<and>
     (\<exists>a lk q. l = Some a \<and> sy_lock sy a = Some lk \<and> lk_held lk = None \<and> lk_wait lk = Some q \<and> q_empty q)"

definition lock_hold :: "nat option \<Rightarrow> syn \<Rightarrow> syn" where
  "lock_hold l sy = (case l of None \<Rightarrow> sy | Some a \<Rightarrow>
     sy\<lparr>sy_lock := (sy_lock sy)(a := map_option (lk_held_update (\<lambda>_. ts_cur (sy_ts sy))) (sy_lock sy a))\<rparr>)"

lemma lock_take_idle [simp]: "lock_idle l sy \<Longrightarrow> lock_take l sy = Some (lock_hold l sy)"
  by (auto simp: lock_idle_def lock_take_def lock_hold_def lock_acquire_free)

lemma lock_give_hold [simp]:
  assumes "lock_idle l sy"
  shows "lock_give l (lock_hold l sy) = Some sy"
proof -
  obtain a lk q where a: "l = Some a" "sy_lock sy a = Some lk" "lk_held lk = None" "lk_wait lk = Some q" "q_empty q"
    using assms by (auto simp: lock_idle_def)
  have "lk\<lparr>lk_held := None\<rparr> = lk" using a(3) by (cases lk) simp
  then show ?thesis
    using a by (simp add: lock_give_def lock_release_def lock_do_i_hold_def lock_hold_def splhigh_def splx_def fun_upd_idem)
qed

lemma lock_hold_sels [simp]:
  "sy_ts (lock_hold l sy) = sy_ts sy" "sy_sem (lock_hold l sy) = sy_sem sy" "sy_cv (lock_hold l sy) = sy_cv sy"
  by (simp_all add: lock_hold_def split: option.split)

lemma lock_idle_hold [simp]: "l \<noteq> l' \<Longrightarrow> lock_idle l' (lock_hold l sy) = lock_idle l' sy"
  by (auto simp: lock_idle_def lock_hold_def split: option.split)

lemma lock_change_ts:
  assumes "ts_cur ts = ts_cur (sy_ts sy)"
  shows "lock_idle l (sy\<lparr>sy_ts := ts, sy_cv := m\<rparr>) = lock_idle l sy"
    "lock_hold l (sy\<lparr>sy_ts := ts, sy_cv := m\<rparr>) = (lock_hold l sy)\<lparr>sy_ts := ts, sy_cv := m\<rparr>"
  using assms by (simp_all add: lock_idle_def lock_hold_def split: option.split)

lemma lock_hold_mine: "lock_idle (Some a) sy \<Longrightarrow> lock_do_i_hold a (lock_hold (Some a) sy) = Some True"
  by (auto simp: lock_idle_def lock_hold_def lock_do_i_hold_def)

end
