(* ===== verification/Kern_Vm.thy ===== *)
theory Kern_Vm
  imports Kern_Coremap Kern_Synch Kern_List
begin

text \<open>
  Demand paging: address spaces (\<^verbatim>\<open>kern/vm/addrspace.c\<close>), page tables (\<^verbatim>\<open>kern/vm/pt.c\<close>), the swap file
  (\<^verbatim>\<open>kern/vm/swapfile.c\<close>), the fault handler (\<^verbatim>\<open>kern/vm/vm_tlb.c\<close>) and the fault statistics
  (\<^verbatim>\<open>kern/vm/uw-vmstats.c\<close>). Reading and writing a vnode, which goes through a table of function
  pointers, is a parameter.
\<close>

section \<open>The translation buffer\<close>

text \<open>The 64 entries of the processor, as described in \<^verbatim>\<open>machine/tlb.h\<close>: pairs of a high and a low word.\<close>

type_synonym tlb = "(32 word \<times> 32 word) list"

definition PAGE_FRAME :: "32 word" where
  "PAGE_FRAME = 0xfffff000"

definition TLBLO_DIRTY :: "32 word" where
  "TLBLO_DIRTY = 0x400"

definition TLBLO_VALID :: "32 word" where
  "TLBLO_VALID = 0x200"

definition TLBHI_INVALID :: "32 word \<Rightarrow> 32 word" where
  "TLBHI_INVALID entryno = push_bit 12 (0x80000 + entryno)"

definition NUM_TLB :: nat where
  "NUM_TLB = 64"

definition TLB_Write :: "32 word \<Rightarrow> 32 word \<Rightarrow> int \<Rightarrow> tlb \<Rightarrow> tlb option" where
  "TLB_Write entryhi entrylo index tlb = set_cell tlb index (entryhi, entrylo)"

definition TLB_Read :: "int \<Rightarrow> tlb \<Rightarrow> (32 word \<times> 32 word) option" where
  "TLB_Read index tlb = cell tlb index"

definition TLB_Probe :: "32 word \<Rightarrow> tlb \<Rightarrow> int" where
  "TLB_Probe entryhi tlb =
     (case first_index (\<lambda>(hi, lo). hi AND PAGE_FRAME = entryhi AND PAGE_FRAME) tlb of
        None \<Rightarrow> - 1 | Some i \<Rightarrow> int i)"

section \<open>Data\<close>

record addrspace =
  as_vnode :: "nat option"
  as_vbase1 :: "32 word"
  as_npages1 :: "32 word"
  as_filesz1 :: "32 word"
  as_offset1 :: "32 word"
  as_flags1 :: "32 word"
  as_vbase2 :: "32 word"
  as_npages2 :: "32 word"
  as_filesz2 :: "32 word"
  as_offset2 :: "32 word"
  as_flags2 :: "32 word"
  as_stackpbase :: "32 word"

record pt_entry =
  pte_vaddr :: "32 word"
  pte_paddr :: "32 word"

text \<open>The entries are shared by the array and the queue of a page table, so both hold addresses.\<close>

record pagetable =
  pt_entries :: "nat karray"
  pt_fifo :: "nat linkedlist"

text \<open>
  \<^verbatim>\<open>VOP_READ\<close> and \<^verbatim>\<open>VOP_WRITE\<close> on kernel memory: given the vnode, the uio, memory and the state of the file
  systems, the error code and what becomes of the other three.
\<close>

type_synonym 'd vnode_rw = "nat \<Rightarrow> uio \<Rightarrow> 8 word list \<Rightarrow> 'd \<Rightarrow> ((errno + unit) \<times> uio \<times> 8 word list \<times> 'd) option"

record 'd vnode_io =
  io_read :: "'d vnode_rw"
  io_write :: "'d vnode_rw"

text \<open>
  The state of the system: locks and threads, frames and memory, translation buffer, statistics, the
  page table entries allocated, the swap map and the state of the file systems.
\<close>

record 'd vmsys =
  vm_sy :: syn
  vm_cm :: coremap
  vm_tlb :: tlb
  vm_next_victim :: "32 word"
  vm_stats :: "32 word list"
  vm_stats_lock :: "nat option"
  vm_pte :: "nat \<Rightarrow> pt_entry option"
  vm_pbrk :: nat
  vm_swapfile :: "nat option"
  vm_swapmap :: "32 word option list"
  vm_count :: "32 word"
  vm_disk :: 'd
  vm_vref :: "nat \<Rightarrow> int"

definition vm_splhigh :: "'d vmsys \<Rightarrow> int \<times> 'd vmsys" where
  "vm_splhigh st = (case splhigh (sy_ts (vm_sy st)) of
     (spl, ts) \<Rightarrow> (spl, st\<lparr>vm_sy := (vm_sy st)\<lparr>sy_ts := ts\<rparr>\<rparr>))"

definition vm_splx :: "int \<Rightarrow> 'd vmsys \<Rightarrow> 'd vmsys" where
  "vm_splx spl st = st\<lparr>vm_sy := restore_spl spl (vm_sy st)\<rparr>"

section \<open>Statistics\<close>

definition VMSTAT_TLB_FAULT :: nat where "VMSTAT_TLB_FAULT = 0"
definition VMSTAT_TLB_FAULT_FREE :: nat where "VMSTAT_TLB_FAULT_FREE = 1"
definition VMSTAT_TLB_FAULT_REPLACE :: nat where "VMSTAT_TLB_FAULT_REPLACE = 2"
definition VMSTAT_TLB_INVALIDATE :: nat where "VMSTAT_TLB_INVALIDATE = 3"
definition VMSTAT_TLB_RELOAD :: nat where "VMSTAT_TLB_RELOAD = 4"
definition VMSTAT_PAGE_FAULT_ZERO :: nat where "VMSTAT_PAGE_FAULT_ZERO = 5"
definition VMSTAT_PAGE_FAULT_DISK :: nat where "VMSTAT_PAGE_FAULT_DISK = 6"
definition VMSTAT_ELF_FILE_READ :: nat where "VMSTAT_ELF_FILE_READ = 7"
definition VMSTAT_SWAP_FILE_READ :: nat where "VMSTAT_SWAP_FILE_READ = 8"
definition VMSTAT_SWAP_FILE_WRITE :: nat where "VMSTAT_SWAP_FILE_WRITE = 9"
definition VMSTAT_COUNT :: nat where "VMSTAT_COUNT = 10"

lemmas vmstat_defs = VMSTAT_TLB_FAULT_def VMSTAT_TLB_FAULT_FREE_def VMSTAT_TLB_FAULT_REPLACE_def
  VMSTAT_TLB_INVALIDATE_def VMSTAT_TLB_RELOAD_def VMSTAT_PAGE_FAULT_ZERO_def VMSTAT_PAGE_FAULT_DISK_def
  VMSTAT_ELF_FILE_READ_def VMSTAT_SWAP_FILE_READ_def VMSTAT_SWAP_FILE_WRITE_def VMSTAT_COUNT_def

text \<open>\<^verbatim>\<open>_vmstats_inc\<close>, for callers that have interrupts off or hold the lock.\<close>

definition vmstats_bump :: "nat \<Rightarrow> 'd vmsys \<Rightarrow> 'd vmsys option" where
  "vmstats_bump index st = do {
     kassert (index < VMSTAT_COUNT);
     n \<leftarrow> cell (vm_stats st) (int index);
     c \<leftarrow> set_cell (vm_stats st) (int index) (n + 1);
     Some (st\<lparr>vm_stats := c\<rparr>) }"

definition vmstats_inc :: "nat \<Rightarrow> 'd vmsys \<Rightarrow> 'd vmsys option" where
  "vmstats_inc index st =
     (if ts_spl (sy_ts (vm_sy st)) = 15 then vmstats_bump index st
      else do {
        kassert (vm_stats_lock st \<noteq> None);
        sy1 \<leftarrow> lock_take (vm_stats_lock st) (vm_sy st);
        st1 \<leftarrow> vmstats_bump index (st\<lparr>vm_sy := sy1\<rparr>);
        sy2 \<leftarrow> lock_give (vm_stats_lock st1) (vm_sy st1);
        Some (st1\<lparr>vm_sy := sy2\<rparr>) })"

text \<open>\<open>l\<close> is the address of the lock that \<^verbatim>\<open>lock_create\<close> returns, if it does.\<close>

definition vmstats_init :: "nat option \<Rightarrow> 'd vmsys \<Rightarrow> 'd vmsys option" where
  "vmstats_init l st = do {
     kassert (vm_stats_lock st = None);
     a \<leftarrow> l;
     lk \<leftarrow> lock_create True True True True;
     let st1 = st\<lparr>vm_stats_lock := Some a, vm_sy := (vm_sy st)\<lparr>sy_lock := (sy_lock (vm_sy st))(a \<mapsto> lk)\<rparr>\<rparr>;
     sy1 \<leftarrow> lock_take (vm_stats_lock st1) (vm_sy st1);
     let st2 = st1\<lparr>vm_sy := sy1, vm_stats := replicate VMSTAT_COUNT 0\<rparr>;
     sy2 \<leftarrow> lock_give (vm_stats_lock st2) (vm_sy st2);
     Some (st2\<lparr>vm_sy := sy2\<rparr>) }"

definition vm_bootstrap :: "early_kmalloc \<Rightarrow> nat option \<Rightarrow> 'd vmsys \<Rightarrow> 'd vmsys option" where
  "vm_bootstrap km l st = do {
     cm \<leftarrow> coremap_bootstrap km (vm_cm st);
     vmstats_init l (st\<lparr>vm_cm := cm\<rparr>) }"

text \<open>The three sanity checks of \<^verbatim>\<open>_vmstats_print\<close>, which prints a warning for each that is false.\<close>

definition vmstats_checks :: "32 word list \<Rightarrow> bool \<times> bool \<times> bool" where
  "vmstats_checks c =
     (let n = (\<lambda>i. c ! i) in
      (n VMSTAT_TLB_FAULT = n VMSTAT_TLB_FAULT_FREE + n VMSTAT_TLB_FAULT_REPLACE,
       n VMSTAT_TLB_FAULT = n VMSTAT_PAGE_FAULT_DISK + n VMSTAT_PAGE_FAULT_ZERO + n VMSTAT_TLB_RELOAD,
       n VMSTAT_PAGE_FAULT_DISK = n VMSTAT_ELF_FILE_READ + n VMSTAT_SWAP_FILE_READ))"

section \<open>Address spaces\<close>

definition SEG_TEXT :: int where "SEG_TEXT = 1"
definition SEG_DATA :: int where "SEG_DATA = 2"
definition SEG_STCK :: int where "SEG_STCK = 3"
definition SEG_RD :: "32 word" where "SEG_RD = 1"
definition SEG_WR :: "32 word" where "SEG_WR = 2"
definition SEG_EX :: "32 word" where "SEG_EX = 4"

lemmas seg_defs = SEG_TEXT_def SEG_DATA_def SEG_STCK_def SEG_RD_def SEG_WR_def SEG_EX_def

definition VM_STACKPAGES :: "32 word" where
  "VM_STACKPAGES = 12"

definition USERSTACK :: "32 word" where
  "USERSTACK = USERTOP"

definition as_create :: "bool \<Rightarrow> addrspace option" where
  "as_create ok = (if \<not> ok then None else
     Some \<lparr>as_vnode = None, as_vbase1 = 0, as_npages1 = 0, as_filesz1 = 0, as_offset1 = 0, as_flags1 = 0,
           as_vbase2 = 0, as_npages2 = 0, as_filesz2 = 0, as_offset2 = 0, as_flags2 = 0, as_stackpbase = 0\<rparr>)"

definition as_copy :: "bool \<Rightarrow> addrspace \<Rightarrow> errno + addrspace" where
  "as_copy ok old = (case as_create ok of None \<Rightarrow> Inl ENOMEM | Some newas \<Rightarrow> Inr newas)"

definition as_destroy :: "addrspace \<Rightarrow> 'd vmsys \<Rightarrow> 'd vmsys option" where
  "as_destroy as st = do {
     v \<leftarrow> as_vnode as;
     let st1 = st\<lparr>vm_vref := (vm_vref st)(v := vm_vref st v - 1)\<rparr>;
     cm \<leftarrow> ungetppages (as_stackpbase as) (vm_cm st1);
     Some (st1\<lparr>vm_cm := cm\<rparr>) }"

fun tlb_invalidate :: "nat \<Rightarrow> nat \<Rightarrow> tlb \<Rightarrow> tlb option" where
  "tlb_invalidate 0 i tlb = Some tlb"
| "tlb_invalidate (Suc n) i tlb = do {
     tlb1 \<leftarrow> TLB_Write (TLBHI_INVALID (of_nat i)) 0 (int i) tlb;
     tlb_invalidate n (Suc i) tlb1 }"

definition as_activate :: "'d vmsys \<Rightarrow> 'd vmsys option" where
  "as_activate st = (case vm_splhigh st of (spl, st1) \<Rightarrow> do {
     st2 \<leftarrow> vmstats_bump VMSTAT_TLB_INVALIDATE st1;
     tlb \<leftarrow> tlb_invalidate NUM_TLB 0 (vm_tlb st2);
     Some (vm_splx spl (st2\<lparr>vm_tlb := tlb\<rparr>)) })"

definition region_pages :: "32 word \<Rightarrow> 32 word \<Rightarrow> 32 word" where
  "region_pages vaddr sz = ((sz + (vaddr AND NOT PAGE_FRAME) + 4096 - 1) AND PAGE_FRAME) div 4096"

definition as_define_region ::
    "nat \<Rightarrow> 32 word \<Rightarrow> 32 word \<Rightarrow> 32 word \<Rightarrow> 32 word \<Rightarrow> bool \<Rightarrow> bool \<Rightarrow> bool \<Rightarrow> addrspace \<Rightarrow> 'd vmsys \<Rightarrow>
     (errno + unit) \<times> addrspace \<times> 'd vmsys" where
  "as_define_region v vaddr filesz offset sz readable writeable executable as st =
     (let npages = region_pages vaddr sz;
          base = vaddr AND PAGE_FRAME;
          flags = (if readable then SEG_RD else 0) OR (if writeable then SEG_WR else 0) OR
                  (if executable then SEG_EX else 0);
          st1 = st\<lparr>vm_vref := (vm_vref st)(v := vm_vref st v + 1 + 1)\<rparr> in
      if as_vbase1 as = 0 then
        (Inr (), as\<lparr>as_vnode := Some v, as_vbase1 := base, as_npages1 := npages, as_filesz1 := filesz,
                    as_offset1 := offset, as_flags1 := flags\<rparr>, st1)
      else if as_vbase2 as = 0 then
        (Inr (), as\<lparr>as_vnode := Some v, as_vbase2 := base, as_npages2 := npages, as_filesz2 := filesz,
                    as_offset2 := offset, as_flags2 := flags\<rparr>, st1)
      else (Inl EUNIMP, as, st1))"

definition as_prepare_load :: "addrspace \<Rightarrow> 'd vmsys \<Rightarrow> ((errno + unit) \<times> addrspace \<times> 'd vmsys) option" where
  "as_prepare_load as st = do {
     (pa, cm) \<leftarrow> getppages VM_STACKPAGES (vm_cm st);
     Some (if pa = 0 then Inl ENOMEM else Inr (), as\<lparr>as_stackpbase := pa\<rparr>, st\<lparr>vm_cm := cm\<rparr>) }"

definition as_complete_load :: "addrspace \<Rightarrow> errno + unit" where
  "as_complete_load as = Inr ()"

definition as_define_stack :: "addrspace \<Rightarrow> (32 word) option" where
  "as_define_stack as = do { kassert (as_stackpbase as \<noteq> 0); Some USERSTACK }"

definition as_contains :: "addrspace \<Rightarrow> 32 word \<Rightarrow> int option" where
  "as_contains as vaddr = do {
     let vbase1 = as_vbase1 as;
     let vtop1 = vbase1 + as_npages1 as * 4096;
     let vbase2 = as_vbase2 as;
     let vtop2 = vbase2 + as_npages2 as * 4096;
     let stackbase = USERSTACK - VM_STACKPAGES * 4096;
     let stacktop = USERSTACK;
     kassert (vbase1 \<noteq> 0);
     kassert (vbase2 \<noteq> 0);
     kassert (as_stackpbase as \<noteq> 0);
     Some (if vaddr \<ge> vbase1 \<and> vaddr < vtop1 then SEG_TEXT
           else if vaddr \<ge> vbase2 \<and> vaddr < vtop2 then SEG_DATA
           else if vaddr \<ge> stackbase \<and> vaddr < stacktop then SEG_STCK
           else 0) }"

definition as_writeable :: "addrspace \<Rightarrow> 32 word \<Rightarrow> bool option" where
  "as_writeable as vaddr = do {
     seg \<leftarrow> as_contains as vaddr;
     Some (if seg = SEG_TEXT then as_flags1 as AND SEG_WR \<noteq> 0
           else if seg = SEG_DATA then as_flags2 as AND SEG_WR \<noteq> 0
           else if seg = SEG_STCK then SEG_WR AND SEG_WR \<noteq> 0
           else False) }"

section \<open>The swap file\<close>

definition ALIGN :: "32 word \<Rightarrow> 32 word" where
  "ALIGN x = x AND PAGE_FRAME"

definition IS_VALID :: "32 word \<Rightarrow> bool" where
  "IS_VALID x \<longleftrightarrow> x AND 1 \<noteq> 0"

definition IS_SWAPPED :: "32 word \<Rightarrow> bool" where
  "IS_SWAPPED x \<longleftrightarrow> x AND 4 \<noteq> 0"

definition SET_VALID :: "32 word \<Rightarrow> 32 word" where
  "SET_VALID x = x OR 1"

definition SET_SWAPPED :: "32 word \<Rightarrow> 32 word" where
  "SET_SWAPPED x = x OR 4"

definition MAX_SWAPPED_PAGES :: "32 word" where
  "MAX_SWAPPED_PAGES = 9 * 1024 * 1024 div 4096"

text \<open>A kernel address is a position in memory; \<^verbatim>\<open>kseg0\<close> is mapped directly.\<close>

definition kv_pos :: "32 word \<Rightarrow> nat" where
  "kv_pos vaddr = unat (vaddr - MIPS_KSEG0)"

definition page_uio :: "32 word \<Rightarrow> 32 word \<Rightarrow> uio_rw \<Rightarrow> uio" where
  "page_uio vaddr offset rw =
     \<lparr>iov_kbase = kv_pos vaddr, iov_ubase = vaddr, iov_len = 4096, uio_offset = sint offset, uio_resid = 4096,
      uio_segflg = UIO_SYSSPACE, uio_rw = rw, uio_space = None\<rparr>"

definition vm_io :: "'d vnode_rw \<Rightarrow> nat option \<Rightarrow> uio \<Rightarrow> 'd vmsys \<Rightarrow> ((errno + unit) \<times> uio \<times> 'd vmsys) option" where
  "vm_io f v u st = do {
     vn \<leftarrow> v;
     (r, u1, mem, d) \<leftarrow> f vn u (cm_mem (vm_cm st)) (vm_disk st);
     Some (r, u1, st\<lparr>vm_cm := (vm_cm st)\<lparr>cm_mem := mem\<rparr>, vm_disk := d\<rparr>) }"

definition read_from_swapfile :: "'d vnode_io \<Rightarrow> 32 word \<Rightarrow> 32 word \<Rightarrow> 'd vmsys \<Rightarrow> ((errno + unit) \<times> 'd vmsys) option" where
  "read_from_swapfile io vaddr offset st = do {
     (r, u, st1) \<leftarrow> vm_io (io_read io) (vm_swapfile st) (page_uio vaddr offset UIO_READ) st;
     Some (r, st1) }"

definition write_to_swapfile :: "'d vnode_io \<Rightarrow> 32 word \<Rightarrow> 32 word \<Rightarrow> 'd vmsys \<Rightarrow> ((errno + unit) \<times> 'd vmsys) option" where
  "write_to_swapfile io vaddr offset st = do {
     (r, u, st1) \<leftarrow> vm_io (io_write io) (vm_swapfile st) (page_uio vaddr offset UIO_WRITE) st;
     Some (r, st1) }"

definition find_swapped :: "32 word \<Rightarrow> 'd vmsys \<Rightarrow> int option option" where
  "find_swapped pfn st =
     scan (\<lambda>i. do { c \<leftarrow> cell (vm_swapmap st) i; c }) (\<lambda>p. pfn = p) (unat (vm_count st)) 0"

text \<open>The place of a page in the swap file: the one recorded for its frame, or the next free one.\<close>

definition swap_slot :: "32 word \<Rightarrow> 'd vmsys \<Rightarrow> (32 word \<times> 'd vmsys) option" where
  "swap_slot pfn st = do {
     found \<leftarrow> find_swapped pfn st;
     kassert (\<not> (vm_count st = MAX_SWAPPED_PAGES \<and> found = None));
     (case found of
        Some i \<Rightarrow> Some (word_of_int i * 4096, st)
      | None \<Rightarrow> do {
          m \<leftarrow> set_cell (vm_swapmap st) (uint (vm_count st)) (Some pfn);
          Some (vm_count st * 4096, st\<lparr>vm_swapmap := m, vm_count := vm_count st + 1\<rparr>) }) }"

definition swapout :: "'d vnode_io \<Rightarrow> nat \<Rightarrow> 'd vmsys \<Rightarrow> 'd vmsys option" where
  "swapout io pte st0 = (case vm_splhigh st0 of (spl, st) \<Rightarrow> do {
     e \<leftarrow> vm_pte st pte;
     let pfn = ALIGN (pte_paddr e);
     (offset, st1) \<leftarrow> swap_slot pfn st;
     (err, st2) \<leftarrow> write_to_swapfile io (pfn + MIPS_KSEG0) offset st1;
     kassert (err = Inr ());
     st3 \<leftarrow> vmstats_inc VMSTAT_SWAP_FILE_WRITE st2;
     Some (vm_splx spl (st3\<lparr>vm_pte := (vm_pte st3)(pte \<mapsto> e\<lparr>pte_paddr := SET_SWAPPED (ALIGN (pte_paddr e))\<rparr>)\<rparr>)) })"

definition swapin :: "'d vnode_io \<Rightarrow> nat \<Rightarrow> 'd vmsys \<Rightarrow> 'd vmsys option" where
  "swapin io pte st0 = do {
     e0 \<leftarrow> vm_pte st0 pte;
     kassert (IS_SWAPPED (pte_paddr e0));
     (case vm_splhigh st0 of (spl, st) \<Rightarrow> do {
        let pfn = ALIGN (pte_paddr e0);
        found \<leftarrow> find_swapped pfn st;
        i \<leftarrow> found;
        (err, st1) \<leftarrow> read_from_swapfile io (pfn + MIPS_KSEG0) (word_of_int i * 4096) st;
        kassert (err = Inr ());
        st2 \<leftarrow> vmstats_inc VMSTAT_SWAP_FILE_READ st1;
        Some (vm_splx spl (st2\<lparr>vm_pte := (vm_pte st2)(pte \<mapsto> e0\<lparr>pte_paddr := SET_VALID (ALIGN (pte_paddr e0))\<rparr>)\<rparr>)) }) }"

text \<open>\<open>open_swap\<close> is what \<^verbatim>\<open>vfs_open\<close> hands back; the map is allocated but not initialised.\<close>

definition swapfile_bootstrap :: "nat option \<Rightarrow> bool \<Rightarrow> 'd vmsys \<Rightarrow> 'd vmsys option" where
  "swapfile_bootstrap open_swap okmap st = do {
     v \<leftarrow> open_swap;
     kassert okmap;
     Some (st\<lparr>vm_swapfile := Some v, vm_swapmap := replicate (unat MAX_SWAPPED_PAGES) None, vm_count := 0\<rparr>) }"

section \<open>Page tables\<close>

definition pt_create :: "bool \<Rightarrow> bool \<Rightarrow> bool \<Rightarrow> pagetable option" where
  "pt_create ok oka okl =
     (if \<not> ok then None
      else do {
        arr \<leftarrow> array_create oka;
        ll \<leftarrow> ll_create okl;
        Some \<lparr>pt_entries = arr, pt_fifo = ll\<rparr> })"

text \<open>The loop of \<^verbatim>\<open>pt_destroy\<close> over the entries, then the one that empties the queue.\<close>

fun free_entries :: "nat karray \<Rightarrow> nat \<Rightarrow> int \<Rightarrow> 'd vmsys \<Rightarrow> 'd vmsys option" where
  "free_entries a 0 i st = Some st"
| "free_entries a (Suc n) i st = do {
     pte \<leftarrow> array_getguy a i;
     e \<leftarrow> vm_pte st pte;
     cm \<leftarrow> ungetppages (ALIGN (pte_paddr e)) (vm_cm st);
     free_entries a n (i + 1) (st\<lparr>vm_cm := cm, vm_pte := (vm_pte st)(pte := None)\<rparr>) }"

partial_function (option) empty_fifo :: "nat linkedlist \<Rightarrow> nat linkedlist option" where
  "empty_fifo ll = (if \<not> ll_empty ll then do { (_, ll1) \<leftarrow> ll_pop_front ll; empty_fifo ll1 } else Some ll)"

declare empty_fifo.simps [code]

definition pt_destroy :: "pagetable \<Rightarrow> 'd vmsys \<Rightarrow> 'd vmsys option" where
  "pt_destroy pt st = do {
     st1 \<leftarrow> free_entries (pt_entries pt) (nat (array_getnum (pt_entries pt))) 0 st;
     ll \<leftarrow> empty_fifo (pt_fifo pt);
     (_, _) \<leftarrow> ll_destroy ll;
     Some st1 }"

definition page_read ::
    "'d vnode_io \<Rightarrow> nat option \<Rightarrow> 32 word \<Rightarrow> 32 word \<Rightarrow> nat \<Rightarrow> nat \<Rightarrow> 'd vmsys \<Rightarrow> ((errno + unit) \<times> 'd vmsys) option" where
  "page_read io v offset vaddr memsize filesize0 st = do {
     let filesize = (if filesize0 > memsize then memsize else filesize0);
     let ku = (mk_kuio (kv_pos vaddr) memsize (sint offset) UIO_READ blank_uio)\<lparr>uio_resid := filesize\<rparr>;
     (r, ku1, st1) \<leftarrow> vm_io (io_read io) v ku st;
     (case r of
        Inl e \<Rightarrow> Some (Inl e, st1)
      | Inr _ \<Rightarrow>
          if uio_resid ku1 \<noteq> 0 then Some (Inl ENOEXEC, st1)
          else if memsize - filesize > 0 then do {
            let fillamt = memsize - filesize;
            (r2, ku2, x) \<leftarrow> uiomovezeros None fillamt (ku1\<lparr>uio_resid := uio_resid ku1 + fillamt\<rparr>)
              \<lparr>x_buf = [], x_kobj = cm_mem (vm_cm st1), x_user = no_user\<rparr>;
            Some (r2, st1\<lparr>vm_cm := (vm_cm st1)\<lparr>cm_mem := x_kobj x\<rparr>\<rparr>) }
          else Some (Inr (), st1)) }"

definition loadpage ::
    "'d vnode_io \<Rightarrow> addrspace \<Rightarrow> 32 word \<Rightarrow> 32 word \<Rightarrow> 'd vmsys \<Rightarrow> ((errno + unit) \<times> 'd vmsys) option" where
  "loadpage io as vaddr0 paddr0 st = do {
     let vaddr = ALIGN vaddr0;
     let paddr = ALIGN paddr0;
     reg \<leftarrow> as_contains as vaddr;
     (filesz, offset) \<leftarrow>
       (if reg = SEG_TEXT then
          (let diff = vaddr - as_vbase1 as in
           Some (if as_filesz1 as > diff then as_filesz1 as - diff else 0, as_offset1 as + diff))
        else if reg = SEG_DATA then
          (let diff = vaddr - as_vbase2 as in
           Some (if as_filesz2 as > diff then as_filesz2 as - diff else 0, as_offset2 as + diff))
        else None);
     st1 \<leftarrow> vmstats_inc VMSTAT_ELF_FILE_READ st;
     st2 \<leftarrow> vmstats_inc VMSTAT_PAGE_FAULT_DISK st1;
     page_read io (as_vnode as) offset (paddr + MIPS_KSEG0) 4096 (unat filesz) st2 }"

definition page_replace :: "'d vnode_io \<Rightarrow> pagetable \<Rightarrow> 'd vmsys \<Rightarrow> (32 word \<times> pagetable \<times> 'd vmsys) option" where
  "page_replace io pt st = do {
     (pte, ll) \<leftarrow> ll_pop_front (pt_fifo pt);
     st1 \<leftarrow> swapout io pte st;
     e \<leftarrow> vm_pte st1 pte;
     kassert (ALIGN (pte_paddr e) > 0);
     kassert (IS_SWAPPED (pte_paddr e));
     let i = TLB_Probe (pte_vaddr e) (vm_tlb st1);
     tlb \<leftarrow> (if i \<ge> 0 then TLB_Write (TLBHI_INVALID (word_of_int i)) 0 i (vm_tlb st1) else Some (vm_tlb st1));
     Some (ALIGN (pte_paddr e), pt\<lparr>pt_fifo := ll\<rparr>, st1\<lparr>vm_tlb := tlb\<rparr>) }"

definition zero_out_page :: "32 word \<Rightarrow> 'd vmsys \<Rightarrow> 'd vmsys option" where
  "zero_out_page paddr0 st = do {
     let paddr = ALIGN paddr0;
     kassert (paddr > 0);
     let ku = mk_kuio (kv_pos (paddr + MIPS_KSEG0)) 4096 0 UIO_READ blank_uio;
     (r, ku1, x) \<leftarrow> uiomovezeros None 4096 ku \<lparr>x_buf = [], x_kobj = cm_mem (vm_cm st), x_user = no_user\<rparr>;
     kassert (r = Inr ());
     Some (st\<lparr>vm_cm := (vm_cm st)\<lparr>cm_mem := x_kobj x\<rparr>\<rparr>) }"

definition force_free_page :: "'d vnode_io \<Rightarrow> pagetable \<Rightarrow> 'd vmsys \<Rightarrow> (pagetable \<times> 'd vmsys) option" where
  "force_free_page io pt st = do {
     (p, pt1, st1) \<leftarrow> page_replace io pt st;
     kassert (ALIGN p > 0);
     st2 \<leftarrow> zero_out_page p st1;
     cm \<leftarrow> ungetppages p (vm_cm st2);
     Some (pt1, st2\<lparr>vm_cm := cm\<rparr>) }"

definition pt_pagefault_handler ::
    "'d vnode_io \<Rightarrow> addrspace \<Rightarrow> pagetable \<Rightarrow> 32 word \<Rightarrow> 'd vmsys \<Rightarrow> ((errno + 32 word) \<times> pagetable \<times> 'd vmsys) option" where
  "pt_pagefault_handler io as pt vaddr st = do {
     (pa, cm) \<leftarrow> getppages 1 (vm_cm st);
     let paddr = ALIGN pa;
     let st1 = st\<lparr>vm_cm := cm\<rparr>;
     if paddr = 0 then do {
       (p, pt1, st2) \<leftarrow> page_replace io pt st1;
       st3 \<leftarrow> zero_out_page p st2;
       Some (Inr (SET_VALID p), pt1, st3) }
     else do {
       (r, st2) \<leftarrow> loadpage io as vaddr paddr st1;
       Some (case r of Inl e \<Rightarrow> Inl e | Inr _ \<Rightarrow> Inr (SET_VALID paddr), pt, st2) } }"

text \<open>
  The three retry loops of \<^verbatim>\<open>pt_lookup\<close>: an allocation that fails (\<open>ok k\<close> is its \<open>k\<close>-th attempt) is tried
  again after a page has been forced out.
\<close>

partial_function (option) alloc_entry ::
    "'d vnode_io \<Rightarrow> (nat \<Rightarrow> bool) \<Rightarrow> nat \<Rightarrow> pagetable \<Rightarrow> 'd vmsys \<Rightarrow> (pagetable \<times> 'd vmsys) option" where
  "alloc_entry io ok k pt st =
     (if ok k then Some (pt, st)
      else do { (pt1, st1) \<leftarrow> force_free_page io pt st; alloc_entry io ok (Suc k) pt1 st1 })"

partial_function (option) add_entry ::
    "'d vnode_io \<Rightarrow> (nat \<Rightarrow> bool) \<Rightarrow> nat \<Rightarrow> nat \<Rightarrow> pagetable \<Rightarrow> 'd vmsys \<Rightarrow> (pagetable \<times> 'd vmsys) option" where
  "add_entry io ok k pte pt st = do {
     (r, a) \<leftarrow> array_add (ok k) (pt_entries pt) pte;
     let pt1 = pt\<lparr>pt_entries := a\<rparr>;
     if r = Inr () then Some (pt1, st)
     else do { (pt2, st2) \<leftarrow> force_free_page io pt1 st; add_entry io ok (Suc k) pte pt2 st2 } }"

partial_function (option) push_entry ::
    "'d vnode_io \<Rightarrow> (nat \<Rightarrow> bool) \<Rightarrow> nat \<Rightarrow> nat \<Rightarrow> pagetable \<Rightarrow> 'd vmsys \<Rightarrow> (pagetable \<times> 'd vmsys) option" where
  "push_entry io ok k pte pt st = do {
     (r, ll) \<leftarrow> ll_push_back (ok k) (pt_fifo pt) pte;
     let pt1 = pt\<lparr>pt_fifo := ll\<rparr>;
     if r = Inr () then Some (pt1, st)
     else do { (pt2, st2) \<leftarrow> force_free_page io pt1 st; push_entry io ok (Suc k) pte pt2 st2 } }"

declare alloc_entry.simps [code] add_entry.simps [code] push_entry.simps [code]

record pt_allocs =
  al_pte :: "nat \<Rightarrow> bool"
  al_add :: "nat \<Rightarrow> bool"
  al_push :: "nat \<Rightarrow> bool"

definition find_pte :: "pagetable \<Rightarrow> 32 word \<Rightarrow> 'd vmsys \<Rightarrow> int option option" where
  "find_pte pt vaddr st =
     scan (\<lambda>i. do { pte \<leftarrow> array_getguy (pt_entries pt) i; vm_pte st pte })
       (\<lambda>e. ALIGN (pte_vaddr e) = vaddr) (nat (array_getnum (pt_entries pt))) 0"

definition set_valid_entry :: "nat \<Rightarrow> 'd vmsys \<Rightarrow> (32 word \<times> 'd vmsys) option" where
  "set_valid_entry pte st = do {
     e \<leftarrow> vm_pte st pte;
     Some (ALIGN (SET_VALID (ALIGN (pte_paddr e))),
           st\<lparr>vm_pte := (vm_pte st)(pte \<mapsto> e\<lparr>pte_paddr := SET_VALID (ALIGN (pte_paddr e))\<rparr>)\<rparr>) }"

text \<open>The two branches of \<^verbatim>\<open>pt_lookup\<close>: the page has an entry, or it does not.\<close>

definition pt_hit ::
    "'d vnode_io \<Rightarrow> pt_allocs \<Rightarrow> nat \<Rightarrow> pagetable \<Rightarrow> 'd vmsys \<Rightarrow> (pagetable \<times> 'd vmsys) option" where
  "pt_hit io al pte pt st = do {
     e \<leftarrow> vm_pte st pte;
     if IS_VALID (pte_paddr e) then do {
       st1 \<leftarrow> vmstats_inc VMSTAT_TLB_RELOAD st;
       Some (pt, st1) }
     else do {
       kassert (IS_SWAPPED (pte_paddr e));
       st1 \<leftarrow> swapin io pte st;
       st2 \<leftarrow> vmstats_inc VMSTAT_PAGE_FAULT_DISK st1;
       push_entry io (al_push al) 0 pte pt st2 } }"

definition pt_miss ::
    "'d vnode_io \<Rightarrow> pt_allocs \<Rightarrow> addrspace \<Rightarrow> pagetable \<Rightarrow> 32 word \<Rightarrow> 'd vmsys \<Rightarrow> (nat \<times> pagetable \<times> 'd vmsys) option" where
  "pt_miss io al as pt vaddr st = do {
     (pt1, st1) \<leftarrow> alloc_entry io (al_pte al) 0 pt st;
     let pte = vm_pbrk st1;
     let st2 = st1\<lparr>vm_pbrk := Suc pte, vm_pte := (vm_pte st1)(pte \<mapsto> \<lparr>pte_vaddr = vaddr, pte_paddr = 0\<rparr>)\<rparr>;
     (r, pt3, st3) \<leftarrow> pt_pagefault_handler io as pt1 vaddr st2;
     paddr \<leftarrow> (case r of Inl e \<Rightarrow> None | Inr p \<Rightarrow> Some p);
     let st4 = st3\<lparr>vm_pte := (vm_pte st3)(pte \<mapsto> \<lparr>pte_vaddr = vaddr, pte_paddr = paddr\<rparr>)\<rparr>;
     (pt5, st5) \<leftarrow> add_entry io (al_add al) 0 pte pt3 st4;
     (pt6, st6) \<leftarrow> push_entry io (al_push al) 0 pte pt5 st5;
     Some (pte, pt6, st6) }"

definition pt_lookup ::
    "'d vnode_io \<Rightarrow> pt_allocs \<Rightarrow> addrspace \<Rightarrow> pagetable \<Rightarrow> 32 word \<Rightarrow> 'd vmsys \<Rightarrow> (32 word \<times> pagetable \<times> 'd vmsys) option" where
  "pt_lookup io al as pt vaddr0 st = do {
     let vaddr = ALIGN vaddr0;
     found \<leftarrow> find_pte pt vaddr st;
     (pte, pt1, st1) \<leftarrow> (case found of
        Some i \<Rightarrow> do {
          pte \<leftarrow> array_getguy (pt_entries pt) i;
          (pt1, st1) \<leftarrow> pt_hit io al pte pt st;
          Some (pte, pt1, st1) }
      | None \<Rightarrow> pt_miss io al as pt vaddr st);
     (p, st2) \<leftarrow> set_valid_entry pte st1;
     Some (p, pt1, st2) }"

section \<open>The fault handler\<close>

definition tlb_get_rr_victim :: "'d vmsys \<Rightarrow> int \<times> 'd vmsys" where
  "tlb_get_rr_victim st = (uint (vm_next_victim st), st\<lparr>vm_next_victim := (vm_next_victim st + 1) mod 64\<rparr>)"

definition tlb_entry_lo :: "addrspace \<Rightarrow> 32 word \<Rightarrow> 32 word \<Rightarrow> (32 word) option" where
  "tlb_entry_lo as faultaddress paddr = do {
     w \<leftarrow> as_writeable as faultaddress;
     Some (if w then (paddr OR TLBLO_VALID) OR TLBLO_DIRTY else paddr OR TLBLO_VALID) }"

definition tlb_replace :: "addrspace \<Rightarrow> 32 word \<Rightarrow> 32 word \<Rightarrow> 'd vmsys \<Rightarrow> 'd vmsys option" where
  "tlb_replace as faultaddress paddr st0 = do {
     st1 \<leftarrow> vmstats_inc VMSTAT_TLB_FAULT_REPLACE st0;
     (case tlb_get_rr_victim st1 of (victim, st) \<Rightarrow> do {
        elo \<leftarrow> tlb_entry_lo as faultaddress paddr;
        tlb \<leftarrow> TLB_Write faultaddress elo victim (vm_tlb st);
        Some (st\<lparr>vm_tlb := tlb\<rparr>) }) }"

text \<open>The search for an unused entry, and what is done with or without one.\<close>

definition tlb_install :: "addrspace \<Rightarrow> 32 word \<Rightarrow> 32 word \<Rightarrow> 'd vmsys \<Rightarrow> 'd vmsys option" where
  "tlb_install as faultaddress paddr st1 = do {
     slot \<leftarrow> scan (\<lambda>i. TLB_Read i (vm_tlb st1)) (\<lambda>(ehi, elo). elo AND TLBLO_VALID = 0) NUM_TLB 0;
     (case slot of
        Some i \<Rightarrow> do {
          elo \<leftarrow> tlb_entry_lo as faultaddress paddr;
          st2 \<leftarrow> vmstats_inc VMSTAT_TLB_FAULT_FREE st1;
          st3 \<leftarrow> vmstats_inc VMSTAT_TLB_FAULT st2;
          tlb \<leftarrow> TLB_Write faultaddress elo i (vm_tlb st3);
          Some (st3\<lparr>vm_tlb := tlb\<rparr>) }
      | None \<Rightarrow> do {
          st2 \<leftarrow> vmstats_inc VMSTAT_TLB_FAULT st1;
          tlb_replace as faultaddress paddr st2 }) }"

text \<open>Where the page is: the stack is in memory from the start, the segments go through the page table.\<close>

definition fault_frame ::
    "'d vnode_io \<Rightarrow> pt_allocs \<Rightarrow> addrspace \<Rightarrow> int \<Rightarrow> 32 word \<Rightarrow> pagetable \<Rightarrow> 'd vmsys \<Rightarrow> (32 word \<times> pagetable \<times> 'd vmsys) option" where
  "fault_frame io al as seg faultaddress pt st =
     (if seg = SEG_STCK then do {
        st1 \<leftarrow> vmstats_inc VMSTAT_PAGE_FAULT_ZERO st;
        let stackbase = USERSTACK - VM_STACKPAGES * 4096;
        Some ((faultaddress - stackbase) + as_stackpbase as, pt, st1) }
      else pt_lookup io al as pt faultaddress st)"

datatype fault_result = Fault_ret "errno + unit" | Fault_kill

definition VM_FAULT_READ :: int where "VM_FAULT_READ = 0"
definition VM_FAULT_WRITE :: int where "VM_FAULT_WRITE = 1"
definition VM_FAULT_READONLY :: int where "VM_FAULT_READONLY = 2"

text \<open>
  \<open>space\<close> is \<^verbatim>\<open>curthread->t_vmspace\<close>, \<open>pt\<close> the page table of the current process. \<open>Fault_kill\<close> is the call of
  \<^verbatim>\<open>kill_process(-1)\<close>, which does not come back.
\<close>

definition vm_fault ::
    "'d vnode_io \<Rightarrow> pt_allocs \<Rightarrow> addrspace option \<Rightarrow> int \<Rightarrow> 32 word \<Rightarrow> pagetable \<Rightarrow> 'd vmsys \<Rightarrow>
     (fault_result \<times> pagetable \<times> 'd vmsys) option" where
  "vm_fault io al space faulttype faultaddress0 pt st0 = (case vm_splhigh st0 of (spl, st) \<Rightarrow>
     let faultaddress = faultaddress0 AND PAGE_FRAME in
     if faulttype = VM_FAULT_READONLY then Some (Fault_kill, pt, vm_splx spl st)
     else if faulttype \<noteq> VM_FAULT_READ \<and> faulttype \<noteq> VM_FAULT_WRITE then Some (Fault_ret (Inl EINVAL), pt, vm_splx spl st)
     else (case space of
        None \<Rightarrow> Some (Fault_ret (Inl EFAULT), pt, vm_splx spl st)
      | Some as \<Rightarrow> do {
          kassert (as_vbase1 as \<noteq> 0 \<and> as_npages1 as \<noteq> 0 \<and> as_vbase2 as \<noteq> 0 \<and> as_npages2 as \<noteq> 0 \<and> as_stackpbase as \<noteq> 0);
          kassert (as_vbase1 as AND PAGE_FRAME = as_vbase1 as \<and> as_vbase2 as AND PAGE_FRAME = as_vbase2 as \<and>
                   as_stackpbase as AND PAGE_FRAME = as_stackpbase as);
          seg \<leftarrow> as_contains as faultaddress;
          if seg = 0 then Some (Fault_kill, pt, st)
          else do {
            (paddr, pt1, st1) \<leftarrow> fault_frame io al as seg faultaddress pt st;
            kassert (paddr AND PAGE_FRAME > 0);
            kassert (paddr AND PAGE_FRAME = paddr);
            st2 \<leftarrow> tlb_install as faultaddress paddr st1;
            Some (Fault_ret (Inr ()), pt1, vm_splx spl st2) } }))"

section \<open>Page arithmetic\<close>

lemma PAGE_FRAME_mask: "NOT PAGE_FRAME = mask 12"
  by (simp add: PAGE_FRAME_def mask_eq_exp_minus_1)

lemma unat_page_offset: "unat (x AND NOT PAGE_FRAME) = unat x mod 4096"
  unfolding PAGE_FRAME_mask take_bit_eq_mask [symmetric] by (simp add: take_bit_eq_mod unat_mod)

lemma unat_page_base: "unat (x AND PAGE_FRAME) = 4096 * (unat x div 4096)"
proof -
  have "(x AND PAGE_FRAME) AND (x AND NOT PAGE_FRAME) = 0" "(x AND PAGE_FRAME) OR (x AND NOT PAGE_FRAME) = x"
    by (auto simp: bit_eq_iff bit_simps)
  then have s: "(x AND PAGE_FRAME) + (x AND NOT PAGE_FRAME) = x"
    using disjunctive_add_eq_or [of "x AND PAGE_FRAME" "x AND NOT PAGE_FRAME"] by simp
  then have "x AND PAGE_FRAME = x - (x AND NOT PAGE_FRAME)" by (simp add: algebra_simps)
  moreover have "(x AND NOT PAGE_FRAME) \<le> x" by (simp add: word_le_nat_alt unat_page_offset)
  ultimately have "unat (x AND PAGE_FRAME) = unat x - unat x mod 4096"
    using unat_sub [of "x AND NOT PAGE_FRAME" x] by (simp add: unat_page_offset)
  then show ?thesis by (simp add: minus_mod_eq_mult_div)
qed

lemma page_base_idem [simp]: "(x AND PAGE_FRAME) AND PAGE_FRAME = x AND PAGE_FRAME"
  by (simp add: and.assoc)

lemma region_pages_covers:
  assumes "unat vaddr + unat sz + 4096 \<le> 2 ^ 32"
  shows "unat (region_pages vaddr sz) = (unat vaddr mod 4096 + unat sz + 4095) div 4096"
proof -
  have o: "unat (vaddr AND NOT PAGE_FRAME) = unat vaddr mod 4096" by (rule unat_page_offset)
  have le: "unat vaddr mod 4096 \<le> unat vaddr" by simp
  have a: "unat (sz + (vaddr AND NOT PAGE_FRAME)) = unat sz + unat vaddr mod 4096"
    using assms le by (subst unat_add_32) (simp_all add: o)
  have "unat (sz + (vaddr AND NOT PAGE_FRAME) + 4095) = unat sz + unat vaddr mod 4096 + 4095"
    using assms le by (subst unat_add_32) (simp_all add: a)
  moreover have "sz + (vaddr AND NOT PAGE_FRAME) + 4096 - 1 = sz + (vaddr AND NOT PAGE_FRAME) + 4095" by simp
  ultimately have b: "unat (sz + (vaddr AND NOT PAGE_FRAME) + 4096 - 1) = unat vaddr mod 4096 + unat sz + 4095"
    by (simp only: add.commute)
  show ?thesis unfolding region_pages_def unat_div unat_page_base b by simp
qed

text \<open>The page range of a region: it contains the region and exceeds it by less than a page on either side.\<close>

lemma region_range:
  assumes "unat vaddr + unat sz + 4096 \<le> 2 ^ 32"
  defines "base \<equiv> vaddr AND PAGE_FRAME" and "rtop \<equiv> (vaddr AND PAGE_FRAME) + region_pages vaddr sz * 4096"
  shows "unat base \<le> unat vaddr" "unat vaddr < unat base + 4096"
    and "unat rtop = 4096 * ((unat vaddr + unat sz + 4095) div 4096)"
    and "unat vaddr + unat sz \<le> unat rtop" "unat rtop < unat vaddr + unat sz + 4096"
proof -
  define b where "b = 4096 * (unat vaddr div 4096)"
  define t where "t = 4096 * ((unat vaddr + unat sz + 4095) div 4096)"
  have vb: "unat vaddr = b + unat vaddr mod 4096" by (simp add: b_def)
  have base: "unat base = b" by (simp add: base_def b_def unat_page_base)
  have "unat (region_pages vaddr sz) = (unat vaddr mod 4096 + unat sz + 4095) div 4096"
    by (rule region_pages_covers [OF assms(1)])
  moreover have "(unat vaddr + unat sz + 4095) div 4096 = unat vaddr div 4096 + (unat vaddr mod 4096 + unat sz + 4095) div 4096"
    using vb by (subst vb) (simp add: b_def div_mult_self1 [of 4096, symmetric] algebra_simps del: div_mult_self1)
  ultimately have np: "b + 4096 * unat (region_pages vaddr sz) = t" by (simp add: b_def t_def)
  have tb: "unat vaddr + unat sz \<le> t" "t < unat vaddr + unat sz + 4096" by (simp_all add: t_def)
  have m: "unat (region_pages vaddr sz * 4096) = 4096 * unat (region_pages vaddr sz)"
    using unat_of_nat_32 [of "4096 * unat (region_pages vaddr sz)"] np tb assms(1) by (simp add: mult.commute)
  have "unat rtop = t"
    using np tb assms(1) base m unat_add_32 [of base "region_pages vaddr sz * 4096"] by (simp add: rtop_def base_def)
  then show "unat rtop = 4096 * ((unat vaddr + unat sz + 4095) div 4096)" "unat vaddr + unat sz \<le> unat rtop"
    "unat rtop < unat vaddr + unat sz + 4096" using tb by (simp_all add: t_def)
  show "unat base \<le> unat vaddr" "unat vaddr < unat base + 4096" using base vb by simp_all
qed

definition region_flags :: "bool \<Rightarrow> bool \<Rightarrow> bool \<Rightarrow> 32 word" where
  "region_flags rd wr ex = (if rd then SEG_RD else 0) OR (if wr then SEG_WR else 0) OR (if ex then SEG_EX else 0)"

lemma region_flags_WR: "region_flags rd wr ex AND SEG_WR \<noteq> 0 \<longleftrightarrow> wr"
  by (simp add: region_flags_def seg_defs)

lemma as_define_first:
  "as_vbase1 as = 0 \<Longrightarrow> as_define_region v va fs ofs sz rd wr ex as st =
     (Inr (), as\<lparr>as_vnode := Some v, as_vbase1 := va AND PAGE_FRAME, as_npages1 := region_pages va sz, as_filesz1 := fs,
        as_offset1 := ofs, as_flags1 := region_flags rd wr ex\<rparr>, st\<lparr>vm_vref := (vm_vref st)(v := vm_vref st v + 1 + 1)\<rparr>)"
  by (simp only: as_define_region_def Let_def region_flags_def if_True simp_thms)

lemma as_define_second:
  "as_vbase1 as \<noteq> 0 \<Longrightarrow> as_vbase2 as = 0 \<Longrightarrow> as_define_region v va fs ofs sz rd wr ex as st =
     (Inr (), as\<lparr>as_vnode := Some v, as_vbase2 := va AND PAGE_FRAME, as_npages2 := region_pages va sz, as_filesz2 := fs,
        as_offset2 := ofs, as_flags2 := region_flags rd wr ex\<rparr>, st\<lparr>vm_vref := (vm_vref st)(v := vm_vref st v + 1 + 1)\<rparr>)"
  by (simp only: as_define_region_def Let_def region_flags_def if_True if_False simp_thms)

lemma page_base_nz: "4096 \<le> unat vaddr \<Longrightarrow> vaddr AND PAGE_FRAME \<noteq> 0"
  using unat_page_base [of vaddr] by (auto simp: unat_eq_0)

text \<open>\<open>two_regions\<close>: what \<^verbatim>\<open>load_elf\<close> does to a new address space for a program of two segments.\<close>

definition two_regions ::
    "nat \<Rightarrow> 32 word \<times> 32 word \<times> 32 word \<times> 32 word \<times> bool \<times> bool \<times> bool \<Rightarrow>
     32 word \<times> 32 word \<times> 32 word \<times> 32 word \<times> bool \<times> bool \<times> bool \<Rightarrow> 'd vmsys \<Rightarrow> ((errno + unit) \<times> addrspace \<times> 'd vmsys) option" where
  "two_regions v = (\<lambda>(va1, fs1, of1, sz1, r1, w1, x1) (va2, fs2, of2, sz2, r2, w2, x2) st. do {
     as0 \<leftarrow> as_create True;
     (r, as, st0) \<leftarrow> as_prepare_load as0 st;
     (case r of
        Inl e \<Rightarrow> Some (Inl e, as, st0)
      | Inr _ \<Rightarrow> (case as_define_region v va1 fs1 of1 sz1 r1 w1 x1 as st0 of
            (Inl e, as1, st1) \<Rightarrow> Some (Inl e, as1, st1)
          | (Inr _, as1, st1) \<Rightarrow> Some (as_define_region v va2 fs2 of2 sz2 r2 w2 x2 as1 st1))) })"

lemma two_regions_eq:
  assumes "4096 \<le> unat va1" "4096 \<le> unat va2"
    and "two_regions v (va1, fs1, of1, sz1, r1, w1, x1) (va2, fs2, of2, sz2, r2, w2, x2) st = Some (Inr (), as, st')"
  shows "as_vbase1 as = va1 AND PAGE_FRAME" "as_npages1 as = region_pages va1 sz1" "as_flags1 as = region_flags r1 w1 x1"
    and "as_vbase2 as = va2 AND PAGE_FRAME" "as_npages2 as = region_pages va2 sz2" "as_flags2 as = region_flags r2 w2 x2"
    and "as_vbase1 as \<noteq> 0" "as_vbase2 as \<noteq> 0" "as_stackpbase as \<noteq> 0"
proof -
  note nz = page_base_nz [OF assms(1)] page_base_nz [OF assms(2)]
  obtain pa cm where g: "getppages VM_STACKPAGES (vm_cm st) = Some (pa, cm)" "pa \<noteq> 0"
    using assms(3) by (auto simp: two_regions_def as_create_def as_prepare_load_def bind_eq_Some_conv split: if_splits)
  then have "as = \<lparr>as_vnode = Some v, as_vbase1 = va1 AND PAGE_FRAME, as_npages1 = region_pages va1 sz1,
    as_filesz1 = fs1, as_offset1 = of1, as_flags1 = region_flags r1 w1 x1, as_vbase2 = va2 AND PAGE_FRAME,
    as_npages2 = region_pages va2 sz2, as_filesz2 = fs2, as_offset2 = of2, as_flags2 = region_flags r2 w2 x2, as_stackpbase = pa\<rparr>"
    using assms(3) nz by (simp add: two_regions_def as_create_def as_define_first as_define_second as_prepare_load_def)
  then show "as_vbase1 as = va1 AND PAGE_FRAME" "as_npages1 as = region_pages va1 sz1" "as_flags1 as = region_flags r1 w1 x1"
    and "as_vbase2 as = va2 AND PAGE_FRAME" "as_npages2 as = region_pages va2 sz2" "as_flags2 as = region_flags r2 w2 x2"
    and "as_vbase1 as \<noteq> 0" "as_vbase2 as \<noteq> 0" "as_stackpbase as \<noteq> 0"
    using nz g(2) by simp_all
qed

lemma word_range_iff: "(x :: 32 word) \<ge> b \<and> x < t \<longleftrightarrow> unat b \<le> unat x \<and> unat x < unat t"
  by (simp add: word_le_nat_alt word_less_nat_alt)

text \<open>
  Claim C25: an address space maps every byte of the program. After a text and a data segment have been
  defined on a new address space, in separate pages below the stack, and the stack has been allocated,
  \<^verbatim>\<open>as_contains\<close> finds every address of each segment and of the 12 stack pages in its segment,
  and \<^verbatim>\<open>as_writeable\<close> returns the permission the segment was defined with.
\<close>

theorem as_regions_found:
  assumes "two_regions v (va1, fs1, of1, sz1, r1, w1, x1) (va2, fs2, of2, sz2, r2, w2, x2) st = Some (Inr (), as, st')"
    and "4096 \<le> unat va1" "unat va1 + unat sz1 + 4096 \<le> unat va2" "unat va2 + unat sz2 + 4096 \<le> 0x7fff4000"
  shows "\<forall>a. (unat va1 \<le> unat a \<and> unat a < unat va1 + unat sz1 \<longrightarrow>
              as_contains as a = Some SEG_TEXT \<and> as_writeable as a = Some w1) \<and>
             (unat va2 \<le> unat a \<and> unat a < unat va2 + unat sz2 \<longrightarrow>
              as_contains as a = Some SEG_DATA \<and> as_writeable as a = Some w2) \<and>
             (0x7fff4000 \<le> unat a \<and> unat a < 0x80000000 \<longrightarrow>
              as_contains as a = Some SEG_STCK \<and> as_writeable as a = Some True)"
proof (intro allI)
  fix a
  have le: "unat va1 + unat sz1 + 4096 \<le> 2 ^ 32" "unat va2 + unat sz2 + 4096 \<le> 2 ^ 32" "4096 \<le> unat va2"
    using assms(2-4) by simp_all
  note e = two_regions_eq [OF assms(2) le(3) assms(1)]
  note g1 = region_range [OF le(1)] and g2 = region_range [OF le(2)]
  define t1 where "t1 = unat ((va1 AND PAGE_FRAME) + region_pages va1 sz1 * 4096)"
  define t2 where "t2 = unat ((va2 AND PAGE_FRAME) + region_pages va2 sz2 * 4096)"
  define b1 where "b1 = unat (va1 AND PAGE_FRAME)"
  define b2 where "b2 = unat (va2 AND PAGE_FRAME)"
  have stk: "unat (USERSTACK - VM_STACKPAGES * 4096) = 0x7fff4000" "unat USERSTACK = 0x80000000"
    by (simp_all add: USERSTACK_def USERTOP_def VM_STACKPAGES_def)
  have c: "as_contains as a = Some (if b1 \<le> unat a \<and> unat a < t1 then SEG_TEXT else if b2 \<le> unat a \<and> unat a < t2 then SEG_DATA
      else if 0x7fff4000 \<le> unat a \<and> unat a < 0x80000000 then SEG_STCK else 0)"
    using e(7-9) unfolding as_contains_def Let_def word_range_iff stk e(1,2,4,5) t1_def t2_def b1_def b2_def by simp
  have bounds: "b1 \<le> unat va1" "unat va1 + unat sz1 \<le> t1" "t1 < unat va1 + unat sz1 + 4096"
      "b2 \<le> unat va2" "unat va2 < b2 + 4096" "unat va2 + unat sz2 \<le> t2" "t2 < unat va2 + unat sz2 + 4096"
    using g1 g2 by (simp_all add: t1_def t2_def b1_def b2_def)
  have "SEG_WR AND SEG_WR \<noteq> 0" by (simp add: SEG_WR_def)
  then have w: "as_writeable as a = map_option (\<lambda>seg. if seg = SEG_TEXT then w1 else if seg = SEG_DATA then w2
      else seg = SEG_STCK) (as_contains as a)"
    by (cases "as_contains as a") (simp_all add: as_writeable_def e(3,6) region_flags_WR)
  have 1: "as_contains as a = Some SEG_TEXT" if "unat va1 \<le> unat a" "unat a < unat va1 + unat sz1"
  proof -
    have "b1 \<le> unat a \<and> unat a < t1" using that bounds by linarith
    then show ?thesis unfolding c by simp
  qed
  have 2: "as_contains as a = Some SEG_DATA" if "unat va2 \<le> unat a" "unat a < unat va2 + unat sz2"
  proof -
    have "b2 \<le> unat a \<and> unat a < t2" "\<not> unat a < t1" using that bounds assms(3) by linarith+
    then show ?thesis unfolding c by simp
  qed
  have 3: "as_contains as a = Some SEG_STCK" if "0x7fff4000 \<le> unat a" "unat a < 0x80000000"
  proof -
    have "\<not> unat a < t1" "\<not> unat a < t2" using that bounds assms(3,4) by linarith+
    then show ?thesis unfolding c using that by simp
  qed
  have d: "SEG_TEXT \<noteq> SEG_DATA" "SEG_TEXT \<noteq> SEG_STCK" "SEG_DATA \<noteq> SEG_STCK" by (simp_all add: seg_defs)
  show "(unat va1 \<le> unat a \<and> unat a < unat va1 + unat sz1 \<longrightarrow>
              as_contains as a = Some SEG_TEXT \<and> as_writeable as a = Some w1) \<and>
             (unat va2 \<le> unat a \<and> unat a < unat va2 + unat sz2 \<longrightarrow>
              as_contains as a = Some SEG_DATA \<and> as_writeable as a = Some w2) \<and>
             (0x7fff4000 \<le> unat a \<and> unat a < 0x80000000 \<longrightarrow>
              as_contains as a = Some SEG_STCK \<and> as_writeable as a = Some True)"
    unfolding w using 1 2 3 d d [symmetric] by (intro conjI impI; elim conjE) simp_all
qed

text \<open>A machine that has just booted, before the frame map exists.\<close>

definition wit_vm :: "'d \<Rightarrow> 'd vmsys" where
  "wit_vm d = \<lparr>vm_sy = ls_sy wit_lsys,
     vm_cm = wit_coremap\<lparr>cm_bootstrapped := False, cm_ram := \<lparr>firstpaddr = 4096, lastpaddr = 0x100000\<rparr>\<rparr>,
     vm_tlb = replicate NUM_TLB (0, 0), vm_next_victim = 0, vm_stats = replicate VMSTAT_COUNT 0, vm_stats_lock = Some 5,
     vm_pte = Map.empty, vm_pbrk = 0, vm_swapfile = Some 0, vm_swapmap = replicate (unat MAX_SWAPPED_PAGES) None,
     vm_count = 0, vm_disk = d, vm_vref = (\<lambda>_. 0)\<rparr>"

lemma wit_steal: "getppages VM_STACKPAGES (vm_cm (wit_vm d)) =
    Some (4096, (vm_cm (wit_vm d))\<lparr>cm_ram := \<lparr>firstpaddr = 53248, lastpaddr = 0x100000\<rparr>\<rparr>)"
  by (simp add: getppages_def wit_vm_def ram_stealmem_def VM_STACKPAGES_def)

theorem as_regions_found_witness:
  "\<exists>as st'. two_regions 0 (0x400000, 0, 0, 100, True, False, True) (0x10000000, 0, 0, 50, True, True, False) (wit_vm ())
       = Some (Inr (), as, st') \<and> as_contains as 0x400010 = Some SEG_TEXT \<and> as_writeable as 0x400010 = Some False"
proof -
  have nz: "0x400000 AND PAGE_FRAME \<noteq> 0" "0x10000000 AND PAGE_FRAME \<noteq> 0" by (simp_all add: PAGE_FRAME_def)
  have "\<exists>as st'. two_regions 0 (0x400000, 0, 0, 100, True, False, True) (0x10000000, 0, 0, 50, True, True, False) (wit_vm ())
       = Some (Inr (), as, st')"
    using nz by (simp add: two_regions_def as_create_def as_define_first as_define_second as_prepare_load_def wit_steal)
  then obtain as st' where as: "two_regions 0 (0x400000, 0, 0, 100, True, False, True)
      (0x10000000, 0, 0, 50, True, True, False) (wit_vm ()) = Some (Inr (), as, st')" by blast
  show ?thesis
    using as as_regions_found [OF as, THEN spec, of "0x400010"] by simp
qed

section \<open>What paging leaves alone\<close>

text \<open>Entries of the translation buffer are kept or invalidated.\<close>

definition tlb_le :: "tlb \<Rightarrow> tlb \<Rightarrow> bool" where
  "tlb_le t t' \<longleftrightarrow> length t' = length t \<and> (\<forall>i < length t. t' ! i = t ! i \<or> snd (t' ! i) = 0)"

lemma tlb_le_refl [simp]: "tlb_le t t"
  by (simp add: tlb_le_def)

lemma tlb_le_trans: "tlb_le t t' \<Longrightarrow> tlb_le t' t'' \<Longrightarrow> tlb_le t t''"
  by (auto simp: tlb_le_def) metis

lemma tlb_le_write: "TLB_Write hi 0 i t = Some t' \<Longrightarrow> tlb_le t t'"
  by (auto simp: TLB_Write_def tlb_le_def set_cell_eq_Some_iff nth_list_update)

text \<open>
  \<open>pg_keeps N\<close>: evicting and loading pages changes no lock, no interrupt level, no round-robin position, and only
  the counters \<open>N\<close>.
\<close>

definition pg_keeps :: "nat set \<Rightarrow> 'd vmsys \<Rightarrow> 'd vmsys \<Rightarrow> bool" where
  "pg_keeps N st st' \<longleftrightarrow> vm_sy st' = vm_sy st \<and> vm_next_victim st' = vm_next_victim st \<and>
     length (vm_stats st') = length (vm_stats st) \<and>
     (\<forall>i < length (vm_stats st). i \<notin> N \<longrightarrow> vm_stats st' ! i = vm_stats st ! i) \<and>
     tlb_le (vm_tlb st) (vm_tlb st')"

lemma pg_keepsI:
  "vm_sy st' = vm_sy st \<Longrightarrow> vm_next_victim st' = vm_next_victim st \<Longrightarrow> vm_stats st' = vm_stats st \<Longrightarrow>
   vm_tlb st' = vm_tlb st \<Longrightarrow> pg_keeps N st st'"
  by (simp add: pg_keeps_def)

lemma pg_keeps_trans: "pg_keeps N st st' \<Longrightarrow> pg_keeps N st' st'' \<Longrightarrow> pg_keeps N st st''"
  by (auto simp: pg_keeps_def intro: tlb_le_trans)

lemma pg_keeps_mono: "pg_keeps N st st' \<Longrightarrow> N \<subseteq> M \<Longrightarrow> pg_keeps M st st'"
  by (auto simp: pg_keeps_def)

abbreviation vm_high :: "'d vmsys \<Rightarrow> bool" where
  "vm_high st \<equiv> ts_spl (sy_ts (vm_sy st)) = 15"

lemma pg_keeps_high: "pg_keeps N st st' \<Longrightarrow> vm_high st' = vm_high st"
  by (simp add: pg_keeps_def)

lemma vm_splhigh_high: "vm_high st \<Longrightarrow> vm_splhigh st = (15, st)"
  by (simp add: vm_splhigh_def splhigh_def splx_def)

lemma vm_splx_high: "vm_high st \<Longrightarrow> vm_splx 15 st = st"
  by (simp add: vm_splx_def splx_def)

lemma vmstats_inc_high:
  assumes "vm_high st" "vmstats_inc k st = Some st'"
  shows "k < length (vm_stats st)" "st' = st\<lparr>vm_stats := (vm_stats st)[k := vm_stats st ! k + 1]\<rparr>" "pg_keeps {k} st st'"
  using assms
  by (auto simp: vmstats_inc_def vmstats_bump_def bind_eq_Some_conv cell_eq_Some_iff set_cell_eq_Some_iff pg_keeps_def
      nth_list_update)

lemma vmstats_inc_eq:
  "vm_high st \<Longrightarrow> length (vm_stats st) = VMSTAT_COUNT \<Longrightarrow> k < VMSTAT_COUNT \<Longrightarrow>
   vmstats_inc k st = Some (st\<lparr>vm_stats := (vm_stats st)[k := vm_stats st ! k + 1]\<rparr>)"
  by (simp add: vmstats_inc_def vmstats_bump_def cell_def set_cell_def)

lemma vm_io_keeps:
  assumes "vm_io f v u st = Some (r, u', st')"
  shows "\<exists>mem d. st' = st\<lparr>vm_cm := (vm_cm st)\<lparr>cm_mem := mem\<rparr>, vm_disk := d\<rparr>" "pg_keeps N st st'"
  using assms by (auto simp: vm_io_def bind_eq_Some_conv pg_keeps_def)

lemma swap_slot_cases:
  assumes "swap_slot pfn st = Some (off, st1)"
  obtains i where "find_swapped pfn st = Some (Some i)" "off = word_of_int i * 4096" "st1 = st"
  | "find_swapped pfn st = Some None" "off = vm_count st * 4096" "uint (vm_count st) < int (length (vm_swapmap st))"
    "st1 = st\<lparr>vm_swapmap := (vm_swapmap st)[unat (vm_count st) := Some pfn], vm_count := vm_count st + 1\<rparr>"
proof (cases "find_swapped pfn st")
  case s: (Some found)
  show ?thesis
  proof (cases found)
    case None
    then have "uint (vm_count st) < int (length (vm_swapmap st)) \<and> off = vm_count st * 4096 \<and>
        st1 = st\<lparr>vm_swapmap := (vm_swapmap st)[unat (vm_count st) := Some pfn], vm_count := vm_count st + 1\<rparr>"
      using assms s by (simp add: swap_slot_def kassert_bind set_cell_def split: if_splits)
    then show ?thesis using that(2) s None by blast
  next
    case (Some i)
    then have "off = word_of_int i * 4096 \<and> st1 = st" using assms s by (simp add: swap_slot_def)
    then show ?thesis using that(1) s Some by blast
  qed
qed (use assms in \<open>simp add: swap_slot_def\<close>)

lemma swapout_cases:
  assumes "vm_high st" "swapout io pte st = Some st'"
  obtains e off st1 st2 u where "vm_pte st pte = Some e" "swap_slot (ALIGN (pte_paddr e)) st = Some (off, st1)"
    "vm_io (io_write io) (vm_swapfile st1) (page_uio (ALIGN (pte_paddr e) + MIPS_KSEG0) off UIO_WRITE) st1 = Some (Inr (), u, st2)"
    "st' = st2\<lparr>vm_stats := (vm_stats st2)[VMSTAT_SWAP_FILE_WRITE := vm_stats st2 ! VMSTAT_SWAP_FILE_WRITE + 1],
               vm_pte := (vm_pte st2)(pte \<mapsto> e\<lparr>pte_paddr := SET_SWAPPED (ALIGN (pte_paddr e))\<rparr>)\<rparr>"
proof -
  obtain e off st1 st2 st3 where r: "vm_pte st pte = Some e" "swap_slot (ALIGN (pte_paddr e)) st = Some (off, st1)"
      "write_to_swapfile io (ALIGN (pte_paddr e) + MIPS_KSEG0) off st1 = Some (Inr (), st2)"
      "vmstats_inc VMSTAT_SWAP_FILE_WRITE st2 = Some st3"
      "st' = vm_splx 15 (st3\<lparr>vm_pte := (vm_pte st3)(pte \<mapsto> e\<lparr>pte_paddr := SET_SWAPPED (ALIGN (pte_paddr e))\<rparr>)\<rparr>)"
    using assms by (auto simp: swapout_def vm_splhigh_high bind_eq_Some_conv Let_def)
  obtain u where u: "vm_io (io_write io) (vm_swapfile st1) (page_uio (ALIGN (pte_paddr e) + MIPS_KSEG0) off UIO_WRITE) st1 =
      Some (Inr (), u, st2)"
    using r(3) by (auto simp: write_to_swapfile_def bind_eq_Some_conv)
  have "vm_sy st1 = vm_sy st" using r(2) by (rule swap_slot_cases) simp_all
  then have h2: "vm_high st2" using vm_io_keeps(1) [OF u] assms(1) by auto
  have "st' = st2\<lparr>vm_stats := (vm_stats st2)[VMSTAT_SWAP_FILE_WRITE := vm_stats st2 ! VMSTAT_SWAP_FILE_WRITE + 1],
               vm_pte := (vm_pte st2)(pte \<mapsto> e\<lparr>pte_paddr := SET_SWAPPED (ALIGN (pte_paddr e))\<rparr>)\<rparr>"
    unfolding r(5) vmstats_inc_high(2) [OF h2 r(4)] using h2 by (simp add: vm_splx_def splx_def)
  then show ?thesis using r(1,2) u that by blast
qed

lemma swapin_cases:
  assumes "vm_high st" "swapin io pte st = Some st'"
  obtains e i st1 u where "vm_pte st pte = Some e" "IS_SWAPPED (pte_paddr e)" "find_swapped (ALIGN (pte_paddr e)) st = Some (Some i)"
    "vm_io (io_read io) (vm_swapfile st) (page_uio (ALIGN (pte_paddr e) + MIPS_KSEG0) (word_of_int i * 4096) UIO_READ) st =
       Some (Inr (), u, st1)"
    "st' = st1\<lparr>vm_stats := (vm_stats st1)[VMSTAT_SWAP_FILE_READ := vm_stats st1 ! VMSTAT_SWAP_FILE_READ + 1],
               vm_pte := (vm_pte st1)(pte \<mapsto> e\<lparr>pte_paddr := SET_VALID (ALIGN (pte_paddr e))\<rparr>)\<rparr>"
proof -
  obtain e i st1 st2 where r: "vm_pte st pte = Some e" "IS_SWAPPED (pte_paddr e)" "find_swapped (ALIGN (pte_paddr e)) st = Some (Some i)"
      "read_from_swapfile io (ALIGN (pte_paddr e) + MIPS_KSEG0) (word_of_int i * 4096) st = Some (Inr (), st1)"
      "vmstats_inc VMSTAT_SWAP_FILE_READ st1 = Some st2"
      "st' = vm_splx 15 (st2\<lparr>vm_pte := (vm_pte st2)(pte \<mapsto> e\<lparr>pte_paddr := SET_VALID (ALIGN (pte_paddr e))\<rparr>)\<rparr>)"
    using assms by (auto simp: swapin_def vm_splhigh_high bind_eq_Some_conv Let_def)
  obtain u where u: "vm_io (io_read io) (vm_swapfile st)
      (page_uio (ALIGN (pte_paddr e) + MIPS_KSEG0) (word_of_int i * 4096) UIO_READ) st = Some (Inr (), u, st1)"
    using r(4) by (auto simp: read_from_swapfile_def bind_eq_Some_conv)
  have h1: "vm_high st1" using vm_io_keeps(1) [OF u] assms(1) by auto
  have "st' = st1\<lparr>vm_stats := (vm_stats st1)[VMSTAT_SWAP_FILE_READ := vm_stats st1 ! VMSTAT_SWAP_FILE_READ + 1],
               vm_pte := (vm_pte st1)(pte \<mapsto> e\<lparr>pte_paddr := SET_VALID (ALIGN (pte_paddr e))\<rparr>)\<rparr>"
    unfolding r(6) vmstats_inc_high(2) [OF h1 r(5)] using h1 by (simp add: vm_splx_def splx_def)
  then show ?thesis using r(1-3) u that by blast
qed

lemma pg_keeps_bump:
  assumes "pg_keeps N st st1" "st' = st1\<lparr>vm_stats := (vm_stats st1)[k := x], vm_pte := f\<rparr>"
  shows "pg_keeps (insert k N) st st'"
  using assms by (auto simp: pg_keeps_def nth_list_update)

lemma swapout_keeps:
  assumes "vm_high st" "swapout io pte st = Some st'"
  shows "pg_keeps {VMSTAT_SWAP_FILE_WRITE} st st' \<and> vm_tlb st' = vm_tlb st"
  using assms
proof (rule swapout_cases)
  fix e off st1 st2 u
  assume a: "swap_slot (ALIGN (pte_paddr e)) st = Some (off, st1)"
    "vm_io (io_write io) (vm_swapfile st1) (page_uio (ALIGN (pte_paddr e) + MIPS_KSEG0) off UIO_WRITE) st1 = Some (Inr (), u, st2)"
    "st' = st2\<lparr>vm_stats := (vm_stats st2)[VMSTAT_SWAP_FILE_WRITE := vm_stats st2 ! VMSTAT_SWAP_FILE_WRITE + 1],
               vm_pte := (vm_pte st2)(pte \<mapsto> e\<lparr>pte_paddr := SET_SWAPPED (ALIGN (pte_paddr e))\<rparr>)\<rparr>"
  have "pg_keeps {} st st1 \<and> vm_tlb st1 = vm_tlb st" using a(1) by (rule swap_slot_cases) (simp_all add: pg_keeps_def)
  then show ?thesis
    using pg_keeps_bump [OF pg_keeps_trans [OF _ vm_io_keeps(2) [OF a(2)]] a(3)] vm_io_keeps(1) [OF a(2)] a(3) by auto
qed

lemma swapin_keeps:
  assumes "vm_high st" "swapin io pte st = Some st'"
  shows "pg_keeps {VMSTAT_SWAP_FILE_READ} st st' \<and> (VMSTAT_SWAP_FILE_READ < length (vm_stats st) \<longrightarrow>
       vm_stats st' ! VMSTAT_SWAP_FILE_READ = vm_stats st ! VMSTAT_SWAP_FILE_READ + 1)"
  using assms
proof (rule swapin_cases)
  fix e i st1 u
  assume a: "vm_io (io_read io) (vm_swapfile st) (page_uio (ALIGN (pte_paddr e) + MIPS_KSEG0) (word_of_int i * 4096) UIO_READ) st =
       Some (Inr (), u, st1)"
    "st' = st1\<lparr>vm_stats := (vm_stats st1)[VMSTAT_SWAP_FILE_READ := vm_stats st1 ! VMSTAT_SWAP_FILE_READ + 1],
               vm_pte := (vm_pte st1)(pte \<mapsto> e\<lparr>pte_paddr := SET_VALID (ALIGN (pte_paddr e))\<rparr>)\<rparr>"
  show ?thesis
    using pg_keeps_bump [OF vm_io_keeps(2) [OF a(1)] a(2)] vm_io_keeps(1) [OF a(1)] a(2) by auto
qed

lemma page_replace_keeps:
  assumes "vm_high st" "page_replace io pt st = Some (p, pt', st')"
  shows "pg_keeps {VMSTAT_SWAP_FILE_WRITE} st st'"
proof -
  obtain pte ll st1 e tlb where r: "ll_pop_front (pt_fifo pt) = Some (pte, ll)" "swapout io pte st = Some st1"
      "vm_pte st1 pte = Some e" "st' = st1\<lparr>vm_tlb := tlb\<rparr>"
      "(if TLB_Probe (pte_vaddr e) (vm_tlb st1) \<ge> 0
        then TLB_Write (TLBHI_INVALID (word_of_int (TLB_Probe (pte_vaddr e) (vm_tlb st1)))) 0
               (TLB_Probe (pte_vaddr e) (vm_tlb st1)) (vm_tlb st1)
        else Some (vm_tlb st1)) = Some tlb"
    using assms(2) by (auto simp: page_replace_def bind_eq_Some_conv Let_def)
  have "tlb_le (vm_tlb st1) tlb" using r(5) by (auto intro: tlb_le_write split: if_splits)
  then show ?thesis using swapout_keeps [OF assms(1) r(2)] r(4) by (auto simp: pg_keeps_def)
qed

lemma zero_out_page_cases:
  assumes "zero_out_page p st = Some st'"
  shows "ALIGN p > 0" "\<exists>mem. st' = st\<lparr>vm_cm := (vm_cm st)\<lparr>cm_mem := mem\<rparr>\<rparr>"
  using assms by (auto simp: zero_out_page_def bind_eq_Some_conv Let_def)

lemma force_free_page_keeps:
  assumes "vm_high st" "force_free_page io pt st = Some (pt', st')"
  shows "pg_keeps {VMSTAT_SWAP_FILE_WRITE} st st'"
proof -
  obtain p st1 st2 cm where r: "page_replace io pt st = Some (p, pt', st1)" "zero_out_page p st1 = Some st2"
      "st' = st2\<lparr>vm_cm := cm\<rparr>"
    using assms(2) by (auto simp: force_free_page_def bind_eq_Some_conv)
  show ?thesis
    using page_replace_keeps [OF assms(1) r(1)] zero_out_page_cases(2) [OF r(2)] r(3) by (auto simp: pg_keeps_def)
qed

lemma alloc_entry_keeps:
  assumes "alloc_entry io ok k pt st = Some r" "vm_high st"
  shows "pg_keeps {VMSTAT_SWAP_FILE_WRITE} st (snd r)"
  using assms(2)
proof (induction rule: alloc_entry.raw_induct [OF _ assms(1)])
  case (1 rec io ok k pt st r)
  show ?case
  proof (cases "ok k")
    case True
    then show ?thesis using 1(2) by (auto intro: pg_keepsI)
  next
    case False
    then obtain pt1 st1 where f: "force_free_page io pt st = Some (pt1, st1)" "rec io ok (Suc k) pt1 st1 = Some r"
      using 1(2) by (auto simp: bind_eq_Some_conv)
    note k = force_free_page_keeps [OF 1(3) f(1)]
    have "vm_high st1" using k 1(3) pg_keeps_high by blast
    then show ?thesis using 1(1) [OF f(2)] k by (auto intro: pg_keeps_trans)
  qed
qed

lemma add_entry_keeps:
  assumes "add_entry io ok k pte pt st = Some r" "vm_high st"
  shows "pg_keeps {VMSTAT_SWAP_FILE_WRITE} st (snd r)"
  using assms(2)
proof (induction rule: add_entry.raw_induct [OF _ assms(1)])
  case (1 rec io ok k pte pt st r)
  obtain e a where a: "array_add (ok k) (pt_entries pt) pte = Some (e, a)"
      "(if e = Inr () then Some (pt\<lparr>pt_entries := a\<rparr>, st)
        else force_free_page io (pt\<lparr>pt_entries := a\<rparr>) st \<bind> (\<lambda>(pt2, st2). rec io ok (Suc k) pte pt2 st2)) = Some r"
    using 1(2) by (auto simp: bind_eq_Some_conv Let_def)
  show ?case
  proof (cases "e = Inr ()")
    case True
    then show ?thesis using a(2) by (auto intro: pg_keepsI)
  next
    case False
    then obtain pt1 st1 where f: "force_free_page io (pt\<lparr>pt_entries := a\<rparr>) st = Some (pt1, st1)" "rec io ok (Suc k) pte pt1 st1 = Some r"
      using a(2) by (auto simp: bind_eq_Some_conv)
    note k = force_free_page_keeps [OF 1(3) f(1)]
    have "vm_high st1" using k 1(3) pg_keeps_high by blast
    then show ?thesis using 1(1) [OF f(2)] k by (auto intro: pg_keeps_trans)
  qed
qed

lemma push_entry_keeps:
  assumes "push_entry io ok k pte pt st = Some r" "vm_high st"
  shows "pg_keeps {VMSTAT_SWAP_FILE_WRITE} st (snd r)"
  using assms(2)
proof (induction rule: push_entry.raw_induct [OF _ assms(1)])
  case (1 rec io ok k pte pt st r)
  obtain e ll where a: "ll_push_back (ok k) (pt_fifo pt) pte = Some (e, ll)"
      "(if e = Inr () then Some (pt\<lparr>pt_fifo := ll\<rparr>, st)
        else force_free_page io (pt\<lparr>pt_fifo := ll\<rparr>) st \<bind> (\<lambda>(pt2, st2). rec io ok (Suc k) pte pt2 st2)) = Some r"
    using 1(2) by (auto simp: bind_eq_Some_conv Let_def)
  show ?case
  proof (cases "e = Inr ()")
    case True
    then show ?thesis using a(2) by (auto intro: pg_keepsI)
  next
    case False
    then obtain pt1 st1 where f: "force_free_page io (pt\<lparr>pt_fifo := ll\<rparr>) st = Some (pt1, st1)" "rec io ok (Suc k) pte pt1 st1 = Some r"
      using a(2) by (auto simp: bind_eq_Some_conv)
    note k = force_free_page_keeps [OF 1(3) f(1)]
    have "vm_high st1" using k 1(3) pg_keeps_high by blast
    then show ?thesis using 1(1) [OF f(2)] k by (auto intro: pg_keeps_trans)
  qed
qed

text \<open>Loading from the program file counts one read of the file and one fault served from disk.\<close>

lemma page_read_frame:
  assumes "page_read io v off va ms fs st = Some (r, st')"
  shows "\<exists>mem d. st' = st\<lparr>vm_cm := (vm_cm st)\<lparr>cm_mem := mem\<rparr>, vm_disk := d\<rparr>"
proof -
  define fsz where "fsz = (if fs > ms then ms else fs)"
  define ku where "ku = (mk_kuio (kv_pos va) ms (sint off) UIO_READ blank_uio)\<lparr>uio_resid := fsz\<rparr>"
  note d = assms [unfolded page_read_def Let_def, folded fsz_def, folded ku_def]
  obtain r1 ku1 st1 where i: "vm_io (io_read io) v ku st = Some (r1, ku1, st1)"
    using d by (auto simp: bind_eq_Some_conv)
  have st': "\<exists>mem. st' = st1\<lparr>vm_cm := (vm_cm st1)\<lparr>cm_mem := mem\<rparr>\<rparr>"
  proof (cases r1)
    case (Inl e)
    then have "st' = st1" using d i by simp
    then show ?thesis by (intro exI [of _ "cm_mem (vm_cm st1)"]) simp
  next
    case (Inr x)
    have "(if uio_resid ku1 \<noteq> 0 then Some (Inl ENOEXEC, st1)
          else if ms - fsz > 0 then do {
            (r2, ku2, x) \<leftarrow> uiomovezeros None (ms - fsz) (ku1\<lparr>uio_resid := uio_resid ku1 + (ms - fsz)\<rparr>)
              \<lparr>x_buf = [], x_kobj = cm_mem (vm_cm st1), x_user = no_user\<rparr>;
            Some (r2, st1\<lparr>vm_cm := (vm_cm st1)\<lparr>cm_mem := x_kobj x\<rparr>\<rparr>) }
          else Some (Inr (), st1)) = Some (r, st')"
      using d i Inr by simp
    then have "st' = st1 \<or> (\<exists>mem. st' = st1\<lparr>vm_cm := (vm_cm st1)\<lparr>cm_mem := mem\<rparr>\<rparr>)"
      by (auto simp: bind_eq_Some_conv split: if_splits)
    then show ?thesis
    proof
      assume "st' = st1"
      then show ?thesis by (intro exI [of _ "cm_mem (vm_cm st1)"]) simp
    qed
  qed
  moreover obtain mem d where "st1 = st\<lparr>vm_cm := (vm_cm st)\<lparr>cm_mem := mem\<rparr>, vm_disk := d\<rparr>"
    using vm_io_keeps(1) [OF i] by blast
  moreover obtain mem2 where "st' = st1\<lparr>vm_cm := (vm_cm st1)\<lparr>cm_mem := mem2\<rparr>\<rparr>" using st' by blast
  ultimately have "st' = st\<lparr>vm_cm := (vm_cm st)\<lparr>cm_mem := mem2\<rparr>, vm_disk := d\<rparr>" by simp
  then show ?thesis by blast
qed

lemma page_read_keeps:
  assumes "page_read io v off va ms fs st = Some (r, st')"
  shows "pg_keeps {} st st' \<and> vm_stats st' = vm_stats st"
  using page_read_frame [OF assms] by (auto simp: pg_keeps_def)

lemma loadpage_keeps:
  assumes "vm_high st" "loadpage io as va pa st = Some (r, st')" "length (vm_stats st) = VMSTAT_COUNT"
  shows "pg_keeps {VMSTAT_PAGE_FAULT_DISK, VMSTAT_ELF_FILE_READ} st st' \<and>
     vm_stats st' ! VMSTAT_PAGE_FAULT_DISK = vm_stats st ! VMSTAT_PAGE_FAULT_DISK + 1 \<and>
     vm_stats st' ! VMSTAT_ELF_FILE_READ = vm_stats st ! VMSTAT_ELF_FILE_READ + 1"
proof -
  obtain st1 st2 off and fsz :: "32 word" where r: "vmstats_inc VMSTAT_ELF_FILE_READ st = Some st1" "vmstats_inc VMSTAT_PAGE_FAULT_DISK st1 = Some st2"
      "page_read io (as_vnode as) off (ALIGN pa + MIPS_KSEG0) 4096 (unat fsz) st2 = Some (r, st')"
    using assms(2) by (auto simp: loadpage_def bind_eq_Some_conv Let_def)
  note 1 = vmstats_inc_high [OF assms(1) r(1)]
  have h1: "vm_high st1" using 1(2) assms(1) by simp
  note 2 = vmstats_inc_high [OF h1 r(2)]
  show ?thesis
    using page_read_keeps [OF r(3)] 1(2) 2(2) assms(3) by (auto simp: pg_keeps_def nth_list_update vmstat_defs)
qed

text \<open>The counters of a fault: \<open>disk = elf + swap\<close> is kept, and the fault is counted in one of the three ways or not at all.\<close>

abbreviation stat :: "'d vmsys \<Rightarrow> nat \<Rightarrow> 32 word" where
  "stat st k \<equiv> vm_stats st ! k"

lemma pt_pagefault_handler_keeps:
  assumes "vm_high st" "pt_pagefault_handler io as pt va st = Some (r, pt', st')" "length (vm_stats st) = VMSTAT_COUNT"
  shows "pg_keeps {VMSTAT_PAGE_FAULT_DISK, VMSTAT_ELF_FILE_READ, VMSTAT_SWAP_FILE_WRITE} st st' \<and>
     stat st' VMSTAT_PAGE_FAULT_DISK - stat st' VMSTAT_ELF_FILE_READ = stat st VMSTAT_PAGE_FAULT_DISK - stat st VMSTAT_ELF_FILE_READ"
proof -
  obtain pa cm where g: "getppages 1 (vm_cm st) = Some (pa, cm)"
    using assms(2) by (auto simp: pt_pagefault_handler_def bind_eq_Some_conv)
  let ?st = "st\<lparr>vm_cm := cm\<rparr>"
  show ?thesis
  proof (cases "ALIGN pa = 0")
    case True
    then obtain p st2 where s: "page_replace io pt ?st = Some (p, pt', st2)" "zero_out_page p st2 = Some st'"
      using assms(2) g by (auto simp: pt_pagefault_handler_def bind_eq_Some_conv Let_def)
    have "pg_keeps {VMSTAT_SWAP_FILE_WRITE} ?st st2" using page_replace_keeps [OF _ s(1)] assms(1) by simp
    then show ?thesis using zero_out_page_cases(2) [OF s(2)] assms(3) by (auto simp: pg_keeps_def vmstat_defs)
  next
    case False
    then obtain r2 where "loadpage io as va (ALIGN pa) ?st = Some (r2, st')"
      using assms(2) g by (auto simp: pt_pagefault_handler_def bind_eq_Some_conv Let_def)
    from loadpage_keeps [OF _ this] assms(1,3) have
      l: "pg_keeps {VMSTAT_PAGE_FAULT_DISK, VMSTAT_ELF_FILE_READ} ?st st'"
        "stat st' VMSTAT_PAGE_FAULT_DISK = stat st VMSTAT_PAGE_FAULT_DISK + 1"
        "stat st' VMSTAT_ELF_FILE_READ = stat st VMSTAT_ELF_FILE_READ + 1" by simp_all
    then show ?thesis by (auto simp: pg_keeps_def)
  qed
qed

text \<open>\<open>disk_gap\<close> is zero when every fault served from disk was a read of the program or of the swap file.\<close>

abbreviation disk_gap :: "'d vmsys \<Rightarrow> 32 word" where
  "disk_gap st \<equiv> stat st VMSTAT_PAGE_FAULT_DISK - stat st VMSTAT_ELF_FILE_READ - stat st VMSTAT_SWAP_FILE_READ"

abbreviation page_counters :: "nat set" where
  "page_counters \<equiv> {VMSTAT_TLB_RELOAD, VMSTAT_PAGE_FAULT_DISK, VMSTAT_ELF_FILE_READ, VMSTAT_SWAP_FILE_READ, VMSTAT_SWAP_FILE_WRITE}"

definition paged :: "'d vmsys \<Rightarrow> 'd vmsys \<Rightarrow> bool" where
  "paged st st' \<longleftrightarrow> pg_keeps page_counters st st' \<and> disk_gap st' = disk_gap st"

lemma paged_trans: "paged st st' \<Longrightarrow> paged st' st'' \<Longrightarrow> paged st st''"
  by (auto simp: paged_def intro: pg_keeps_trans)

lemma paged_high: "paged st st' \<Longrightarrow> vm_high st' = vm_high st"
  by (simp add: paged_def pg_keeps_def)

lemma paged_length: "paged st st' \<Longrightarrow> length (vm_stats st') = length (vm_stats st)"
  by (simp add: paged_def pg_keeps_def)

lemma paged_swap_write:
  "pg_keeps {VMSTAT_SWAP_FILE_WRITE} st st' \<Longrightarrow> length (vm_stats st) = VMSTAT_COUNT \<Longrightarrow> paged st st'"
  by (auto simp: paged_def pg_keeps_def vmstat_defs)

lemma paged_pte: "paged st st' \<Longrightarrow> paged st (st'\<lparr>vm_pte := f\<rparr>)" "paged (st\<lparr>vm_pbrk := b, vm_pte := f\<rparr>) st' \<Longrightarrow> paged st st'"
  by (simp_all add: paged_def pg_keeps_def)

lemma paged_then:
  assumes "paged st st1" "vm_high st" "length (vm_stats st) = VMSTAT_COUNT"
    and "vm_high st1 \<Longrightarrow> pg_keeps {VMSTAT_SWAP_FILE_WRITE} st1 st2"
  shows "paged st st2"
proof -
  have "vm_high st1" "length (vm_stats st1) = VMSTAT_COUNT"
    using assms(2,3) paged_high [OF assms(1)] paged_length [OF assms(1)] by simp_all
  then show ?thesis using assms(1,4) by (blast intro: paged_trans paged_swap_write)
qed

lemma pt_hit_paged:
  assumes "vm_high st" "length (vm_stats st) = VMSTAT_COUNT" "pt_hit io al pte pt st = Some (pt', st')"
  shows "paged st st'"
proof -
  obtain e where e: "vm_pte st pte = Some e" using assms(3) by (auto simp: pt_hit_def bind_eq_Some_conv)
  show ?thesis
  proof (cases "IS_VALID (pte_paddr e)")
    case True
    then have "vmstats_inc VMSTAT_TLB_RELOAD st = Some st'" using assms(3) e by (auto simp: pt_hit_def bind_eq_Some_conv)
    note i = vmstats_inc_high [OF assms(1) this]
    show ?thesis using i(3) assms(2) unfolding i(2) by (auto simp: paged_def pg_keeps_def vmstat_defs)
  next
    case False
    then obtain st1 st2 where r: "swapin io pte st = Some st1" "vmstats_inc VMSTAT_PAGE_FAULT_DISK st1 = Some st2"
        "push_entry io (al_push al) 0 pte pt st2 = Some (pt', st')"
      using assms(3) e by (auto simp: pt_hit_def bind_eq_Some_conv)
    note 1 = swapin_keeps [OF assms(1) r(1)]
    have h1: "vm_high st1" using 1 assms(1) by (auto dest: pg_keeps_high)
    note 2 = vmstats_inc_high [OF h1 r(2)]
    have p: "paged st st2"
      using 1 assms(2) 2(2) by (auto simp: paged_def pg_keeps_def nth_list_update vmstat_defs)
    show ?thesis using push_entry_keeps [OF r(3)] by (intro paged_then [OF p assms(1,2)]) simp
  qed
qed

lemma case_Inr_eq_Some: "(case r of Inl e \<Rightarrow> None | Inr p \<Rightarrow> Some p) = Some x \<longleftrightarrow> r = Inr x"
  by (cases r) simp_all

lemma pt_miss_paged:
  assumes "vm_high st" "length (vm_stats st) = VMSTAT_COUNT" "pt_miss io al as pt va st = Some (pte, pt', st')"
  shows "paged st st'"
proof -
  obtain pt1 st1 st2 p pt3 st3 pt5 st5 where r: "alloc_entry io (al_pte al) 0 pt st = Some (pt1, st1)"
      "st2 = st1\<lparr>vm_pbrk := Suc pte, vm_pte := (vm_pte st1)(pte \<mapsto> \<lparr>pte_vaddr = va, pte_paddr = 0\<rparr>)\<rparr>"
      "pt_pagefault_handler io as pt1 va st2 = Some (Inr p, pt3, st3)"
      "add_entry io (al_add al) 0 pte pt3 (st3\<lparr>vm_pte := (vm_pte st3)(pte \<mapsto> \<lparr>pte_vaddr = va, pte_paddr = p\<rparr>)\<rparr>) = Some (pt5, st5)"
      "push_entry io (al_push al) 0 pte pt5 st5 = Some (pt', st')"
    using assms(3) by (auto simp: pt_miss_def bind_eq_Some_conv Let_def case_Inr_eq_Some)
  have 1: "paged st st1" using alloc_entry_keeps [OF r(1) assms(1)] assms(2) by (simp add: paged_swap_write)
  have h2: "vm_high st2" "length (vm_stats st2) = VMSTAT_COUNT"
    using 1 assms(1,2) by (simp_all add: r(2) paged_high paged_length)
  have "paged st2 st3"
    using pt_pagefault_handler_keeps [OF h2(1) r(3) h2(2)] h2(2) by (auto simp: paged_def pg_keeps_def vmstat_defs)
  then have 3: "paged st (st3\<lparr>vm_pte := (vm_pte st3)(pte \<mapsto> \<lparr>pte_vaddr = va, pte_paddr = p\<rparr>)\<rparr>)"
    using 1 unfolding r(2) by (blast intro: paged_pte paged_trans)
  have "paged st st5" using add_entry_keeps [OF r(4)] by (intro paged_then [OF 3 assms(1,2)]) simp
  from paged_then [OF this assms(1,2)] show ?thesis using push_entry_keeps [OF r(5)] by simp
qed

lemma pt_lookup_paged:
  assumes "vm_high st" "length (vm_stats st) = VMSTAT_COUNT" "pt_lookup io al as pt va st = Some (p, pt', st')"
  shows "paged st st'"
proof -
  obtain found pte st1 where r: "(case found of
        Some i \<Rightarrow> do { pte \<leftarrow> array_getguy (pt_entries pt) i; (pt1, st1) \<leftarrow> pt_hit io al pte pt st; Some (pte, pt1, st1) }
      | None \<Rightarrow> pt_miss io al as pt (ALIGN va) st) = Some (pte, pt', st1)" "set_valid_entry pte st1 = Some (p, st')"
    using assms(3) by (auto simp: pt_lookup_def bind_eq_Some_conv Let_def)
  have "paged st st1"
    using r(1) pt_miss_paged [OF assms(1,2)] pt_hit_paged [OF assms(1,2)]
    by (cases found) (auto simp: bind_eq_Some_conv)
  moreover obtain f where "st' = st1\<lparr>vm_pte := f\<rparr>" using r(2) by (auto simp: set_valid_entry_def bind_eq_Some_conv)
  ultimately show ?thesis by (simp add: paged_pte)
qed

section \<open>The entry a fault installs\<close>

abbreviation tlb_gap :: "'d vmsys \<Rightarrow> 32 word" where
  "tlb_gap st \<equiv> stat st VMSTAT_TLB_FAULT - stat st VMSTAT_TLB_FAULT_FREE - stat st VMSTAT_TLB_FAULT_REPLACE"

lemma tlb_replace_cases:
  assumes "vm_high st" "tlb_replace as fa pa st = Some st'"
  obtains i lo where "i < length (vm_tlb st)" "tlb_entry_lo as fa pa = Some lo" "vm_tlb st' = (vm_tlb st)[i := (fa, lo)]"
    "vm_sy st' = vm_sy st"
    "vm_stats st' = (vm_stats st)[VMSTAT_TLB_FAULT_REPLACE := stat st VMSTAT_TLB_FAULT_REPLACE + 1]"
    "VMSTAT_TLB_FAULT_REPLACE < length (vm_stats st)"
proof -
  obtain st1 lo tlb where r: "vmstats_inc VMSTAT_TLB_FAULT_REPLACE st = Some st1" "tlb_entry_lo as fa pa = Some lo"
      "TLB_Write fa lo (uint (vm_next_victim st1)) (vm_tlb st1) = Some tlb"
      "st' = st1\<lparr>vm_next_victim := (vm_next_victim st1 + 1) mod 64, vm_tlb := tlb\<rparr>"
    using assms(2) by (auto simp: tlb_replace_def tlb_get_rr_victim_def bind_eq_Some_conv)
  note i = vmstats_inc_high [OF assms(1) r(1)]
  show ?thesis
    by (rule that [of "unat (vm_next_victim st)" lo])
      (use r i(1,2) in \<open>auto simp: TLB_Write_def set_cell_eq_Some_iff nat_uint_eq nat_less_iff [symmetric]\<close>)
qed

lemma tlb_install_cases:
  assumes "vm_high st" "tlb_install as fa pa st = Some st'"
  obtains i lo k where "i < length (vm_tlb st)" "tlb_entry_lo as fa pa = Some lo" "vm_tlb st' = (vm_tlb st)[i := (fa, lo)]"
    "vm_sy st' = vm_sy st" "k \<in> {VMSTAT_TLB_FAULT_FREE, VMSTAT_TLB_FAULT_REPLACE}" "k < length (vm_stats st)"
    "vm_stats st' = (vm_stats st)[k := stat st k + 1, VMSTAT_TLB_FAULT := stat st VMSTAT_TLB_FAULT + 1]"
proof -
  obtain slot where s: "scan (\<lambda>i. TLB_Read i (vm_tlb st)) (\<lambda>(ehi, elo). elo AND TLBLO_VALID = 0) NUM_TLB 0 = Some slot"
    using assms(2) by (auto simp: tlb_install_def bind_eq_Some_conv)
  show ?thesis
  proof (cases slot)
    case (Some i)
    then obtain lo st2 st3 tlb where r: "tlb_entry_lo as fa pa = Some lo" "vmstats_inc VMSTAT_TLB_FAULT_FREE st = Some st2"
        "vmstats_inc VMSTAT_TLB_FAULT st2 = Some st3" "TLB_Write fa lo i (vm_tlb st3) = Some tlb" "st' = st3\<lparr>vm_tlb := tlb\<rparr>"
      using assms(2) s by (auto simp: tlb_install_def bind_eq_Some_conv)
    note 1 = vmstats_inc_high [OF assms(1) r(2)]
    have h: "vm_high st2" using 1(2) assms(1) by simp
    note 2 = vmstats_inc_high [OF h r(3)]
    have t: "vm_tlb st3 = vm_tlb st" "vm_sy st3 = vm_sy st" using 1(2) 2(2) by simp_all
    show ?thesis
      by (rule that [of "nat i" lo VMSTAT_TLB_FAULT_FREE])
        (use r(1,4,5) t 1(1,2) 2(2) in \<open>auto simp: TLB_Write_def set_cell_eq_Some_iff vmstat_defs\<close>)
  next
    case None
    then obtain st2 where r: "vmstats_inc VMSTAT_TLB_FAULT st = Some st2" "tlb_replace as fa pa st2 = Some st'"
      using assms(2) s by (auto simp: tlb_install_def bind_eq_Some_conv)
    note 1 = vmstats_inc_high [OF assms(1) r(1)]
    have h: "vm_high st2" using 1(2) assms(1) by simp
    show ?thesis
      using h r(2)
    proof (rule tlb_replace_cases)
      fix i lo
      assume "i < length (vm_tlb st2)" "tlb_entry_lo as fa pa = Some lo" "vm_tlb st' = (vm_tlb st2)[i := (fa, lo)]"
        "vm_sy st' = vm_sy st2"
        "vm_stats st' = (vm_stats st2)[VMSTAT_TLB_FAULT_REPLACE := stat st2 VMSTAT_TLB_FAULT_REPLACE + 1]"
        "VMSTAT_TLB_FAULT_REPLACE < length (vm_stats st2)"
      then show ?thesis
        by (intro that [of i lo VMSTAT_TLB_FAULT_REPLACE])
          (use 1(2) in \<open>auto simp: vmstat_defs list_update_swap\<close>)
    qed
  qed
qed

lemma fault_frame_paged:
  assumes "vm_high st" "length (vm_stats st) = VMSTAT_COUNT" "fault_frame io al as seg fa pt st = Some (p, pt', st')"
  shows "pg_keeps (insert VMSTAT_PAGE_FAULT_ZERO page_counters) st st' \<and> disk_gap st' = disk_gap st"
proof (cases "seg = SEG_STCK")
  case True
  then have "vmstats_inc VMSTAT_PAGE_FAULT_ZERO st = Some st'"
    using assms(3) by (auto simp: fault_frame_def bind_eq_Some_conv Let_def)
  note i = vmstats_inc_high [OF assms(1) this]
  show ?thesis using i(3) assms(2) unfolding i(2) by (auto simp: pg_keeps_def vmstat_defs)
next
  case False
  then have "paged st st'" using pt_lookup_paged [OF assms(1,2)] assms(3) by (simp add: fault_frame_def)
  then show ?thesis by (auto simp: paged_def intro: pg_keeps_mono)
qed

lemma vm_splhigh_fst_snd: "vm_splhigh st = (ts_spl (sy_ts (vm_sy st)), snd (vm_splhigh st))"
  "vm_high (snd (vm_splhigh st))" "vm_stats (snd (vm_splhigh st)) = vm_stats st" "vm_tlb (snd (vm_splhigh st)) = vm_tlb st"
  by (simp_all add: vm_splhigh_def splhigh_def splx_def)

lemma vm_fault_cases:
  assumes "vm_fault io al space ft fa0 pt st = Some (res, pt', st')" "length (vm_stats st) = VMSTAT_COUNT"
  defines "fa \<equiv> fa0 AND PAGE_FRAME"
  obtains "res \<noteq> Fault_ret (Inr ())" "vm_stats st' = vm_stats st" "vm_tlb st' = vm_tlb st"
  | as pa st1 st2 where "res = Fault_ret (Inr ())" "space = Some as" "pa \<noteq> 0" "pa AND PAGE_FRAME = pa" "vm_high st1"
      "pg_keeps (insert VMSTAT_PAGE_FAULT_ZERO page_counters) (snd (vm_splhigh st)) st1" "disk_gap st1 = disk_gap st"
      "tlb_install as fa pa st1 = Some st2" "st' = vm_splx (ts_spl (sy_ts (vm_sy st))) st2"
proof -
  let ?st = "snd (vm_splhigh st)"
  note sp = vm_splhigh_fst_snd [of st]
  show ?thesis
  proof (cases "res = Fault_ret (Inr ())")
    case True
    then obtain as seg pa st1 st2 where r: "space = Some as" "fault_frame io al as seg fa pt ?st = Some (pa, pt', st1)"
        "pa AND PAGE_FRAME > 0" "pa AND PAGE_FRAME = pa" "tlb_install as fa pa st1 = Some st2"
        "st' = vm_splx (ts_spl (sy_ts (vm_sy st))) st2"
      using assms(1) by (subst (asm) vm_fault_def, subst (asm) sp(1))
        (auto simp: fa_def Let_def bind_eq_Some_conv split: if_splits option.splits)
    have k: "pg_keeps (insert VMSTAT_PAGE_FAULT_ZERO page_counters) ?st st1 \<and> disk_gap st1 = disk_gap ?st"
      using fault_frame_paged [OF sp(2) _ r(2)] assms(2) sp(3) by simp
    show ?thesis
      by (rule that(2) [OF True r(1) _ r(4) _ _ _ r(5,6)]) (use r(3) k sp(2,3) in \<open>auto simp: pg_keeps_def\<close>)
  next
    case False
    then have "st' = ?st \<or> st' = vm_splx (ts_spl (sy_ts (vm_sy st))) ?st"
      using assms(1) by (subst (asm) vm_fault_def, subst (asm) sp(1))
        (auto simp: Let_def bind_eq_Some_conv split: if_splits option.splits)
    then show ?thesis using that(1) [OF False] sp(3,4) by (auto simp: vm_splx_def)
  qed
qed

text \<open>The valid entries of the translation buffer are for different pages.\<close>

definition tlb_distinct :: "tlb \<Rightarrow> bool" where
  "tlb_distinct t \<longleftrightarrow> (\<forall>i < length t. \<forall>j < length t. snd (t ! i) AND TLBLO_VALID \<noteq> 0 \<longrightarrow> snd (t ! j) AND TLBLO_VALID \<noteq> 0 \<longrightarrow>
     fst (t ! i) = fst (t ! j) \<longrightarrow> i = j)"

definition tlb_misses :: "32 word \<Rightarrow> tlb \<Rightarrow> bool" where
  "tlb_misses page t \<longleftrightarrow> (\<forall>i < length t. fst (t ! i) = page \<longrightarrow> snd (t ! i) AND TLBLO_VALID = 0)"

lemma tlb_le_distinct: "tlb_le t t' \<Longrightarrow> tlb_distinct t \<Longrightarrow> tlb_distinct t'"
  unfolding tlb_le_def tlb_distinct_def by (metis and_zero_eq and.commute)

lemma tlb_le_misses: "tlb_le t t' \<Longrightarrow> tlb_misses page t \<Longrightarrow> tlb_misses page t'"
  unfolding tlb_le_def tlb_misses_def by (metis and_zero_eq and.commute)

lemma tlb_distinct_update:
  assumes "tlb_distinct t" "tlb_misses page t" "i < length t"
  shows "tlb_distinct (t[i := (page, lo)])"
  using assms unfolding tlb_distinct_def tlb_misses_def
  by (auto simp: nth_list_update)

lemma tlb_entry_lo_bits:
  assumes "tlb_entry_lo as fa pa = Some lo" "pa AND PAGE_FRAME = pa"
  shows "lo AND TLBLO_VALID \<noteq> 0" "lo AND PAGE_FRAME = pa" "as_writeable as fa = Some (lo AND TLBLO_DIRTY \<noteq> 0)"
proof -
  obtain w where w: "as_writeable as fa = Some w" "lo = (if w then (pa OR TLBLO_VALID) OR TLBLO_DIRTY else pa OR TLBLO_VALID)"
    using assms(1) by (auto simp: tlb_entry_lo_def bind_eq_Some_conv)
  have z: "PAGE_FRAME AND TLBLO_VALID = 0" "PAGE_FRAME AND TLBLO_DIRTY = 0" "TLBLO_VALID AND TLBLO_VALID \<noteq> 0"
    "TLBLO_DIRTY AND TLBLO_VALID = 0" "TLBLO_DIRTY \<noteq> 0" "TLBLO_VALID AND PAGE_FRAME = 0" "TLBLO_DIRTY AND PAGE_FRAME = 0"
    "TLBLO_VALID AND TLBLO_DIRTY = 0"
    by (simp_all add: PAGE_FRAME_def TLBLO_VALID_def TLBLO_DIRTY_def)
  have p: "pa AND TLBLO_VALID = 0" "pa AND TLBLO_DIRTY = 0"
    by (subst assms(2) [symmetric], simp add: and.assoc z)+
  show "lo AND TLBLO_VALID \<noteq> 0" "lo AND PAGE_FRAME = pa" "as_writeable as fa = Some (lo AND TLBLO_DIRTY \<noteq> 0)"
    using w z p assms(2) by (auto simp: bit.conj_disj_distrib2)
qed

text \<open>
  Claim C1: what a page fault does to the translation buffer. When \<^verbatim>\<open>vm_fault\<close> succeeds, one entry maps the
  faulting page to a page frame other than 0; it is valid, and it allows writing exactly if the segment does. Every
  other entry is as before or invalid, so that no page gets two valid entries, and the interrupt level is as before.
\<close>

theorem vm_fault_installs:
  assumes "vm_fault io al space ft fa pt st = Some (Fault_ret (Inr ()), pt', st')"
    and "length (vm_stats st) = VMSTAT_COUNT" "tlb_misses (fa AND PAGE_FRAME) (vm_tlb st)" "tlb_distinct (vm_tlb st)"
  shows "\<exists>as i lo. space = Some as \<and> i < length (vm_tlb st) \<and> vm_tlb st' ! i = (fa AND PAGE_FRAME, lo) \<and>
     lo AND TLBLO_VALID \<noteq> 0 \<and> lo AND PAGE_FRAME \<noteq> 0 \<and>
     as_writeable as (fa AND PAGE_FRAME) = Some (lo AND TLBLO_DIRTY \<noteq> 0) \<and>
     (\<forall>j < length (vm_tlb st). j \<noteq> i \<longrightarrow> vm_tlb st' ! j = vm_tlb st ! j \<or> snd (vm_tlb st' ! j) = 0) \<and>
     tlb_distinct (vm_tlb st') \<and> ts_spl (sy_ts (vm_sy st')) = ts_spl (sy_ts (vm_sy st))"
  using assms(1,2)
proof (rule vm_fault_cases)
  fix as pa st1 st2
  assume a: "space = Some as" "pa \<noteq> 0" "pa AND PAGE_FRAME = pa" "vm_high st1"
      "pg_keeps (insert VMSTAT_PAGE_FAULT_ZERO page_counters) (snd (vm_splhigh st)) st1"
      "tlb_install as (fa AND PAGE_FRAME) pa st1 = Some st2" "st' = vm_splx (ts_spl (sy_ts (vm_sy st))) st2"
  have le: "tlb_le (vm_tlb st) (vm_tlb st1)" using a(5) vm_splhigh_fst_snd(4) [of st] by (simp add: pg_keeps_def)
  then have len: "length (vm_tlb st1) = length (vm_tlb st)" by (simp add: tlb_le_def)
  obtain i lo where i: "i < length (vm_tlb st1)" "tlb_entry_lo as (fa AND PAGE_FRAME) pa = Some lo"
      "vm_tlb st2 = (vm_tlb st1)[i := (fa AND PAGE_FRAME, lo)]"
    using tlb_install_cases [OF a(4,6)] by metis
  note b = tlb_entry_lo_bits [OF i(2) a(3)]
  have t: "vm_tlb st' = (vm_tlb st1)[i := (fa AND PAGE_FRAME, lo)]" "ts_spl (sy_ts (vm_sy st')) = ts_spl (sy_ts (vm_sy st))"
    using a(7) i(3) by (simp_all add: vm_splx_def splx_def)
  have d: "tlb_distinct (vm_tlb st')"
    unfolding t(1) using le assms(3,4) i(1) by (blast intro: tlb_distinct_update tlb_le_distinct tlb_le_misses)
  have o: "\<forall>j < length (vm_tlb st). j \<noteq> i \<longrightarrow> vm_tlb st' ! j = vm_tlb st ! j \<or> snd (vm_tlb st' ! j) = 0"
    using le by (simp add: t(1) tlb_le_def)
  show ?thesis
    by (rule exI [of _ as], rule exI [of _ i], rule exI [of _ lo]) (use a(1,2) i(1) len b t d o in simp)
qed simp

definition wit_as :: addrspace where
  "wit_as = \<lparr>as_vnode = Some 0, as_vbase1 = 0x400000, as_npages1 = 1, as_filesz1 = 100, as_offset1 = 0, as_flags1 = 5,
     as_vbase2 = 0x10000000, as_npages2 = 1, as_filesz2 = 0, as_offset2 = 4096, as_flags2 = 3, as_stackpbase = 4096\<rparr>"

lemma wit_stack_fault:
  "vm_fault io al (Some wit_as) VM_FAULT_READ 0x7fff5010 pt (wit_vm d) = Some (Fault_ret (Inr ()), pt,
     (wit_vm d)\<lparr>vm_stats := [1, 1, 0, 0, 0, 1, 0, 0, 0, 0], vm_tlb := (vm_tlb (wit_vm d))[0 := (0x7fff5000, 0x2600)]\<rparr>)"
proof -
  have n: "NUM_TLB = Suc 63" by (simp add: NUM_TLB_def)
  have c: "as_contains wit_as 0x7fff5000 = Some SEG_STCK"
    by (simp add: as_contains_def wit_as_def Let_def USERSTACK_def USERTOP_def VM_STACKPAGES_def)
  have f: "fault_frame io al wit_as SEG_STCK 0x7fff5000 pt st = map_option (\<lambda>st1. (0x2000, pt, st1)) (vmstats_inc VMSTAT_PAGE_FAULT_ZERO st)"
    for st :: "'a vmsys"
    by (simp add: fault_frame_def wit_as_def Let_def USERSTACK_def USERTOP_def VM_STACKPAGES_def map_option_case split: option.splits)
  have w: "tlb_entry_lo wit_as 0x7fff5000 0x2000 = Some 0x2600"
    by (simp add: tlb_entry_lo_def as_writeable_def c SEG_WR_def TLBLO_VALID_def TLBLO_DIRTY_def seg_defs)
  have r: "vm_high st \<Longrightarrow> vm_stats st = replicate VMSTAT_COUNT 0 \<Longrightarrow> vm_tlb st = replicate NUM_TLB (0, 0) \<Longrightarrow>
      (fault_frame io al wit_as SEG_STCK 0x7fff5000 pt st \<bind> (\<lambda>(paddr, pt1, st1). tlb_install wit_as 0x7fff5000 paddr st1)) =
      Some (st\<lparr>vm_stats := [1, 1, 0, 0, 0, 1, 0, 0, 0, 0], vm_tlb := (vm_tlb st)[0 := (0x7fff5000, 0x2600)]\<rparr>)" for st :: "'a vmsys"
    by (simp add: f vmstats_inc_eq tlb_install_def n TLB_Read_def TLB_Write_def cell_def set_cell_def w vmstat_defs numeral_nat)
  define s0 where "s0 = snd (vm_splhigh (wit_vm d))"
  note sp = vm_splhigh_fst_snd [of "wit_vm d", folded s0_def]
  have s0: "vm_high s0" "vm_stats s0 = replicate VMSTAT_COUNT 0" "vm_tlb s0 = replicate NUM_TLB (0, 0)"
    using sp(2-4) by (simp_all add: wit_vm_def)
  have g: "0x7fff5010 AND PAGE_FRAME = 0x7fff5000" "0x400000 AND PAGE_FRAME = 0x400000" "0x10000000 AND PAGE_FRAME = 0x10000000"
    "0x1000 AND PAGE_FRAME = 0x1000" "0x2000 AND PAGE_FRAME = 0x2000" by (simp_all add: PAGE_FRAME_def)
  have flds: "as_vbase1 wit_as = 0x400000" "as_npages1 wit_as = 1" "as_vbase2 wit_as = 0x10000000" "as_npages2 wit_as = 1"
    "as_stackpbase wit_as = 0x1000" by (simp_all add: wit_as_def)
  have bk: "vm_splx (ts_spl (sy_ts (vm_sy (wit_vm d)))) (s0\<lparr>vm_stats := x, vm_tlb := t\<rparr>) = (wit_vm d)\<lparr>vm_stats := x, vm_tlb := t\<rparr>"
    for x t by (simp add: s0_def vm_splx_def vm_splhigh_def splhigh_def splx_def)
  obtain st1 where st1: "vmstats_inc VMSTAT_PAGE_FAULT_ZERO s0 = Some st1" "tlb_install wit_as 0x7fff5000 0x2000 st1 =
      Some (s0\<lparr>vm_stats := [1, 1, 0, 0, 0, 1, 0, 0, 0, 0], vm_tlb := (vm_tlb s0)[0 := (0x7fff5000, 0x2600)]\<rparr>)"
    using r [OF s0] by (auto simp: f bind_eq_Some_conv)
  have nz: "SEG_STCK \<noteq> 0" by (simp add: seg_defs)
  show ?thesis
    unfolding vm_fault_def sp(1) prod.case Let_def g(1)
    by (simp add: c f g flds bk st1 nz VM_FAULT_READ_def VM_FAULT_READONLY_def sp(4))
qed

text \<open>Any number of faults and address space switches, of any processes.\<close>

inductive vm_run :: "'d vnode_io \<Rightarrow> 'd vmsys \<Rightarrow> 'd vmsys \<Rightarrow> bool" for io where
  run_start: "vm_run io st st"
| run_fault: "vm_run io st st1 \<Longrightarrow> vm_fault io al space ft fa pt st1 = Some (res, pt', st2) \<Longrightarrow> vm_run io st st2"
| run_activate: "vm_run io st st1 \<Longrightarrow> as_activate st1 = Some st2 \<Longrightarrow> vm_run io st st2"

definition stats_ok :: "'d vmsys \<Rightarrow> bool" where
  "stats_ok st \<longleftrightarrow> length (vm_stats st) = VMSTAT_COUNT \<and> tlb_gap st = 0 \<and> disk_gap st = 0"

lemma vm_fault_stats:
  assumes "stats_ok st" "vm_fault io al space ft fa pt st = Some (res, pt', st')"
  shows "stats_ok st'"
proof -
  have l: "length (vm_stats st) = VMSTAT_COUNT" using assms(1) by (simp add: stats_ok_def)
  show ?thesis
    using assms(2) l
  proof (rule vm_fault_cases)
    assume "vm_stats st' = vm_stats st"
    then show ?thesis using assms(1) by (simp add: stats_ok_def)
  next
    fix as pa st1 st2
    assume a: "vm_high st1" "pg_keeps (insert VMSTAT_PAGE_FAULT_ZERO page_counters) (snd (vm_splhigh st)) st1"
      "disk_gap st1 = disk_gap st" "tlb_install as (fa AND PAGE_FRAME) pa st1 = Some st2"
      "st' = vm_splx (ts_spl (sy_ts (vm_sy st))) st2"
    have 1: "stats_ok st1"
      using a(2,3) assms(1) l vm_splhigh_fst_snd(3) [of st] by (auto simp: stats_ok_def pg_keeps_def vmstat_defs)
    show ?thesis
      using a(1,4)
    proof (rule tlb_install_cases)
      fix k
      assume "k \<in> {VMSTAT_TLB_FAULT_FREE, VMSTAT_TLB_FAULT_REPLACE}"
        "vm_stats st2 = (vm_stats st1)[k := stat st1 k + 1, VMSTAT_TLB_FAULT := stat st1 VMSTAT_TLB_FAULT + 1]"
      then show ?thesis using 1 a(5) by (auto simp: stats_ok_def vm_splx_def vmstat_defs)
    qed
  qed
qed

lemma as_activate_stats:
  assumes "stats_ok st" "as_activate st = Some st'"
  shows "stats_ok st'"
proof -
  obtain st2 tlb where r: "vmstats_bump VMSTAT_TLB_INVALIDATE (snd (vm_splhigh st)) = Some st2"
      "st' = vm_splx (ts_spl (sy_ts (vm_sy st))) (st2\<lparr>vm_tlb := tlb\<rparr>)"
    using assms(2) by (subst (asm) as_activate_def, subst (asm) vm_splhigh_fst_snd(1)) (auto simp: bind_eq_Some_conv)
  then obtain x where "vm_stats st' = (vm_stats st)[VMSTAT_TLB_INVALIDATE := x]"
    using vm_splhigh_fst_snd(3) [of st]
    by (auto simp: vmstats_bump_def bind_eq_Some_conv set_cell_eq_Some_iff vm_splx_def)
  then show ?thesis using assms(1) by (simp add: stats_ok_def vmstat_defs)
qed

text \<open>An address space switch returns, with every entry of the translation buffer invalid.\<close>

lemma tlb_invalidate_eq:
  assumes "i + n \<le> length tlb"
  shows "tlb_invalidate n i tlb = Some (take i tlb @ map (\<lambda>j. (TLBHI_INVALID (of_nat j), 0)) [i..<i + n] @ drop (i + n) tlb)"
  using assms
proof (induction n arbitrary: i tlb)
  case (Suc n)
  let ?v = "\<lambda>j. (TLBHI_INVALID (of_nat j), 0 :: 32 word)"
  have "tlb_invalidate (Suc n) i tlb = tlb_invalidate n (Suc i) (tlb[i := ?v i])"
    using Suc.prems by (simp add: TLB_Write_def set_cell_def)
  also have "\<dots> = Some (take (Suc i) (tlb[i := ?v i]) @ map ?v [Suc i..<Suc i + n] @ drop (Suc i + n) (tlb[i := ?v i]))"
    using Suc.prems by (intro Suc.IH) simp
  also have "take (Suc i) (tlb[i := ?v i]) = take i tlb @ [?v i]" using Suc.prems by (simp add: take_Suc_conv_app_nth)
  finally show ?case using Suc.prems by (simp add: upt_conv_Cons del: upt_Suc)
qed simp

lemma as_activate_flushes:
  assumes "length (vm_tlb st) = NUM_TLB" "length (vm_stats st) = VMSTAT_COUNT"
  shows "\<exists>st'. as_activate st = Some st' \<and> vm_tlb st' = map (\<lambda>j. (TLBHI_INVALID (of_nat j), 0)) [0..<NUM_TLB]"
proof -
  let ?s = "snd (vm_splhigh st)"
  obtain st2 where st2: "vmstats_bump VMSTAT_TLB_INVALIDATE ?s = Some st2" "vm_tlb st2 = vm_tlb st"
    using assms(2) vm_splhigh_fst_snd(3,4) [of st] by (auto simp: vmstats_bump_def set_cell_def cell_def vmstat_defs)
  then show ?thesis using assms(1) tlb_invalidate_eq [of 0 NUM_TLB "vm_tlb st"]
    by (subst as_activate_def, subst vm_splhigh_fst_snd(1)) (auto simp: vm_splx_def)
qed

text \<open>
  Claim C24: the fault statistics agree. Starting from the zero counters of \<^verbatim>\<open>vmstats_init\<close>, after any sequence
  of page faults and address space switches the first and the third check of \<^verbatim>\<open>_vmstats_print\<close> hold: every
  fault used a free or a replaced entry, and every page fetched from disk came from the program or the swap file.
\<close>

theorem vmstats_consistent:
  assumes "vm_run io st st'" "vm_stats st = replicate VMSTAT_COUNT 0"
  shows "fst (vmstats_checks (vm_stats st')) \<and> snd (snd (vmstats_checks (vm_stats st')))"
proof -
  have "stats_ok st" using assms(2) by (simp add: stats_ok_def vmstat_defs)
  with assms(1) have "stats_ok st'" by induction (auto intro: vm_fault_stats as_activate_stats)
  then show ?thesis by (simp add: stats_ok_def vmstats_checks_def Let_def diff_eq_eq add.commute)
qed

theorem vm_fault_installs_witness:
  "\<exists>pt st'. vm_fault \<lparr>io_read = (\<lambda>_ _ _ _. None), io_write = (\<lambda>_ _ _ _. None)\<rparr>
       \<lparr>al_pte = \<lambda>_. True, al_add = \<lambda>_. True, al_push = \<lambda>_. True\<rparr> (Some wit_as) VM_FAULT_READ 0x7fff5010 pt (wit_vm ()) =
       Some (Fault_ret (Inr ()), pt, st') \<and> tlb_distinct (vm_tlb st')"
proof -
  have p: "length (vm_stats (wit_vm ())) = VMSTAT_COUNT" "tlb_misses (0x7fff5010 AND PAGE_FRAME) (vm_tlb (wit_vm ()))"
    "tlb_distinct (vm_tlb (wit_vm ()))"
    by (simp_all add: wit_vm_def tlb_misses_def tlb_distinct_def)
  show ?thesis
    by (rule exE [OF vm_fault_installs [OF wit_stack_fault p]], elim exE conjE, intro exI conjI)
      (rule wit_stack_fault, assumption)
qed

theorem vmstats_consistent_witness:
  "\<exists>st'. vm_run \<lparr>io_read = (\<lambda>_ _ _ _. None), io_write = (\<lambda>_ _ _ _. None)\<rparr> (wit_vm ()) st' \<and>
     stat st' VMSTAT_TLB_FAULT = 1 \<and> fst (vmstats_checks (vm_stats st')) \<and> snd (snd (vmstats_checks (vm_stats st')))"
proof -
  note r = run_fault [OF run_start wit_stack_fault, of "\<lparr>io_read = (\<lambda>_ _ _ _. None), io_write = (\<lambda>_ _ _ _. None)\<rparr>" "()"]
  have z: "vm_stats (wit_vm ()) = replicate VMSTAT_COUNT 0" by (simp add: wit_vm_def)
  show ?thesis
    by (rule exI, rule conjI [OF r], rule conjI [OF _ vmstats_consistent [OF r z]]) (simp add: vmstat_defs)
qed

end
