(* ===== verification/Kern_Paging.thy ===== *)
theory Kern_Paging
  imports Kern_Vm
begin

text \<open>
  What demand paging does to the contents of pages: the round trip through the swap file, the fault that finds no
  frame, and the stability of the translation that \<^verbatim>\<open>pt_lookup\<close> returns.
\<close>

section \<open>The map of the swap file\<close>

text \<open>\<open>swap_ok st fs\<close>: the frames that have a place in the swap file, in the order of their places.\<close>

definition swap_ok :: "'d vmsys \<Rightarrow> (32 word) list \<Rightarrow> bool" where
  "swap_ok st fs \<longleftrightarrow> length (vm_swapmap st) = 2304 \<and> length fs \<le> 2304 \<and> vm_count st = of_nat (length fs) \<and>
     take (length fs) (vm_swapmap st) = map Some fs"

lemma swap_ok_count: "swap_ok st fs \<Longrightarrow> unat (vm_count st) = length fs"
  by (simp add: swap_ok_def unat_of_nat_32)

lemma find_swapped_eq:
  assumes "swap_ok st fs"
  shows "find_swapped pfn st = Some (map_option int (first_index ((=) pfn) fs))"
proof -
  have "cell (vm_swapmap st) (0 + int j) \<bind> (\<lambda>c. c) = Some (fs ! j)" if "j < length fs" for j
  proof -
    have "vm_swapmap st ! j = take (length fs) (vm_swapmap st) ! j" using that by simp
    also have "\<dots> = Some (fs ! j)" using assms that by (simp add: swap_ok_def)
    finally show ?thesis using assms that by (simp add: swap_ok_def cell_def)
  qed
  from scan_list [of fs "\<lambda>i. cell (vm_swapmap st) i \<bind> (\<lambda>c. c)" 0 "(=) pfn", OF this]
  show ?thesis by (simp add: find_swapped_def swap_ok_count [OF assms])
qed

lemma first_index_append: "first_index p xs = None \<Longrightarrow> p y \<Longrightarrow> first_index p (xs @ [y]) = Some (length xs)"
  by (induction xs) (auto split: if_splits)

lemma swap_slot_total:
  assumes "swap_ok st fs" "pfn \<in> set fs \<or> length fs < 2304"
  shows "\<exists>i m c. swap_slot pfn st = Some (of_nat i * 4096, st\<lparr>vm_swapmap := m, vm_count := c\<rparr>) \<and> i < 2304 \<and>
     (\<exists>fs'. swap_ok (st\<lparr>vm_swapmap := m, vm_count := c\<rparr>) fs' \<and> first_index ((=) pfn) fs' = Some i)"
proof (cases "first_index ((=) pfn) fs")
  case (Some i)
  then have "i < 2304" using assms(1) by (simp add: first_index_Some_iff swap_ok_def)
  moreover have "swap_slot pfn st = Some (of_nat i * 4096, st)"
    using Some by (simp add: swap_slot_def find_swapped_eq [OF assms(1)] kassert_bind)
  ultimately show ?thesis using Some assms(1)
    by (intro exI [of _ i] exI [of _ "vm_swapmap st"] exI [of _ "vm_count st"]) auto
next
  case None
  then have l: "length fs < 2304" using assms(2) by (auto simp: first_index_None_iff)
  define m where "m = (vm_swapmap st)[length fs := Some pfn]"
  have u: "unat (vm_count st) = length fs" "uint (vm_count st) = int (length fs)"
    using swap_ok_count [OF assms(1)] by (simp_all only: uint_nat)
  have "take (length (fs @ [pfn])) m = map Some (fs @ [pfn])"
    using assms(1) l by (simp add: swap_ok_def m_def take_Suc_conv_app_nth)
  then have ok: "swap_ok (st\<lparr>vm_swapmap := m, vm_count := vm_count st + 1\<rparr>) (fs @ [pfn])"
    using assms(1) l by (simp add: swap_ok_def m_def add.commute)
  have "vm_count st \<noteq> MAX_SWAPPED_PAGES" using u(1) l by (auto simp: MAX_SWAPPED_PAGES_def)
  then have "swap_slot pfn st = Some (of_nat (length fs) * 4096, st\<lparr>vm_swapmap := m, vm_count := vm_count st + 1\<rparr>)"
    using None u l assms(1)
    by (simp add: swap_slot_def find_swapped_eq [OF assms(1)] kassert_bind set_cell_def m_def) (simp add: swap_ok_def)
  then show ?thesis using ok l first_index_append [OF None, of pfn] by blast
qed

section \<open>The swap file holds what was written\<close>

text \<open>
  What \<^verbatim>\<open>VOP_READ\<close> and \<^verbatim>\<open>VOP_WRITE\<close> do to the swap file, for whole pages: \<open>page d k\<close> is the page at
  offset \<open>4096 * k\<close>. A write puts the page of memory there and changes no other; a read brings it back.
\<close>

definition mem_page :: "nat \<Rightarrow> 8 word list \<Rightarrow> 8 word list" where
  "mem_page k mem = take 4096 (drop k mem)"

definition put_page :: "nat \<Rightarrow> 8 word list \<Rightarrow> 8 word list \<Rightarrow> 8 word list" where
  "put_page k b mem = take k mem @ b @ drop (k + 4096) mem"

definition swap_file :: "'d vnode_io \<Rightarrow> nat \<Rightarrow> ('d \<Rightarrow> nat \<Rightarrow> 8 word list) \<Rightarrow> bool" where
  "swap_file io v page \<longleftrightarrow>
     (\<forall>va i mem d. i < 2304 \<longrightarrow> kv_pos va + 4096 \<le> length mem \<longrightarrow>
        (\<exists>u d'. io_write io v (page_uio va (of_nat i * 4096) UIO_WRITE) mem d = Some (Inr (), u, mem, d') \<and>
           page d' = (page d)(i := mem_page (kv_pos va) mem))) \<and>
     (\<forall>va i mem d. i < 2304 \<longrightarrow> kv_pos va + 4096 \<le> length mem \<longrightarrow> length (page d i) = 4096 \<longrightarrow>
        (\<exists>u. io_read io v (page_uio va (of_nat i * 4096) UIO_READ) mem d = Some (Inr (), u, put_page (kv_pos va) (page d i) mem, d)))"

lemma length_put_page [simp]: "k + 4096 \<le> length mem \<Longrightarrow> length b = 4096 \<Longrightarrow> length (put_page k b mem) = length mem"
  by (simp add: put_page_def)

lemma mem_page_put [simp]: "k + 4096 \<le> length mem \<Longrightarrow> length b = 4096 \<Longrightarrow> mem_page k (put_page k b mem) = b"
  by (simp add: put_page_def mem_page_def)

lemma length_mem_page [simp]: "k + 4096 \<le> length mem \<Longrightarrow> length (mem_page k mem) = 4096"
  by (simp add: mem_page_def)

lemma kv_pos_ALIGN: "kv_pos (ALIGN p + MIPS_KSEG0) = unat (ALIGN p)"
  by (simp add: kv_pos_def)

text \<open>\<open>swapout\<close> returns, the page is in the swap file under its frame, and memory is as before.\<close>

lemma swapout_total:
  assumes "swap_file io v page" "vm_high st" "vm_swapfile st = Some v" "vm_pte st pte = Some e"
    and "unat (ALIGN (pte_paddr e)) + 4096 \<le> length (cm_mem (vm_cm st))" "length (vm_stats st) = VMSTAT_COUNT"
    and "swap_ok st fs" "ALIGN (pte_paddr e) \<in> set fs \<or> length fs < 2304"
  shows "\<exists>st' fs' i. swapout io pte st = Some st' \<and> i < 2304 \<and> swap_ok st' fs' \<and>
     first_index ((=) (ALIGN (pte_paddr e))) fs' = Some i \<and> vm_cm st' = vm_cm st \<and> vm_sy st' = vm_sy st \<and>
     length (vm_stats st') = VMSTAT_COUNT \<and> vm_swapfile st' = Some v \<and>
     vm_pte st' = (vm_pte st)(pte \<mapsto> e\<lparr>pte_paddr := SET_SWAPPED (ALIGN (pte_paddr e))\<rparr>) \<and>
     page (vm_disk st') = (page (vm_disk st))(i := mem_page (unat (ALIGN (pte_paddr e))) (cm_mem (vm_cm st)))"
proof -
  let ?p = "ALIGN (pte_paddr e)"
  obtain i m c fs' where s: "swap_slot ?p st = Some (of_nat i * 4096, st\<lparr>vm_swapmap := m, vm_count := c\<rparr>)" "i < 2304"
      "swap_ok (st\<lparr>vm_swapmap := m, vm_count := c\<rparr>) fs'" "first_index ((=) ?p) fs' = Some i"
    using swap_slot_total [OF assms(7,8)] by blast
  obtain u d' where w: "io_write io v (page_uio (?p + MIPS_KSEG0) (of_nat i * 4096) UIO_WRITE) (cm_mem (vm_cm st)) (vm_disk st) =
        Some (Inr (), u, cm_mem (vm_cm st), d')"
      "page d' = (page (vm_disk st))(i := mem_page (unat ?p) (cm_mem (vm_cm st)))"
    using assms(1,5) s(2) unfolding swap_file_def by (metis kv_pos_ALIGN)
  define st2 where "st2 = st\<lparr>vm_swapmap := m, vm_count := c, vm_disk := d'\<rparr>"
  have w2: "write_to_swapfile io (?p + MIPS_KSEG0) (of_nat i * 4096) (st\<lparr>vm_swapmap := m, vm_count := c\<rparr>) = Some (Inr (), st2)"
    using w(1) assms(3) by (simp add: write_to_swapfile_def vm_io_def st2_def)
  have h: "vm_high st2" "length (vm_stats st2) = VMSTAT_COUNT" using assms(2,6) by (simp_all add: st2_def)
  define st' where "st' = st2\<lparr>vm_stats := (vm_stats st2)[VMSTAT_SWAP_FILE_WRITE := stat st2 VMSTAT_SWAP_FILE_WRITE + 1],
      vm_pte := (vm_pte st2)(pte \<mapsto> e\<lparr>pte_paddr := SET_SWAPPED ?p\<rparr>)\<rparr>"
  have "vmstats_inc VMSTAT_SWAP_FILE_WRITE st2 =
      Some (st2\<lparr>vm_stats := (vm_stats st2)[VMSTAT_SWAP_FILE_WRITE := stat st2 VMSTAT_SWAP_FILE_WRITE + 1]\<rparr>)"
    by (rule vmstats_inc_eq [OF h]) (simp add: vmstat_defs)
  then have "swapout io pte st = Some (vm_splx 15 st')"
    unfolding swapout_def vm_splhigh_high [OF assms(2)] by (simp add: assms(4) s(1) w2 st'_def)
  moreover have "vm_splx 15 st' = st'" using h(1) by (intro vm_splx_high) (simp add: st'_def)
  moreover have "swap_ok st' fs'" using s(3) by (simp add: swap_ok_def st'_def st2_def)
  ultimately show ?thesis
    using s(2,4) w(2) assms(3,6) by (intro exI [of _ st'] exI [of _ fs'] exI [of _ i]) (simp add: st'_def st2_def)
qed

text \<open>\<open>swapin\<close> returns, and brings back the page that the swap file has for the frame.\<close>

lemma swapin_total:
  assumes "swap_file io v page" "vm_high st" "vm_swapfile st = Some v" "vm_pte st pte = Some e" "IS_SWAPPED (pte_paddr e)"
    and "unat (ALIGN (pte_paddr e)) + 4096 \<le> length (cm_mem (vm_cm st))" "length (vm_stats st) = VMSTAT_COUNT"
    and "swap_ok st fs" "first_index ((=) (ALIGN (pte_paddr e))) fs = Some i" "length (page (vm_disk st) i) = 4096"
  shows "\<exists>st'. swapin io pte st = Some st' \<and>
     vm_cm st' = (vm_cm st)\<lparr>cm_mem := put_page (unat (ALIGN (pte_paddr e))) (page (vm_disk st) i) (cm_mem (vm_cm st))\<rparr> \<and>
     vm_pte st' = (vm_pte st)(pte \<mapsto> e\<lparr>pte_paddr := SET_VALID (ALIGN (pte_paddr e))\<rparr>)"
proof -
  let ?p = "ALIGN (pte_paddr e)"
  have i: "i < 2304" using assms(8,9) by (simp add: swap_ok_def first_index_Some_iff)
  obtain u where r: "io_read io v (page_uio (?p + MIPS_KSEG0) (of_nat i * 4096) UIO_READ) (cm_mem (vm_cm st)) (vm_disk st) =
        Some (Inr (), u, put_page (unat ?p) (page (vm_disk st) i) (cm_mem (vm_cm st)), vm_disk st)"
    using assms(1,6,10) i unfolding swap_file_def by (metis kv_pos_ALIGN)
  define st1 where "st1 = st\<lparr>vm_cm := (vm_cm st)\<lparr>cm_mem := put_page (unat ?p) (page (vm_disk st) i) (cm_mem (vm_cm st))\<rparr>\<rparr>"
  have r2: "read_from_swapfile io (?p + MIPS_KSEG0) (of_nat i * 4096) st = Some (Inr (), st1)"
    using r assms(3) by (simp add: read_from_swapfile_def vm_io_def st1_def)
  have h: "vm_high st1" "length (vm_stats st1) = VMSTAT_COUNT" using assms(2,7) by (simp_all add: st1_def)
  define st' where "st' = st1\<lparr>vm_stats := (vm_stats st1)[VMSTAT_SWAP_FILE_READ := stat st1 VMSTAT_SWAP_FILE_READ + 1],
      vm_pte := (vm_pte st1)(pte \<mapsto> e\<lparr>pte_paddr := SET_VALID ?p\<rparr>)\<rparr>"
  have "vmstats_inc VMSTAT_SWAP_FILE_READ st1 =
      Some (st1\<lparr>vm_stats := (vm_stats st1)[VMSTAT_SWAP_FILE_READ := stat st1 VMSTAT_SWAP_FILE_READ + 1]\<rparr>)"
    by (rule vmstats_inc_eq [OF h]) (simp add: vmstat_defs)
  then have "swapin io pte st = Some (vm_splx 15 st')"
    unfolding swapin_def vm_splhigh_high [OF assms(2)]
    by (simp add: assms(4,5,9) find_swapped_eq [OF assms(8)] r2 st'_def)
  moreover have "vm_splx 15 st' = st'" using h(1) by (intro vm_splx_high) (simp add: st'_def)
  ultimately show ?thesis by (simp add: st'_def st1_def)
qed

section \<open>Frame numbers and flags\<close>

lemma ALIGN_bits [simp]: "ALIGN (ALIGN x) = ALIGN x" "ALIGN (SET_SWAPPED (ALIGN x)) = ALIGN x" "ALIGN (SET_VALID (ALIGN x)) = ALIGN x"
  "IS_SWAPPED (SET_SWAPPED x)" "IS_VALID (SET_VALID x)"
proof -
  have z: "4 AND PAGE_FRAME = 0" "1 AND PAGE_FRAME = 0" by (simp_all add: PAGE_FRAME_def)
  show "ALIGN (ALIGN x) = ALIGN x" by (simp add: ALIGN_def)
  show "ALIGN (SET_SWAPPED (ALIGN x)) = ALIGN x" "ALIGN (SET_VALID (ALIGN x)) = ALIGN x"
    by (simp_all add: ALIGN_def SET_SWAPPED_def SET_VALID_def bit.conj_disj_distrib2 z)
  show "IS_SWAPPED (SET_SWAPPED x)" "IS_VALID (SET_VALID x)"
    by (simp_all add: IS_SWAPPED_def SET_SWAPPED_def IS_VALID_def SET_VALID_def bit.conj_disj_distrib2)
qed

text \<open>The state with other contents of memory, as other code leaves it.\<close>

abbreviation with_mem :: "8 word list \<Rightarrow> 'd vmsys \<Rightarrow> 'd vmsys" where
  "with_mem mem st \<equiv> st\<lparr>vm_cm := (vm_cm st)\<lparr>cm_mem := mem\<rparr>\<rparr>"

text \<open>
  Claim C3: a page survives the swap file. When a page is swapped out, \<^verbatim>\<open>swapout\<close> returns, and whatever is then
  done to memory, \<^verbatim>\<open>swapin\<close> returns with the contents of the page back in its frame and its entry valid, provided
  the swap file keeps what is written to it and has a place for the page.
\<close>

theorem swap_roundtrip:
  assumes "swap_file io v page" "vm_high st" "vm_swapfile st = Some v" "vm_pte st pte = Some e"
    and "unat (ALIGN (pte_paddr e)) + 4096 \<le> length (cm_mem (vm_cm st))" "length (vm_stats st) = VMSTAT_COUNT"
    and "swap_ok st fs" "ALIGN (pte_paddr e) \<in> set fs \<or> length fs < 2304"
  shows "\<exists>st1. swapout io pte st = Some st1 \<and>
     (\<forall>mem. length mem = length (cm_mem (vm_cm st)) \<longrightarrow>
       (\<exists>st2 e2. swapin io pte (with_mem mem st1) = Some st2 \<and> vm_pte st2 pte = Some e2 \<and> IS_VALID (pte_paddr e2) \<and>
          ALIGN (pte_paddr e2) = ALIGN (pte_paddr e) \<and>
          mem_page (unat (ALIGN (pte_paddr e))) (cm_mem (vm_cm st2)) = mem_page (unat (ALIGN (pte_paddr e))) (cm_mem (vm_cm st))))"
proof -
  let ?p = "ALIGN (pte_paddr e)"
  obtain st1 fs' i where o: "swapout io pte st = Some st1" "swap_ok st1 fs'" "first_index ((=) ?p) fs' = Some i"
      "vm_sy st1 = vm_sy st" "length (vm_stats st1) = VMSTAT_COUNT" "vm_swapfile st1 = Some v"
      "vm_pte st1 = (vm_pte st)(pte \<mapsto> e\<lparr>pte_paddr := SET_SWAPPED ?p\<rparr>)"
      "page (vm_disk st1) = (page (vm_disk st))(i := mem_page (unat ?p) (cm_mem (vm_cm st)))"
    using swapout_total [OF assms] by blast
  have "\<exists>st2 e2. swapin io pte (with_mem mem st1) = Some st2 \<and> vm_pte st2 pte = Some e2 \<and> IS_VALID (pte_paddr e2) \<and>
          ALIGN (pte_paddr e2) = ?p \<and> mem_page (unat ?p) (cm_mem (vm_cm st2)) = mem_page (unat ?p) (cm_mem (vm_cm st))"
    if m: "length mem = length (cm_mem (vm_cm st))" for mem
  proof -
    have ok: "swap_ok (with_mem mem st1) fs'" using o(2) by (simp add: swap_ok_def)
    have pg: "length (page (vm_disk (with_mem mem st1)) i) = 4096" using assms(5) o(8) by simp
    have fi: "first_index ((=) (ALIGN (pte_paddr (e\<lparr>pte_paddr := SET_SWAPPED ?p\<rparr>)))) fs' = Some i" using o(3) by simp
    show ?thesis
      using swapin_total [OF assms(1) _ _ _ _ _ _ ok fi pg, of pte] assms(2,5) m o(4-8) by fastforce
  qed
  then show ?thesis using o(1) by blast
qed

text \<open>
  Claim C34: the swap file has one place per frame. When the frame of a page that is swapped out is given to another
  page, and that page is swapped out too, it takes the place of the first: \<^verbatim>\<open>swapin\<close> of the first page returns
  with the contents of the other, whatever they are.
\<close>

theorem swap_frame_reuse_corrupts:
  assumes "swap_file io v page" "vm_high st" "vm_swapfile st = Some v" "vm_pte st pte = Some e" "q \<noteq> pte"
    and "unat (ALIGN (pte_paddr e)) + 4096 \<le> length (cm_mem (vm_cm st))" "length (vm_stats st) = VMSTAT_COUNT"
    and "swap_ok st fs" "ALIGN (pte_paddr e) \<in> set fs \<or> length fs < 2304"
  shows "\<exists>st1. swapout io pte st = Some st1 \<and>
     (\<forall>va mem. length mem = length (cm_mem (vm_cm st)) \<longrightarrow>
       (\<exists>st2 st3. swapout io q ((with_mem mem st1)\<lparr>vm_pte := (vm_pte st1)(q \<mapsto>
              \<lparr>pte_vaddr = va, pte_paddr = SET_VALID (ALIGN (pte_paddr e))\<rparr>)\<rparr>) = Some st2 \<and>
          swapin io pte st2 = Some st3 \<and>
          mem_page (unat (ALIGN (pte_paddr e))) (cm_mem (vm_cm st3)) = mem_page (unat (ALIGN (pte_paddr e))) mem))"
proof -
  let ?p = "ALIGN (pte_paddr e)"
  obtain st1 fs' i where o: "swapout io pte st = Some st1" "swap_ok st1 fs'" "first_index ((=) ?p) fs' = Some i"
      "vm_sy st1 = vm_sy st" "length (vm_stats st1) = VMSTAT_COUNT" "vm_swapfile st1 = Some v"
      "vm_pte st1 = (vm_pte st)(pte \<mapsto> e\<lparr>pte_paddr := SET_SWAPPED ?p\<rparr>)"
    using swapout_total [OF assms(1-4,6-9)] by blast
  have "\<exists>st2 st3. swapout io q ((with_mem mem st1)\<lparr>vm_pte := (vm_pte st1)(q \<mapsto> \<lparr>pte_vaddr = va, pte_paddr = SET_VALID ?p\<rparr>)\<rparr>) = Some st2 \<and>
          swapin io pte st2 = Some st3 \<and> mem_page (unat ?p) (cm_mem (vm_cm st3)) = mem_page (unat ?p) mem"
    if m: "length mem = length (cm_mem (vm_cm st))" for va mem
  proof -
    let ?eq = "\<lparr>pte_vaddr = va, pte_paddr = SET_VALID ?p\<rparr>"
    let ?st1 = "(with_mem mem st1)\<lparr>vm_pte := (vm_pte st1)(q \<mapsto> ?eq)\<rparr>"
    have 1: "vm_high ?st1" "vm_swapfile ?st1 = Some v" "vm_pte ?st1 q = Some ?eq" "swap_ok ?st1 fs'"
        "unat (ALIGN (pte_paddr ?eq)) + 4096 \<le> length (cm_mem (vm_cm ?st1))" "length (vm_stats ?st1) = VMSTAT_COUNT"
      using assms(2,6) m o(2,4-6) by (simp_all add: swap_ok_def)
    have "?p \<in> set fs'" using o(3) by (metis first_index_Some_iff nth_mem)
    then have in_fs: "ALIGN (pte_paddr ?eq) \<in> set fs' \<or> length fs' < 2304" by simp
    obtain st2 fs2 j where q: "swapout io q ?st1 = Some st2" "swap_ok st2 fs2" "first_index ((=) ?p) fs2 = Some j"
        "vm_cm st2 = vm_cm ?st1" "vm_sy st2 = vm_sy ?st1" "length (vm_stats st2) = VMSTAT_COUNT" "vm_swapfile st2 = Some v"
        "vm_pte st2 = (vm_pte ?st1)(q \<mapsto> ?eq\<lparr>pte_paddr := SET_SWAPPED ?p\<rparr>)"
        "page (vm_disk st2) = (page (vm_disk ?st1))(j := mem_page (unat ?p) mem)"
      using swapout_total [OF assms(1) 1(1-3,5,6,4) in_fs] by auto
    have e2: "vm_pte st2 pte = Some (e\<lparr>pte_paddr := SET_SWAPPED ?p\<rparr>)" using q(8) o(7) assms(5) by simp
    have pg: "length (page (vm_disk st2) j) = 4096" using q(9) assms(6) m by simp
    have fi: "first_index ((=) (ALIGN (pte_paddr (e\<lparr>pte_paddr := SET_SWAPPED ?p\<rparr>)))) fs2 = Some j" using q(3) by simp
    have "\<exists>st3. swapin io pte st2 = Some st3 \<and> mem_page (unat ?p) (cm_mem (vm_cm st3)) = mem_page (unat ?p) mem"
      using swapin_total [OF assms(1) _ q(7) e2 _ _ q(6,2) fi pg] assms(2,6) m o(4) q(4,5,9) by fastforce
    then show ?thesis using q(1) by blast
  qed
  then show ?thesis using o(1) by blast
qed

section \<open>A fault without a free frame\<close>

lemma zero_out_page_eq:
  assumes "ALIGN p \<noteq> 0" "unat (ALIGN p) + 4096 \<le> length (cm_mem (vm_cm st))"
  shows "zero_out_page p st = Some (with_mem (put_page (unat (ALIGN p)) (replicate 4096 0) (cm_mem (vm_cm st))) st)"
proof -
  obtain u b where "uiomovezeros None 4096 (mk_kuio (unat (ALIGN p)) 4096 0 UIO_READ blank_uio)
      \<lparr>x_buf = [], x_kobj = cm_mem (vm_cm st), x_user = no_user\<rparr> = Some (Inr (), u, \<lparr>x_buf = b,
        x_kobj = put_page (unat (ALIGN p)) (replicate 4096 0) (cm_mem (vm_cm st)), x_user = no_user\<rparr>)"
    using uiomovezeros_kernel [of 4096 4096 "unat (ALIGN p)" "\<lparr>x_buf = [], x_kobj = cm_mem (vm_cm st), x_user = no_user\<rparr>" None 0 blank_uio]
      assms(2) by (auto simp: put_page_def)
  then show ?thesis using assms(1) by (simp add: zero_out_page_def kv_pos_ALIGN word_gt_0)
qed

lemma TLB_Probe_bound: "TLB_Probe va tlb < int (length tlb)"
  by (auto simp: TLB_Probe_def first_index_Some_iff split: option.splits)

lemma page_replace_total:
  assumes "ll_pop_front (pt_fifo pt) = Some (pte, ll)" "swapout io pte st = Some st1" "vm_pte st1 pte = Some e"
    and "ALIGN (pte_paddr e) \<noteq> 0" "IS_SWAPPED (pte_paddr e)"
  shows "\<exists>tlb. page_replace io pt st = Some (ALIGN (pte_paddr e), pt\<lparr>pt_fifo := ll\<rparr>, st1\<lparr>vm_tlb := tlb\<rparr>)"
proof (cases "0 \<le> TLB_Probe (pte_vaddr e) (vm_tlb st1)")
  case True
  then show ?thesis
    using assms TLB_Probe_bound [of "pte_vaddr e" "vm_tlb st1"]
    by (simp add: page_replace_def word_gt_0 TLB_Write_def set_cell_def Let_def) blast
next
  case False
  then show ?thesis
    using assms by (intro exI [of _ "vm_tlb st1"]) (simp add: page_replace_def word_gt_0)
qed


section \<open>Entries keep their pages\<close>

definition pte_keeps :: "'d vmsys \<Rightarrow> 'd vmsys \<Rightarrow> bool" where
  "pte_keeps st st' \<longleftrightarrow> vm_pbrk st' = vm_pbrk st \<and>
     (\<forall>x e. vm_pte st x = Some e \<longrightarrow> (\<exists>e'. vm_pte st' x = Some e' \<and> pte_vaddr e' = pte_vaddr e))"

lemma pte_keepsI: "vm_pbrk st' = vm_pbrk st \<Longrightarrow> vm_pte st' = vm_pte st \<Longrightarrow> pte_keeps st st'"
  by (simp add: pte_keeps_def)

lemma pte_keeps_trans: "pte_keeps st st' \<Longrightarrow> pte_keeps st' st'' \<Longrightarrow> pte_keeps st st''"
  unfolding pte_keeps_def by metis

lemma swapout_pte_keeps:
  assumes "vm_high st" "swapout io pte st = Some st'"
  shows "pte_keeps st st'"
  using assms
proof (rule swapout_cases)
  fix e off st1 st2 u
  assume a: "vm_pte st pte = Some e" "swap_slot (ALIGN (pte_paddr e)) st = Some (off, st1)"
    "vm_io (io_write io) (vm_swapfile st1) (page_uio (ALIGN (pte_paddr e) + MIPS_KSEG0) off UIO_WRITE) st1 = Some (Inr (), u, st2)"
    "st' = st2\<lparr>vm_stats := (vm_stats st2)[VMSTAT_SWAP_FILE_WRITE := stat st2 VMSTAT_SWAP_FILE_WRITE + 1],
               vm_pte := (vm_pte st2)(pte \<mapsto> e\<lparr>pte_paddr := SET_SWAPPED (ALIGN (pte_paddr e))\<rparr>)\<rparr>"
  have "vm_pte st1 = vm_pte st \<and> vm_pbrk st1 = vm_pbrk st" using a(2) by (rule swap_slot_cases) simp_all
  moreover have "vm_pte st2 = vm_pte st1 \<and> vm_pbrk st2 = vm_pbrk st1" using vm_io_keeps(1) [OF a(3)] by auto
  ultimately show ?thesis using a(1,4) by (simp add: pte_keeps_def)
qed

lemma page_replace_pte:
  assumes "vm_high st" "page_replace io pt st = Some (p, pt', st')"
  shows "pte_keeps st st'" "pt_entries pt' = pt_entries pt"
proof -
  obtain pte ll st1 tlb where r: "swapout io pte st = Some st1" "pt' = pt\<lparr>pt_fifo := ll\<rparr>" "st' = st1\<lparr>vm_tlb := tlb\<rparr>"
    using assms(2) by (auto simp: page_replace_def bind_eq_Some_conv Let_def)
  show "pte_keeps st st'" "pt_entries pt' = pt_entries pt"
    using swapout_pte_keeps [OF assms(1) r(1)] r(2,3) by (simp_all add: pte_keeps_def)
qed

lemma force_free_page_pte:
  assumes "vm_high st" "force_free_page io pt st = Some (pt', st')"
  shows "pte_keeps st st'" "pt_entries pt' = pt_entries pt" "vm_high st'"
proof -
  obtain p st1 st2 cm where r: "page_replace io pt st = Some (p, pt', st1)" "zero_out_page p st1 = Some st2" "st' = st2\<lparr>vm_cm := cm\<rparr>"
    using assms(2) by (auto simp: force_free_page_def bind_eq_Some_conv)
  show "pte_keeps st st'" "pt_entries pt' = pt_entries pt"
    using page_replace_pte [OF assms(1) r(1)] zero_out_page_cases(2) [OF r(2)] r(3) by (auto simp: pte_keeps_def)
  show "vm_high st'" using force_free_page_keeps [OF assms] assms(1) by (simp add: pg_keeps_def)
qed

lemma alloc_entry_pte:
  assumes "alloc_entry io ok k pt st = Some r" "vm_high st"
  shows "pte_keeps st (snd r) \<and> pt_entries (fst r) = pt_entries pt"
  using assms(2)
proof (induction rule: alloc_entry.raw_induct [OF _ assms(1)])
  case (1 rec io ok k pt st r)
  show ?case
  proof (cases "ok k")
    case True
    then show ?thesis using 1(2) by (auto intro: pte_keepsI)
  next
    case False
    then obtain pt1 st1 where f: "force_free_page io pt st = Some (pt1, st1)" "rec io ok (Suc k) pt1 st1 = Some r"
      using 1(2) by (auto simp: bind_eq_Some_conv)
    note k = force_free_page_pte [OF 1(3) f(1)]
    show ?thesis using 1(1) [OF f(2) k(3)] k(1,2) by (auto intro: pte_keeps_trans)
  qed
qed

lemma push_entry_pte:
  assumes "push_entry io ok k pte pt st = Some r" "vm_high st"
  shows "pte_keeps st (snd r) \<and> pt_entries (fst r) = pt_entries pt"
  using assms(2)
proof (induction rule: push_entry.raw_induct [OF _ assms(1)])
  case (1 rec io ok k pte pt st r)
  obtain e ll where a: "ll_push_back (ok k) (pt_fifo pt) pte = Some (e, ll)"
      "(if e = Inr () then Some (pt\<lparr>pt_fifo := ll\<rparr>, st)
        else force_free_page io (pt\<lparr>pt_fifo := ll\<rparr>) st \<bind> (\<lambda>(pt2, st2). rec io ok (Suc k) pte pt2 st2)) = Some r"
    using 1(2) by (auto simp: bind_eq_Some_conv Let_def)
  show ?case
  proof (cases "e = Inr ()")
    case True
    then show ?thesis using a(2) by (auto intro: pte_keepsI)
  next
    case False
    then obtain pt1 st1 where f: "force_free_page io (pt\<lparr>pt_fifo := ll\<rparr>) st = Some (pt1, st1)" "rec io ok (Suc k) pte pt1 st1 = Some r"
      using a(2) by (auto simp: bind_eq_Some_conv)
    note k = force_free_page_pte [OF 1(3) f(1)]
    show ?thesis using 1(1) [OF f(2) k(3)] k(1,2) by (auto intro: pte_keeps_trans)
  qed
qed

lemma add_entry_pte:
  assumes "add_entry io ok k pte pt st = Some r" "vm_high st" "array_invar (pt_entries pt)" "array_getnum (pt_entries pt) < 2 ^ 29"
  shows "pte_keeps st (snd r) \<and> array_invar (pt_entries (fst r)) \<and> array_elems (pt_entries (fst r)) = array_elems (pt_entries pt) @ [pte]"
  using assms(2-)
proof (induction rule: add_entry.raw_induct [OF _ assms(1)])
  case (1 rec io ok k pte pt st r)
  obtain e a where a: "array_add (ok k) (pt_entries pt) pte = Some (e, a)"
      "(if e = Inr () then Some (pt\<lparr>pt_entries := a\<rparr>, st)
        else force_free_page io (pt\<lparr>pt_entries := a\<rparr>) st \<bind> (\<lambda>(pt2, st2). rec io ok (Suc k) pte pt2 st2)) = Some r"
    using 1(2) by (auto simp: bind_eq_Some_conv Let_def)
  note add = arr.add_room [OF 1(4,5), of "ok k" pte] 
  show ?case
  proof (cases "e = Inr ()")
    case True
    then show ?thesis using a add by (auto intro: pte_keepsI)
  next
    case False
    then obtain pt1 st1 where f: "force_free_page io (pt\<lparr>pt_entries := a\<rparr>) st = Some (pt1, st1)" "rec io ok (Suc k) pte pt1 st1 = Some r"
      using a(2) by (auto simp: bind_eq_Some_conv)
    note k = force_free_page_pte [OF 1(3) f(1)]
    have e: "array_invar a" "array_elems a = array_elems (pt_entries pt)" using add a(1) False by auto
    then have "array_getnum a = array_getnum (pt_entries pt)" using 1(4) by (simp add: arr.getnum)
    then show ?thesis using 1(1) [OF f(2) k(3)] k(1,2) e 1(5) by (auto intro: pte_keeps_trans)
  qed
qed

lemma page_read_pte:
  assumes "page_read io v off va ms fs st = Some (r, st')"
  shows "vm_pte st' = vm_pte st \<and> vm_pbrk st' = vm_pbrk st"
  using page_read_frame [OF assms] by auto

lemma pt_pagefault_handler_pte:
  assumes "vm_high st" "pt_pagefault_handler io as pt va st = Some (r, pt', st')"
  shows "pte_keeps st st'" "pt_entries pt' = pt_entries pt"
proof -
  obtain pa cm where g: "getppages 1 (vm_cm st) = Some (pa, cm)"
    using assms(2) by (auto simp: pt_pagefault_handler_def bind_eq_Some_conv)
  let ?st = "st\<lparr>vm_cm := cm\<rparr>"
  have "pte_keeps st st' \<and> pt_entries pt' = pt_entries pt"
  proof (cases "ALIGN pa = 0")
    case True
    then obtain p st2 where s: "page_replace io pt ?st = Some (p, pt', st2)" "zero_out_page p st2 = Some st'"
      using assms(2) g by (auto simp: pt_pagefault_handler_def bind_eq_Some_conv Let_def)
    show ?thesis using page_replace_pte [OF _ s(1)] zero_out_page_cases(2) [OF s(2)] assms(1) by (auto simp: pte_keeps_def)
  next
    case False
    then obtain r2 where l: "loadpage io as va (ALIGN pa) ?st = Some (r2, st')" "pt' = pt"
      using assms(2) g by (auto simp: pt_pagefault_handler_def bind_eq_Some_conv Let_def)
    obtain st1 st2 off fsz where r: "vmstats_inc VMSTAT_ELF_FILE_READ ?st = Some st1" "vmstats_inc VMSTAT_PAGE_FAULT_DISK st1 = Some st2"
        "page_read io (as_vnode as) off (ALIGN (ALIGN pa) + MIPS_KSEG0) 4096 fsz st2 = Some (r2, st')"
      using l(1) by (auto simp: loadpage_def bind_eq_Some_conv Let_def)
    have 1: "st1 = ?st\<lparr>vm_stats := (vm_stats ?st)[VMSTAT_ELF_FILE_READ := stat ?st VMSTAT_ELF_FILE_READ + 1]\<rparr>"
      using vmstats_inc_high(2) [OF _ r(1)] assms(1) by simp
    have 2: "vm_pte st2 = vm_pte st1 \<and> vm_pbrk st2 = vm_pbrk st1"
      using vmstats_inc_high(2) [OF _ r(2)] assms(1) 1 by simp
    show ?thesis using page_read_pte [OF r(3)] 1 2 l(2) by (simp add: pte_keeps_def)
  qed
  then show "pte_keeps st st'" "pt_entries pt' = pt_entries pt" by blast+
qed

section \<open>Looking a page up again\<close>

text \<open>A page table whose entries exist; new entries get addresses that are not in use.\<close>

definition pt_ok :: "pagetable \<Rightarrow> 'd vmsys \<Rightarrow> bool" where
  "pt_ok pt st \<longleftrightarrow> array_invar (pt_entries pt) \<and> array_getnum (pt_entries pt) < 2 ^ 29 \<and>
     (\<forall>x \<in> set (array_elems (pt_entries pt)). vm_pte st x \<noteq> None \<and> x < vm_pbrk st)"

text \<open>The page of an entry, and the entry that a lookup of a page finds.\<close>

definition pte_page :: "'d vmsys \<Rightarrow> nat \<Rightarrow> 32 word" where
  "pte_page st x = (case vm_pte st x of None \<Rightarrow> 0 | Some e \<Rightarrow> ALIGN (pte_vaddr e))"

lemma first_index_map_cong: "(\<And>x. x \<in> set xs \<Longrightarrow> p (f x) = q x) \<Longrightarrow> first_index p (map f xs) = first_index q xs"
  by (induction xs) auto

lemma find_pte_eq:
  assumes "array_invar (pt_entries pt)" "\<forall>x \<in> set (array_elems (pt_entries pt)). vm_pte st x \<noteq> None"
  shows "find_pte pt va st = Some (map_option int (first_index (\<lambda>x. pte_page st x = va) (array_elems (pt_entries pt))))"
proof -
  let ?xs = "array_elems (pt_entries pt)" and ?es = "map (\<lambda>x. the (vm_pte st x)) (array_elems (pt_entries pt))"
  have "(array_getguy (pt_entries pt) (0 + int j) \<bind> vm_pte st) = Some (?es ! j)" if "j < length ?es" for j
  proof -
    have "?xs ! j \<in> set ?xs" using that by simp
    then have "vm_pte st (?xs ! j) \<noteq> None" using assms(2) by blast
    then show ?thesis using that by (auto simp: arr.getguy [OF assms(1)] cell_def)
  qed
  from scan_list [of ?es "\<lambda>i. array_getguy (pt_entries pt) i \<bind> vm_pte st" 0 "\<lambda>e. ALIGN (pte_vaddr e) = va", OF this]
  have "find_pte pt va st = Some (map_option int (first_index (\<lambda>e. ALIGN (pte_vaddr e) = va) ?es))"
    by (simp add: find_pte_def arr.getnum [OF assms(1)])
  moreover have "first_index (\<lambda>e. ALIGN (pte_vaddr e) = va) ?es = first_index (\<lambda>x. pte_page st x = va) ?xs"
    using assms(2) by (intro first_index_map_cong) (auto simp: pte_page_def)
  ultimately show ?thesis by simp
qed

text \<open>\<open>pt_has pt st va pte\<close>: looking up the page \<open>va\<close> finds the entry \<open>pte\<close>.\<close>

definition pt_has :: "pagetable \<Rightarrow> 'd vmsys \<Rightarrow> 32 word \<Rightarrow> nat \<Rightarrow> bool" where
  "pt_has pt st va pte \<longleftrightarrow> array_invar (pt_entries pt) \<and> (\<forall>x \<in> set (array_elems (pt_entries pt)). vm_pte st x \<noteq> None) \<and>
     (\<exists>i < length (array_elems (pt_entries pt)). array_elems (pt_entries pt) ! i = pte \<and>
        first_index (\<lambda>x. pte_page st x = va) (array_elems (pt_entries pt)) = Some i)"

lemma pte_page_keeps: "pte_keeps st st' \<Longrightarrow> vm_pte st x \<noteq> None \<Longrightarrow> pte_page st' x = pte_page st x \<and> vm_pte st' x \<noteq> None"
  unfolding pte_keeps_def pte_page_def by fastforce

lemma pt_has_keeps:
  assumes "pt_has pt st va pte" "pte_keeps st st'" "pt_entries pt' = pt_entries pt"
  shows "pt_has pt' st' va pte"
proof -
  let ?xs = "array_elems (pt_entries pt)"
  have k: "pte_page st' x = pte_page st x \<and> vm_pte st' x \<noteq> None" if "x \<in> set ?xs" for x
    using pte_page_keeps [OF assms(2)] assms(1) that by (simp add: pt_has_def)
  have "first_index (\<lambda>x. pte_page st' x = va) (map id ?xs) = first_index (\<lambda>x. pte_page st x = va) ?xs"
    using k by (intro first_index_map_cong) simp
  then show ?thesis using assms(1,3) k by (simp add: pt_has_def)
qed

lemma pt_hit_pte:
  assumes "vm_high st" "pt_hit io al pte pt st = Some (pt', st')"
  shows "pte_keeps st st' \<and> pt_entries pt' = pt_entries pt"
proof -
  obtain e where e: "vm_pte st pte = Some e" using assms(2) by (auto simp: pt_hit_def bind_eq_Some_conv)
  show ?thesis
  proof (cases "IS_VALID (pte_paddr e)")
    case True
    then have i: "vmstats_inc VMSTAT_TLB_RELOAD st = Some st'" "pt' = pt" using assms(2) e by (auto simp: pt_hit_def bind_eq_Some_conv)
    show ?thesis using vmstats_inc_high(2) [OF assms(1) i(1)] i(2) by (auto intro: pte_keepsI)
  next
    case False
    then obtain st1 st2 where r: "swapin io pte st = Some st1" "vmstats_inc VMSTAT_PAGE_FAULT_DISK st1 = Some st2"
        "push_entry io (al_push al) 0 pte pt st2 = Some (pt', st')"
      using assms(2) e by (auto simp: pt_hit_def bind_eq_Some_conv)
    have 1: "pte_keeps st st1"
      using assms(1) r(1)
    proof (rule swapin_cases)
      fix e i st0 u
      assume a: "vm_pte st pte = Some e" "vm_io (io_read io) (vm_swapfile st) (page_uio (ALIGN (pte_paddr e) + MIPS_KSEG0)
          (word_of_int i * 4096) UIO_READ) st = Some (Inr (), u, st0)"
        "st1 = st0\<lparr>vm_stats := (vm_stats st0)[VMSTAT_SWAP_FILE_READ := stat st0 VMSTAT_SWAP_FILE_READ + 1],
               vm_pte := (vm_pte st0)(pte \<mapsto> e\<lparr>pte_paddr := SET_VALID (ALIGN (pte_paddr e))\<rparr>)\<rparr>"
      then show ?thesis using vm_io_keeps(1) [OF a(2)] by (auto simp: pte_keeps_def)
    qed
    have h1: "vm_high st1" using swapin_keeps [OF assms(1) r(1)] assms(1) by (simp add: pg_keeps_def)
    have 2: "pte_keeps st1 st2" "vm_high st2" using vmstats_inc_high(2) [OF h1 r(2)] h1 by (auto intro: pte_keepsI)
    show ?thesis using 1 2(1) push_entry_pte [OF r(3) 2(2)] by (auto intro: pte_keeps_trans)
  qed
qed

lemma pt_miss_pte:
  assumes "vm_high st" "length (vm_stats st) = VMSTAT_COUNT" "pt_ok pt st" "\<forall>x \<in> set (array_elems (pt_entries pt)). pte_page st x \<noteq> va"
    and "pt_miss io al as pt va st = Some (pte, pt', st')" "ALIGN va = va"
  shows "pt_has pt' st' va pte"
proof -
  obtain pt1 st1 st2 p pt3 st3 pt5 st5 where r: "alloc_entry io (al_pte al) 0 pt st = Some (pt1, st1)" "pte = vm_pbrk st1"
      "st2 = st1\<lparr>vm_pbrk := Suc pte, vm_pte := (vm_pte st1)(pte \<mapsto> \<lparr>pte_vaddr = va, pte_paddr = 0\<rparr>)\<rparr>"
      "pt_pagefault_handler io as pt1 va st2 = Some (Inr p, pt3, st3)"
      "add_entry io (al_add al) 0 pte pt3 (st3\<lparr>vm_pte := (vm_pte st3)(pte \<mapsto> \<lparr>pte_vaddr = va, pte_paddr = p\<rparr>)\<rparr>) = Some (pt5, st5)"
      "push_entry io (al_push al) 0 pte pt5 st5 = Some (pt', st')"
    using assms(5) by (auto simp: pt_miss_def bind_eq_Some_conv Let_def case_Inr_eq_Some)
  let ?xs = "array_elems (pt_entries pt)" and ?st4 = "st3\<lparr>vm_pte := (vm_pte st3)(pte \<mapsto> \<lparr>pte_vaddr = va, pte_paddr = p\<rparr>)\<rparr>"
  have 1: "pte_keeps st st1" "pt_entries pt1 = pt_entries pt" using alloc_entry_pte [OF r(1) assms(1)] by simp_all
  have old: "pte_page st1 x = pte_page st x \<and> vm_pte st1 x \<noteq> None \<and> x < pte" if "x \<in> set ?xs" for x
    using pte_page_keeps [OF 1(1), of x] assms(3) that 1(1) r(2) by (simp add: pt_ok_def pte_keeps_def)
  have h2: "vm_high st2" "length (vm_stats st2) = VMSTAT_COUNT"
    using alloc_entry_keeps [OF r(1) assms(1)] assms(1,2) r(3) by (simp_all add: pg_keeps_def)
  have 2: "pte_page st2 pte = va" "vm_pte st2 pte \<noteq> None" "pte_page st2 x = pte_page st x \<and> vm_pte st2 x \<noteq> None" if "x \<in> set ?xs" for x
    using old that assms(6) by (auto simp: r(3) pte_page_def)
  have 3: "pte_keeps st2 st3" "pt_entries pt3 = pt_entries pt1" "vm_high st3"
    using pt_pagefault_handler_pte [OF h2(1) r(4)] pt_pagefault_handler_keeps [OF h2(1) r(4) h2(2)] h2(1) by (simp_all add: pg_keeps_def)
  have 4: "pte_keeps st2 ?st4" using 3(1) by (auto simp: pte_keeps_def r(3))
  have pt3: "pt_entries pt3 = pt_entries pt" using 3(2) 1(2) by simp
  have ai: "array_invar (pt_entries pt3)" "array_getnum (pt_entries pt3) < 2 ^ 29" using assms(3) pt3 by (simp_all add: pt_ok_def)
  have 5: "pte_keeps ?st4 st5" "array_invar (pt_entries pt5)" "array_elems (pt_entries pt5) = ?xs @ [pte]"
    using add_entry_pte [OF r(5) _ ai] 3(3) pt3 by simp_all
  have k5: "pte_keeps st2 st5" using 4 5(1) by (rule pte_keeps_trans)
  have new: "pte_page st5 pte = va" "vm_pte st5 pte \<noteq> None" using pte_page_keeps [OF k5, of pte] by (auto simp: r(3) pte_page_def assms(6))
  have oldx: "pte_page st5 x \<noteq> va \<and> vm_pte st5 x \<noteq> None" if "x \<in> set ?xs" for x
    using pte_page_keeps [OF k5, of x] 2(3) [OF that] assms(4) that by simp
  then have "first_index (\<lambda>x. pte_page st5 x = va) ?xs = None" by (simp add: first_index_None_iff)
  then have "first_index (\<lambda>x. pte_page st5 x = va) (?xs @ [pte]) = Some (length ?xs)" using new(1) by (rule first_index_append)
  then have has: "pt_has pt5 st5 va pte" using 5(2,3) new(2) oldx by (auto simp: pt_has_def)
  have "vm_high st5" using add_entry_keeps [OF r(5)] 3(3) by (simp add: pg_keeps_def)
  from push_entry_pte [OF r(6) this] show ?thesis using pt_has_keeps [OF has] by simp
qed

lemma set_valid_pte:
  assumes "set_valid_entry pte st = Some (p, st')"
  shows "\<exists>e. vm_pte st' pte = Some e \<and> pte_paddr e = SET_VALID p \<and> p = ALIGN p \<and> pte_keeps st st' \<and> vm_sy st' = vm_sy st \<and>
     vm_stats st' = vm_stats st"
  using assms by (auto simp: set_valid_entry_def bind_eq_Some_conv pte_keeps_def)

lemma pt_lookup_has:
  assumes "vm_high st" "length (vm_stats st) = VMSTAT_COUNT" "pt_ok pt st" "pt_lookup io al as pt va st = Some (p, pt', st')"
  shows "\<exists>pte e. pt_has pt' st' (ALIGN va) pte \<and> vm_pte st' pte = Some e \<and> pte_paddr e = SET_VALID p \<and> p = ALIGN p"
proof -
  let ?xs = "array_elems (pt_entries pt)"
  let ?f = "first_index (\<lambda>x. pte_page st x = ALIGN va) ?xs"
  have ok: "array_invar (pt_entries pt)" "\<forall>x \<in> set ?xs. vm_pte st x \<noteq> None" using assms(3) by (simp_all add: pt_ok_def)
  obtain pte st1 where r: "(case map_option int ?f of
        Some i \<Rightarrow> do { pte \<leftarrow> array_getguy (pt_entries pt) i; (pt1, st1) \<leftarrow> pt_hit io al pte pt st; Some (pte, pt1, st1) }
      | None \<Rightarrow> pt_miss io al as pt (ALIGN va) st) = Some (pte, pt', st1)" "set_valid_entry pte st1 = Some (p, st')"
    using assms(4) by (auto simp: pt_lookup_def find_pte_eq [OF ok] bind_eq_Some_conv Let_def)
  have has: "pt_has pt' st1 (ALIGN va) pte"
  proof (cases ?f)
    case None
    then have "pt_miss io al as pt (ALIGN va) st = Some (pte, pt', st1)" using r(1) by simp
    moreover have "\<forall>x \<in> set ?xs. pte_page st x \<noteq> ALIGN va" using None by (simp add: first_index_None_iff)
    ultimately show ?thesis using pt_miss_pte [OF assms(1-3)] by simp
  next
    case (Some i)
    then have i: "i < length ?xs" by (simp add: first_index_Some_iff)
    then obtain "?xs ! i = pte" "pt_hit io al pte pt st = Some (pt', st1)"
      using r(1) Some by (auto simp: arr.getguy [OF ok(1)] cell_def bind_eq_Some_conv)
    moreover from this have "pt_has pt st (ALIGN va) pte" using ok Some i by (auto simp: pt_has_def)
    ultimately show ?thesis using pt_hit_pte [OF assms(1)] pt_has_keeps by blast
  qed
  obtain e where "vm_pte st' pte = Some e" "pte_paddr e = SET_VALID p" "p = ALIGN p" "pte_keeps st1 st'"
    using set_valid_pte [OF r(2)] by blast
  then show ?thesis using pt_has_keeps [OF has] by blast
qed

text \<open>
  Claim C2: a page stays where it was found. After \<^verbatim>\<open>pt_lookup\<close> has returned the frame of a page, with or without
  loading, swapping or evicting, looking up the same page again returns the same frame and changes nothing but the
  count of reloads, even when no memory can be allocated any more.
\<close>

theorem pt_lookup_stable:
  assumes "vm_high st" "length (vm_stats st) = VMSTAT_COUNT" "pt_ok pt st" "pt_lookup io al as pt va st = Some (p, pt', st')"
  shows "pt_lookup io al' as pt' va st' = Some (p, pt', st'\<lparr>vm_stats := (vm_stats st')[VMSTAT_TLB_RELOAD := stat st' VMSTAT_TLB_RELOAD + 1]\<rparr>)"
proof -
  obtain pte e where e: "pt_has pt' st' (ALIGN va) pte" "vm_pte st' pte = Some e" "pte_paddr e = SET_VALID p" "p = ALIGN p"
    using pt_lookup_has [OF assms] by blast
  let ?xs = "array_elems (pt_entries pt')"
  obtain i where i: "array_invar (pt_entries pt')" "\<forall>x \<in> set ?xs. vm_pte st' x \<noteq> None" "i < length ?xs" "?xs ! i = pte"
      "first_index (\<lambda>x. pte_page st' x = ALIGN va) ?xs = Some i"
    using e(1) by (auto simp: pt_has_def)
  have h: "vm_high st'" "length (vm_stats st') = VMSTAT_COUNT"
    using pt_lookup_paged [OF assms(1,2,4)] assms(1,2) by (simp_all add: paged_def pg_keeps_def)
  have inc: "vmstats_inc VMSTAT_TLB_RELOAD st' = Some (st'\<lparr>vm_stats := (vm_stats st')[VMSTAT_TLB_RELOAD := stat st' VMSTAT_TLB_RELOAD + 1]\<rparr>)"
    by (rule vmstats_inc_eq [OF h]) (simp add: vmstat_defs)
  have "e\<lparr>pte_paddr := SET_VALID p\<rparr> = e" using e(3) by (cases e) simp
  then have same: "(vm_pte st')(pte \<mapsto> e\<lparr>pte_paddr := SET_VALID p\<rparr>) = vm_pte st'" "ALIGN (SET_VALID p) = p"
    using e(2,4) ALIGN_bits(3) [of p] by (simp_all only: fun_upd_idem)
  have hit: "pt_hit io al' pte pt' st' = Some (pt', st'\<lparr>vm_stats := (vm_stats st')[VMSTAT_TLB_RELOAD := stat st' VMSTAT_TLB_RELOAD + 1]\<rparr>)"
    using e(2,3) inc by (simp add: pt_hit_def)
  have g: "array_getguy (pt_entries pt') (int i) = Some pte" using i by (simp add: arr.getguy)
  show ?thesis
    by (simp add: pt_lookup_def find_pte_eq [OF i(1,2)] i(5) g hit set_valid_entry_def e(2,3) same)
qed

section \<open>Copies and destruction of address spaces\<close>


text \<open>Defining two regions takes four references to the program file, destroying the address space gives one back.\<close>

lemma two_regions_vref:
  assumes "4096 \<le> unat va1" "4096 \<le> unat va2"
    and "two_regions v (va1, fs1, of1, sz1, r1, w1, x1) (va2, fs2, of2, sz2, r2, w2, x2) st = Some (Inr (), as, st1)"
    and "as_destroy as st1 = Some st2"
  shows "vm_vref st2 v = vm_vref st v + 3"
proof -
  note nz = page_base_nz [OF assms(1)] page_base_nz [OF assms(2)]
  have "vm_vref st1 v = vm_vref st v + 4 \<and> as_vnode as = Some v"
    using assms(3) nz
    by (auto simp: two_regions_def as_create_def as_define_first as_define_second as_prepare_load_def bind_eq_Some_conv split: if_splits)
  then show ?thesis using assms(4) by (auto simp: as_destroy_def bind_eq_Some_conv)
qed

section \<open>Witnesses\<close>

text \<open>A swap file kept as an array of pages, and a machine of two frames whose only entry is for the page in frame 1.\<close>

definition wit_io :: "(nat \<Rightarrow> 8 word list) vnode_io" where
  "wit_io = \<lparr>io_read = (\<lambda>v u mem d. Some (Inr (), u, put_page (iov_kbase u) (d (nat (uio_offset u) div 4096)) mem, d)),
             io_write = (\<lambda>v u mem d. Some (Inr (), u, mem, d(nat (uio_offset u) div 4096 := mem_page (iov_kbase u) mem)))\<rparr>"

lemma swap_offset: "i < 2304 \<Longrightarrow> nat (sint (of_nat i * 4096 :: 32 word)) div 4096 = i"
proof -
  assume i: "i < 2304"
  have "of_nat i * (4096 :: 32 word) = of_nat (i * 4096)" by simp
  moreover have "sint (of_nat (i * 4096) :: 32 word) = int (i * 4096)"
    using i by (simp add: signed_of_nat signed_take_bit_int_eq_self del: of_nat_mult)
  ultimately show ?thesis by simp
qed

lemma wit_io_swap_file: "swap_file wit_io v (\<lambda>d. d)"
  by (simp add: swap_file_def wit_io_def page_uio_def swap_offset)

definition wit_pg :: "(nat \<Rightarrow> 8 word list) vmsys" where
  "wit_pg = (wit_vm (\<lambda>_. []))\<lparr>vm_sy := (vm_sy (wit_vm ()))\<lparr>sy_ts := (sy_ts (vm_sy (wit_vm ())))\<lparr>ts_spl := 15\<rparr>\<rparr>,
     vm_cm := wit_coremap\<lparr>cm_map := [\<lparr>cme_paddr = 4096, cme_use = 1, cme_size = 1\<rparr>], cm_mem := replicate 8192 7\<rparr>,
     vm_pte := [0 \<mapsto> \<lparr>pte_vaddr = 0x400000, pte_paddr = 0x1001\<rparr>], vm_pbrk := 1\<rparr>"

definition wit_pt :: pagetable where
  "wit_pt = \<lparr>pt_entries = \<lparr>arr_num = 1, arr_max = 1, arr_v = Some [Some 0]\<rparr>,
     pt_fifo = \<lparr>ll_head = Some 0, ll_tail = Some 0, ll_size = 1, ll_nodes = [0 \<mapsto> \<lparr>n_data = 0, n_next = None\<rparr>], ll_brk = 1\<rparr>\<rparr>"

lemma wit_pg_facts: "vm_high wit_pg" "vm_swapfile wit_pg = Some 0" "vm_pte wit_pg 0 = Some \<lparr>pte_vaddr = 0x400000, pte_paddr = 0x1001\<rparr>"
  "ALIGN 0x1001 = 0x1000" "length (cm_mem (vm_cm wit_pg)) = 8192" "length (vm_stats wit_pg) = VMSTAT_COUNT" "swap_ok wit_pg []"
  by (simp_all add: wit_pg_def wit_vm_def swap_ok_def MAX_SWAPPED_PAGES_def ALIGN_def PAGE_FRAME_def)

theorem swap_roundtrip_witness:
  "\<exists>st1 st2. swapout wit_io 0 wit_pg = Some st1 \<and> swapin wit_io 0 (with_mem (replicate 8192 0) st1) = Some st2 \<and>
     mem_page 4096 (cm_mem (vm_cm st2)) = replicate 4096 7"
proof -
  have m: "mem_page 4096 (cm_mem (vm_cm wit_pg)) = replicate 4096 7" by (simp add: wit_pg_def mem_page_def)
  show ?thesis
    using swap_roundtrip [OF wit_io_swap_file wit_pg_facts(1-3) _ wit_pg_facts(6,7)] m
    by (auto simp: wit_pg_facts(4,5) dest!: spec [of _ "replicate 8192 0"])
qed

theorem swap_frame_reuse_corrupts_witness:
  "\<exists>st1 st2 st3. swapout wit_io 0 wit_pg = Some st1 \<and>
     swapout wit_io 1 ((with_mem (replicate 8192 9) st1)\<lparr>vm_pte := (vm_pte st1)(1 \<mapsto>
       \<lparr>pte_vaddr = 0x401000, pte_paddr = SET_VALID 0x1000\<rparr>)\<rparr>) = Some st2 \<and>
     swapin wit_io 0 st2 = Some st3 \<and> mem_page 4096 (cm_mem (vm_cm st3)) = replicate 4096 9"
proof -
  have "mem_page 4096 (replicate 8192 (9 :: 8 word)) = replicate 4096 9" by (simp add: mem_page_def)
  then show ?thesis
    using swap_frame_reuse_corrupts [OF wit_io_swap_file wit_pg_facts(1-3) one_neq_zero _ wit_pg_facts(6,7)]
    by (auto simp: wit_pg_facts(4,5) dest!: spec [of _ "0x401000"] spec [of _ "replicate 8192 9"])
qed


theorem pt_lookup_stable_witness:
  "\<exists>st'. pt_lookup wit_io \<lparr>al_pte = \<lambda>_. True, al_add = \<lambda>_. True, al_push = \<lambda>_. True\<rparr> wit_as wit_pt 0x400010 wit_pg =
       Some (0x1000, wit_pt, st') \<and>
     pt_lookup wit_io \<lparr>al_pte = \<lambda>_. False, al_add = \<lambda>_. False, al_push = \<lambda>_. False\<rparr> wit_as wit_pt 0x400010 st' =
       Some (0x1000, wit_pt, st'\<lparr>vm_stats := (vm_stats st')[VMSTAT_TLB_RELOAD := stat st' VMSTAT_TLB_RELOAD + 1]\<rparr>)"
proof -
  have ok: "pt_ok wit_pt wit_pg"
    by (simp add: pt_ok_def wit_pt_def wit_pg_def array_invar_def array_wf_def array_full_def array_elems_def array_getnum_def)
  have inc: "vmstats_inc VMSTAT_TLB_RELOAD wit_pg =
      Some (wit_pg\<lparr>vm_stats := (vm_stats wit_pg)[VMSTAT_TLB_RELOAD := stat wit_pg VMSTAT_TLB_RELOAD + 1]\<rparr>)"
    by (rule vmstats_inc_eq [OF wit_pg_facts(1,6)]) (simp add: vmstat_defs)
  have "\<exists>st'. pt_lookup wit_io \<lparr>al_pte = \<lambda>_. True, al_add = \<lambda>_. True, al_push = \<lambda>_. True\<rparr> wit_as wit_pt 0x400010 wit_pg =
       Some (0x1000, wit_pt, st')"
    by (simp add: pt_lookup_def find_pte_def wit_pt_def array_getnum_def array_getguy_def cell_def pt_hit_def inc
        set_valid_entry_def wit_pg_facts(3) ALIGN_def PAGE_FRAME_def IS_VALID_def SET_VALID_def)
  then show ?thesis using pt_lookup_stable [OF wit_pg_facts(1,6) ok] by blast
qed

end
