(* ===== verification/Kern_Vfs.thy ===== *)
theory Kern_Vfs
  imports Kern_Synch Kern_Uio
begin

text \<open>
  The virtual file system layer: vnodes (\<^verbatim>\<open>kern/fs/vfs/vnode.c\<close>), the current directory
  (\<^verbatim>\<open>vfscwd.c\<close>), the table of devices (\<^verbatim>\<open>vfslist.c\<close>), pathname translation
  (\<^verbatim>\<open>vfslookup.c\<close>), the operations on pathnames (\<^verbatim>\<open>vfspath.c\<close>), and devices as files
  (\<^verbatim>\<open>device.c\<close>, \<^verbatim>\<open>devnull.c\<close>). File systems are reached through tables of function pointers
  only; the tables are a parameter.
\<close>

section \<open>Data\<close>

text \<open>\<open>vn_ops\<close> is the magic number of the table of operations the vnode points to.\<close>

record vnode =
  vn_refcount :: int
  vn_opencount :: int
  vn_countlock :: "nat option"
  vn_fs :: "nat option"
  vn_data :: "nat option"
  vn_ops :: "32 word option"

record knowndev =
  kd_name :: string
  kd_rawname :: "string option"
  kd_device :: "nat option"
  kd_vnode :: nat
  kd_fs :: "nat option"

record device =
  d_blocks :: "32 word"
  d_blocksize :: "32 word"

record kstat =
  st_mode :: "32 word"
  st_nlink :: "32 word"
  st_size :: int
  st_blocks :: "32 word"

text \<open>
  The state: locks, the vnodes, devices and entries of the device table in memory (\<open>vs_brk\<close> is the next free
  address), the globals, the current directory of the running thread, and the state \<open>'d\<close> of the file systems.
\<close>

record 'd vfs =
  vs_sy :: syn
  vs_vn :: "nat \<Rightarrow> vnode option"
  vs_dev :: "nat \<Rightarrow> device option"
  vs_kd :: "nat \<Rightarrow> knowndev option"
  vs_brk :: nat
  vs_cwd :: "nat option"
  vs_bootfs :: "nat option"
  vs_bootlock :: "nat option"
  vs_devs :: "nat karray"
  vs_devlock :: "nat option"
  vs_disk :: 'd

text \<open>Strings are taken by value: a caller's buffer that a callee may scribble on is not used afterwards.\<close>

type_synonym ('d, 'a) vop = "'d vfs \<Rightarrow> ((errno + 'a) \<times> 'd vfs) option"
type_synonym 'd uop = "uio \<Rightarrow> xfer \<Rightarrow> 'd vfs \<Rightarrow> ((errno + unit) \<times> uio \<times> xfer \<times> 'd vfs) option"

record 'd vnode_ops =
  vop_open :: "nat \<Rightarrow> int \<Rightarrow> ('d, unit) vop"
  vop_close :: "nat \<Rightarrow> ('d, unit) vop"
  vop_reclaim :: "nat \<Rightarrow> ('d, unit) vop"
  vop_read :: "nat \<Rightarrow> 'd uop"
  vop_readlink :: "nat \<Rightarrow> 'd uop"
  vop_getdirentry :: "nat \<Rightarrow> 'd uop"
  vop_write :: "nat \<Rightarrow> 'd uop"
  vop_ioctl :: "nat \<Rightarrow> int \<Rightarrow> 32 word \<Rightarrow> ('d, unit) vop"
  vop_stat :: "nat \<Rightarrow> ('d, kstat) vop"
  vop_gettype :: "nat \<Rightarrow> ('d, 32 word) vop"
  vop_tryseek :: "nat \<Rightarrow> int \<Rightarrow> ('d, unit) vop"
  vop_fsync :: "nat \<Rightarrow> ('d, unit) vop"
  vop_mmap :: "nat \<Rightarrow> ('d, unit) vop"
  vop_truncate :: "nat \<Rightarrow> int \<Rightarrow> ('d, unit) vop"
  vop_namefile :: "nat \<Rightarrow> 'd uop"
  vop_creat :: "nat \<Rightarrow> string \<Rightarrow> bool \<Rightarrow> ('d, nat) vop"
  vop_symlink :: "nat \<Rightarrow> string \<Rightarrow> string \<Rightarrow> ('d, unit) vop"
  vop_mkdir :: "nat \<Rightarrow> string \<Rightarrow> ('d, unit) vop"
  vop_link :: "nat \<Rightarrow> string \<Rightarrow> nat \<Rightarrow> ('d, unit) vop"
  vop_remove :: "nat \<Rightarrow> string \<Rightarrow> ('d, unit) vop"
  vop_rmdir :: "nat \<Rightarrow> string \<Rightarrow> ('d, unit) vop"
  vop_rename :: "nat \<Rightarrow> string \<Rightarrow> nat \<Rightarrow> string \<Rightarrow> ('d, unit) vop"
  vop_lookup :: "nat \<Rightarrow> string \<Rightarrow> ('d, nat) vop"
  vop_lookparent :: "nat \<Rightarrow> string \<Rightarrow> nat \<Rightarrow> ('d, nat \<times> string) vop"
  fs_sync :: "nat \<Rightarrow> ('d, unit) vop"
  fs_getvolname :: "nat \<Rightarrow> 'd vfs \<Rightarrow> string option"
  fs_getroot :: "nat \<Rightarrow> 'd vfs \<Rightarrow> (nat \<times> 'd vfs) option"
  fs_unmount :: "nat \<Rightarrow> ('d, unit) vop"

section \<open>Vnodes\<close>

definition VOP_MAGIC :: "32 word" where
  "VOP_MAGIC = 0xa2b3c4d5"

abbreviation put_vn :: "nat \<Rightarrow> vnode \<Rightarrow> 'd vfs \<Rightarrow> 'd vfs" where
  "put_vn v vn st \<equiv> st\<lparr>vs_vn := (vs_vn st)(v \<mapsto> vn)\<rparr>"

text \<open>\<open>l\<close> is the address of the lock that \<^verbatim>\<open>lock_create\<close> makes, if it can.\<close>

definition vnode_init :: "nat option \<Rightarrow> nat \<Rightarrow> 32 word \<Rightarrow> nat option \<Rightarrow> nat option \<Rightarrow> ('d, unit) vop" where
  "vnode_init l v magic fs fsdata st = do {
     vn \<leftarrow> vs_vn st v;
     let vn1 = vn\<lparr>vn_ops := Some magic, vn_refcount := 1, vn_opencount := 0, vn_countlock := l\<rparr>;
     (case l of
        None \<Rightarrow> Some (Inl ENOMEM, put_vn v vn1 st)
      | Some a \<Rightarrow> do {
          lk \<leftarrow> lock_create True True True True;
          let st1 = st\<lparr>vs_sy := (vs_sy st)\<lparr>sy_lock := (sy_lock (vs_sy st))(a \<mapsto> lk)\<rparr>\<rparr>;
          Some (Inr (), put_vn v (vn1\<lparr>vn_fs := fs, vn_data := fsdata\<rparr>) st1) }) }"

definition vnode_kill :: "nat \<Rightarrow> 'd vfs \<Rightarrow> 'd vfs option" where
  "vnode_kill v st = do {
     vn \<leftarrow> vs_vn st v;
     kassert (vn_refcount vn = 1);
     kassert (vn_opencount vn = 0);
     l \<leftarrow> vn_countlock vn;
     sy \<leftarrow> lock_destroy l (vs_sy st);
     Some (put_vn v \<lparr>vn_refcount = 0, vn_opencount = 0, vn_countlock = None, vn_fs = None, vn_data = None, vn_ops = None\<rparr>
             (st\<lparr>vs_sy := sy\<rparr>)) }"

definition vnode_incref :: "nat \<Rightarrow> 'd vfs \<Rightarrow> 'd vfs option" where
  "vnode_incref v st = do {
     vn \<leftarrow> vs_vn st v;
     sy1 \<leftarrow> lock_take (vn_countlock vn) (vs_sy st);
     let st1 = put_vn v (vn\<lparr>vn_refcount := c_int (vn_refcount vn + 1)\<rparr>) (st\<lparr>vs_sy := sy1\<rparr>);
     sy2 \<leftarrow> lock_give (vn_countlock vn) (vs_sy st1);
     Some (st1\<lparr>vs_sy := sy2\<rparr>) }"

text \<open>\<open>opstr\<close> is the name of the operation; the message about a large count is not modelled.\<close>

definition vnode_check :: "string \<Rightarrow> nat \<Rightarrow> 'd vfs \<Rightarrow> 'd vfs option" where
  "vnode_check opstr v st = do {
     vn \<leftarrow> vs_vn st v;
     magic \<leftarrow> vn_ops vn;
     kassert (magic = VOP_MAGIC);
     sy1 \<leftarrow> lock_take (vn_countlock vn) (vs_sy st);
     kassert (vn_refcount vn \<ge> 0);
     kassert (vn_refcount vn = 0 \<longrightarrow> opstr = ''reclaim'');
     kassert (vn_opencount vn \<ge> 0);
     sy2 \<leftarrow> lock_give (vn_countlock vn) sy1;
     Some (st\<lparr>vs_sy := sy2\<rparr>) }"

definition VOP :: "string \<Rightarrow> nat \<Rightarrow> ('d vfs \<Rightarrow> 'r option) \<Rightarrow> 'd vfs \<Rightarrow> 'r option" where
  "VOP opstr v f st = do { st1 \<leftarrow> vnode_check opstr v st; f st1 }"

definition vnode_decref :: "'d vnode_ops \<Rightarrow> nat \<Rightarrow> 'd vfs \<Rightarrow> 'd vfs option" where
  "vnode_decref ops v st = do {
     vn \<leftarrow> vs_vn st v;
     sy1 \<leftarrow> lock_take (vn_countlock vn) (vs_sy st);
     kassert (vn_refcount vn > 0);
     let actually_do_it = (\<not> vn_refcount vn > 1);
     let st1 = (if vn_refcount vn > 1 then put_vn v (vn\<lparr>vn_refcount := vn_refcount vn - 1\<rparr>) (st\<lparr>vs_sy := sy1\<rparr>)
                else st\<lparr>vs_sy := sy1\<rparr>);
     sy2 \<leftarrow> lock_give (vn_countlock vn) (vs_sy st1);
     let st2 = st1\<lparr>vs_sy := sy2\<rparr>;
     if actually_do_it then do {
       (result, st3) \<leftarrow> VOP ''reclaim'' v (vop_reclaim ops v) st2;
       Some st3 }
     else Some st2 }"

definition vnode_incopen :: "nat \<Rightarrow> 'd vfs \<Rightarrow> 'd vfs option" where
  "vnode_incopen v st = do {
     vn \<leftarrow> vs_vn st v;
     sy1 \<leftarrow> lock_take (vn_countlock vn) (vs_sy st);
     let st1 = put_vn v (vn\<lparr>vn_opencount := c_int (vn_opencount vn + 1)\<rparr>) (st\<lparr>vs_sy := sy1\<rparr>);
     sy2 \<leftarrow> lock_give (vn_countlock vn) (vs_sy st1);
     Some (st1\<lparr>vs_sy := sy2\<rparr>) }"

definition vnode_decopen :: "'d vnode_ops \<Rightarrow> nat \<Rightarrow> 'd vfs \<Rightarrow> 'd vfs option" where
  "vnode_decopen ops v st = do {
     vn \<leftarrow> vs_vn st v;
     sy1 \<leftarrow> lock_take (vn_countlock vn) (vs_sy st);
     kassert (vn_opencount vn > 0);
     let opencount = vn_opencount vn - 1;
     let st1 = put_vn v (vn\<lparr>vn_opencount := opencount\<rparr>) (st\<lparr>vs_sy := sy1\<rparr>);
     sy2 \<leftarrow> lock_give (vn_countlock vn) (vs_sy st1);
     let st2 = st1\<lparr>vs_sy := sy2\<rparr>;
     if opencount > 0 then Some st2
     else do {
       (result, st3) \<leftarrow> VOP ''close'' v (vop_close ops v) st2;
       Some st3 } }"

section \<open>The current directory\<close>

definition S_IFMT :: "32 word" where "S_IFMT = 0x7000"
definition S_IFREG :: "32 word" where "S_IFREG = 0x1000"
definition S_IFDIR :: "32 word" where "S_IFDIR = 0x2000"
definition S_IFLNK :: "32 word" where "S_IFLNK = 0x3000"
definition S_IFCHR :: "32 word" where "S_IFCHR = 0x4000"
definition S_IFBLK :: "32 word" where "S_IFBLK = 0x5000"

definition vfs_getcurdir :: "('d, nat) vop" where
  "vfs_getcurdir st = (case vs_cwd st of
     None \<Rightarrow> Some (Inl ENOENT, st)
   | Some d \<Rightarrow> do { st1 \<leftarrow> vnode_incref d st; Some (Inr d, st1) })"

definition drop_old :: "'d vnode_ops \<Rightarrow> nat option \<Rightarrow> 'd vfs \<Rightarrow> 'd vfs option" where
  "drop_old ops old st = (case old of None \<Rightarrow> Some st | Some v \<Rightarrow> vnode_decref ops v st)"

definition vfs_setcurdir :: "'d vnode_ops \<Rightarrow> nat \<Rightarrow> ('d, unit) vop" where
  "vfs_setcurdir ops dir st = do {
     (r, st1) \<leftarrow> VOP ''gettype'' dir (vop_gettype ops dir) st;
     (case r of
        Inl e \<Rightarrow> Some (Inl e, st1)
      | Inr vtype \<Rightarrow>
          if vtype AND S_IFMT \<noteq> S_IFDIR then Some (Inl ENOTDIR, st1)
          else do {
            st2 \<leftarrow> vnode_incref dir st1;
            let old = vs_cwd st2;
            st3 \<leftarrow> drop_old ops old (st2\<lparr>vs_cwd := Some dir\<rparr>);
            Some (Inr (), st3) }) }"

definition vfs_clearcurdir :: "'d vnode_ops \<Rightarrow> ('d, unit) vop" where
  "vfs_clearcurdir ops st = do {
     let old = vs_cwd st;
     st1 \<leftarrow> drop_old ops old (st\<lparr>vs_cwd := None\<rparr>);
     Some (Inr (), st1) }"

section \<open>The table of devices\<close>

definition vfs_initbootfs :: "nat option \<Rightarrow> 'd vfs \<Rightarrow> 'd vfs option" where
  "vfs_initbootfs l st = do {
     a \<leftarrow> l;
     lk \<leftarrow> lock_create True True True True;
     Some (st\<lparr>vs_bootlock := Some a, vs_sy := (vs_sy st)\<lparr>sy_lock := (sy_lock (vs_sy st))(a \<mapsto> lk)\<rparr>\<rparr>) }"

fun sync_loop :: "'d vnode_ops \<Rightarrow> nat \<Rightarrow> int \<Rightarrow> 'd vfs \<Rightarrow> 'd vfs option" where
  "sync_loop ops 0 i st = Some st"
| "sync_loop ops (Suc n) i st = do {
     p \<leftarrow> array_getguy (vs_devs st) i;
     dev \<leftarrow> vs_kd st p;
     st1 \<leftarrow> (case kd_fs dev of None \<Rightarrow> Some st | Some fs \<Rightarrow> do { (r, st1) \<leftarrow> fs_sync ops fs st; Some st1 });
     sync_loop ops n (i + 1) st1 }"

text \<open>\<open>dev_locked f\<close>: the body of a function between \<^verbatim>\<open>lock_acquire(knowndevs_lock)\<close> and the release.\<close>

definition dev_locked :: "('d vfs \<Rightarrow> ('r \<times> 'd vfs) option) \<Rightarrow> 'd vfs \<Rightarrow> ('r \<times> 'd vfs) option" where
  "dev_locked f st = do {
     sy1 \<leftarrow> lock_take (vs_devlock st) (vs_sy st);
     (r, st1) \<leftarrow> f (st\<lparr>vs_sy := sy1\<rparr>);
     sy2 \<leftarrow> lock_give (vs_devlock st1) (vs_sy st1);
     Some (r, st1\<lparr>vs_sy := sy2\<rparr>) }"

abbreviation num_devs :: "'d vfs \<Rightarrow> nat" where
  "num_devs st \<equiv> nat (array_getnum (vs_devs st))"

definition vfs_sync :: "'d vnode_ops \<Rightarrow> ('d, unit) vop" where
  "vfs_sync ops = dev_locked (\<lambda>st. do { st1 \<leftarrow> sync_loop ops (num_devs st) 0 st; Some (Inr (), st1) })"

fun getroot_loop :: "'d vnode_ops \<Rightarrow> string \<Rightarrow> nat \<Rightarrow> int \<Rightarrow> ('d, nat) vop" where
  "getroot_loop ops devname 0 i st = Some (Inl ENODEV, st)"
| "getroot_loop ops devname (Suc n) i st = do {
     p \<leftarrow> array_getguy (vs_devs st) i;
     kd \<leftarrow> vs_kd st p;
     (case kd_fs kd of
        Some fs \<Rightarrow>
          if kd_name kd = devname \<or> fs_getvolname ops fs st = Some devname then do {
            (v, st1) \<leftarrow> fs_getroot ops fs st;
            Some (Inr v, st1) }
          else if kd_rawname kd = Some devname then do {
            kassert (kd_device kd \<noteq> None);
            st1 \<leftarrow> vnode_incref (kd_vnode kd) st;
            Some (Inr (kd_vnode kd), st1) }
          else getroot_loop ops devname n (i + 1) st
      | None \<Rightarrow>
          if kd_rawname kd \<noteq> None \<and> kd_name kd = devname then Some (Inl ENXIO, st)
          else if kd_name kd = devname then do {
            kassert (kd_device kd \<noteq> None);
            st1 \<leftarrow> vnode_incref (kd_vnode kd) st;
            Some (Inr (kd_vnode kd), st1) }
          else if kd_rawname kd = Some devname then do {
            kassert (kd_device kd \<noteq> None);
            st1 \<leftarrow> vnode_incref (kd_vnode kd) st;
            Some (Inr (kd_vnode kd), st1) }
          else getroot_loop ops devname n (i + 1) st) }"

definition vfs_getroot :: "'d vnode_ops \<Rightarrow> string \<Rightarrow> ('d, nat) vop" where
  "vfs_getroot ops devname = dev_locked (\<lambda>st. getroot_loop ops devname (num_devs st) 0 st)"

definition vfs_getdevname :: "nat \<Rightarrow> 'd vfs \<Rightarrow> (string option \<times> 'd vfs) option" where
  "vfs_getdevname fs = dev_locked (\<lambda>st. do {
     found \<leftarrow> scan (\<lambda>i. do { p \<leftarrow> array_getguy (vs_devs st) i; vs_kd st p }) (\<lambda>kd. kd_fs kd = Some fs) (num_devs st) 0;
     (case found of
        None \<Rightarrow> Some (None, st)
      | Some i \<Rightarrow> do {
          p \<leftarrow> array_getguy (vs_devs st) i;
          kd \<leftarrow> vs_kd st p;
          Some (Some (kd_name kd), st) }) })"

definition mkrawname :: "bool \<Rightarrow> string \<Rightarrow> string option" where
  "mkrawname ok name = (if \<not> ok then None else Some (name @ ''raw''))"

definition samestring :: "string option \<Rightarrow> string option \<Rightarrow> bool" where
  "samestring a b = (a \<noteq> None \<and> b \<noteq> None \<and> a = b)"

definition samestring3 :: "string option \<Rightarrow> string option \<Rightarrow> string option \<Rightarrow> string option \<Rightarrow> bool" where
  "samestring3 a b c d = (samestring a b \<or> samestring a c \<or> samestring a d)"

definition badnames :: "'d vnode_ops \<Rightarrow> string option \<Rightarrow> string option \<Rightarrow> string option \<Rightarrow> 'd vfs \<Rightarrow> bool option" where
  "badnames ops n1 n2 n3 st = do {
     l \<leftarrow> vs_devlock st;
     mine \<leftarrow> lock_do_i_hold l (vs_sy st);
     kassert mine;
     found \<leftarrow> scan (\<lambda>i. do { p \<leftarrow> array_getguy (vs_devs st) i; vs_kd st p })
       (\<lambda>kd. (case kd_fs kd of None \<Rightarrow> False | Some fs \<Rightarrow> samestring3 (fs_getvolname ops fs st) n1 n2 n3) \<or>
             samestring3 (kd_rawname kd) n1 n2 n3 \<or> samestring3 (Some (kd_name kd)) n1 n2 n3) (num_devs st) 0;
     Some (found \<noteq> None) }"

text \<open>\<open>okv\<close>: the vnode can be allocated; \<open>l\<close>: the lock in it.\<close>

definition dev_create_vnode :: "bool \<Rightarrow> nat option \<Rightarrow> nat option \<Rightarrow> 'd vfs \<Rightarrow> (nat option \<times> 'd vfs) option" where
  "dev_create_vnode okv l dev st =
     (if \<not> okv then Some (None, st)
      else do {
        let v = vs_brk st;
        let vn = \<lparr>vn_refcount = 0, vn_opencount = 0, vn_countlock = None, vn_fs = None, vn_data = None, vn_ops = None\<rparr>;
        (result, st1) \<leftarrow> vnode_init l v VOP_MAGIC None dev (put_vn v vn (st\<lparr>vs_brk := Suc v\<rparr>));
        kassert (result = Inr ());
        Some (Some v, st1) })"

record doadd_allocs =
  da_name :: bool
  da_raw :: bool
  da_vnode :: bool
  da_lock :: "nat option"
  da_kd :: bool
  da_add :: bool

definition vfs_doadd ::
    "'d vnode_ops \<Rightarrow> doadd_allocs \<Rightarrow> string \<Rightarrow> bool \<Rightarrow> nat option \<Rightarrow> nat option \<Rightarrow> ('d, unit) vop" where
  "vfs_doadd ops al dname mountable dev fs st =
     (if \<not> da_name al then Some (Inl ENOMEM, st)
      else if mountable \<and> mkrawname (da_raw al) dname = None then Some (Inl ENOMEM, st)
      else do {
        let rawname = (if mountable then mkrawname (da_raw al) dname else None);
        (vno, st1) \<leftarrow> dev_create_vnode (da_vnode al) (da_lock al) dev st;
        (case vno of
           None \<Rightarrow> Some (Inl ENOMEM, st1)
         | Some v \<Rightarrow>
             if \<not> da_kd al then Some (Inl ENOMEM, st1\<lparr>vs_vn := (vs_vn st1)(v := None)\<rparr>)
             else do {
               let k = vs_brk st1;
               let st2 = st1\<lparr>vs_brk := Suc k, vs_kd := (vs_kd st1)(k \<mapsto>
                 \<lparr>kd_name = dname, kd_rawname = rawname, kd_device = dev, kd_vnode = v, kd_fs = fs\<rparr>)\<rparr>;
               let volname = (case fs of None \<Rightarrow> None | Some f \<Rightarrow> fs_getvolname ops f st2);
               dev_locked (\<lambda>st3. do {
                 bad \<leftarrow> badnames ops (Some dname) rawname volname st3;
                 if \<not> bad then do {
                   (r, a) \<leftarrow> array_add (da_add al) (vs_devs st3) k;
                   Some (r, st3\<lparr>vs_devs := a\<rparr>) }
                 else Some (Inl EEXIST, st3) }) st2 }) })"

definition vfs_adddev :: "'d vnode_ops \<Rightarrow> doadd_allocs \<Rightarrow> string \<Rightarrow> nat option \<Rightarrow> bool \<Rightarrow> ('d, unit) vop" where
  "vfs_adddev ops al devname dev mountable = vfs_doadd ops al devname mountable dev None"

definition vfs_addfs :: "'d vnode_ops \<Rightarrow> doadd_allocs \<Rightarrow> string \<Rightarrow> nat option \<Rightarrow> ('d, unit) vop" where
  "vfs_addfs ops al devname fs = vfs_doadd ops al devname False None fs"

definition findmount :: "string \<Rightarrow> 'd vfs \<Rightarrow> (errno + nat) option" where
  "findmount devname st = do {
     l \<leftarrow> vs_devlock st;
     mine \<leftarrow> lock_do_i_hold l (vs_sy st);
     kassert mine;
     found \<leftarrow> scan (\<lambda>i. do { p \<leftarrow> array_getguy (vs_devs st) i; vs_kd st p })
       (\<lambda>kd. kd_rawname kd \<noteq> None \<and> devname = kd_name kd) (num_devs st) 0;
     (case found of
        None \<Rightarrow> Some (Inl ENODEV)
      | Some i \<Rightarrow> do { p \<leftarrow> array_getguy (vs_devs st) i; Some (Inr p) }) }"

definition vfs_mount :: "(nat \<Rightarrow> ('d, nat) vop) \<Rightarrow> string \<Rightarrow> ('d, unit) vop" where
  "vfs_mount mountfunc devname = dev_locked (\<lambda>st. do {
     r \<leftarrow> findmount devname st;
     (case r of
        Inl e \<Rightarrow> Some (Inl e, st)
      | Inr p \<Rightarrow> do {
          kd \<leftarrow> vs_kd st p;
          if kd_fs kd \<noteq> None then Some (Inl EBUSY, st)
          else do {
            kassert (kd_rawname kd \<noteq> None);
            d \<leftarrow> kd_device kd;
            (r2, st1) \<leftarrow> mountfunc d st;
            (case r2 of
               Inl e \<Rightarrow> Some (Inl e, st1)
             | Inr fs \<Rightarrow> do {
                 kd1 \<leftarrow> vs_kd st1 p;
                 Some (Inr (), st1\<lparr>vs_kd := (vs_kd st1)(p \<mapsto> kd1\<lparr>kd_fs := Some fs\<rparr>)\<rparr>) }) } }) })"

definition vfs_unmount :: "'d vnode_ops \<Rightarrow> string \<Rightarrow> ('d, unit) vop" where
  "vfs_unmount ops devname = dev_locked (\<lambda>st. do {
     r \<leftarrow> findmount devname st;
     (case r of
        Inl e \<Rightarrow> Some (Inl e, st)
      | Inr p \<Rightarrow> do {
          kd \<leftarrow> vs_kd st p;
          (case kd_fs kd of
             None \<Rightarrow> Some (Inl EINVAL, st)
           | Some fs \<Rightarrow> do {
               kassert (kd_rawname kd \<noteq> None);
               kassert (kd_device kd \<noteq> None);
               (r1, st1) \<leftarrow> fs_sync ops fs st;
               (case r1 of
                  Inl e \<Rightarrow> Some (Inl e, st1)
                | Inr _ \<Rightarrow> do {
                    (r2, st2) \<leftarrow> fs_unmount ops fs st1;
                    (case r2 of
                       Inl e \<Rightarrow> Some (Inl e, st2)
                     | Inr _ \<Rightarrow> do {
                         kd1 \<leftarrow> vs_kd st2 p;
                         Some (Inr (), st2\<lparr>vs_kd := (vs_kd st2)(p \<mapsto> kd1\<lparr>kd_fs := None\<rparr>)\<rparr>) }) }) }) }) })"

text \<open>One round of the loop of \<^verbatim>\<open>vfs_unmountall\<close>: two attempts to sync, then the unmount.\<close>

definition unmount_one :: "'d vnode_ops \<Rightarrow> nat \<Rightarrow> 'd vfs \<Rightarrow> 'd vfs option" where
  "unmount_one ops p st = do {
     dev \<leftarrow> vs_kd st p;
     (case (kd_rawname dev, kd_fs dev) of
        (Some _, Some fs) \<Rightarrow> do {
          (r1, st1) \<leftarrow> fs_sync ops fs st;
          (r2, st2) \<leftarrow> (case r1 of Inl e \<Rightarrow> fs_sync ops fs st1 | Inr _ \<Rightarrow> Some (Inr (), st1));
          (case r2 of
             Inl e \<Rightarrow> Some st2
           | Inr _ \<Rightarrow> do {
               (r3, st3) \<leftarrow> fs_unmount ops fs st2;
               (case r3 of
                  Inl e \<Rightarrow> Some st3
                | Inr _ \<Rightarrow> do {
                    dev1 \<leftarrow> vs_kd st3 p;
                    Some (st3\<lparr>vs_kd := (vs_kd st3)(p \<mapsto> dev1\<lparr>kd_fs := None\<rparr>)\<rparr>) }) }) }
      | _ \<Rightarrow> Some st) }"

fun unmountall_loop :: "'d vnode_ops \<Rightarrow> nat \<Rightarrow> int \<Rightarrow> 'd vfs \<Rightarrow> 'd vfs option" where
  "unmountall_loop ops 0 i st = Some st"
| "unmountall_loop ops (Suc n) i st = do {
     p \<leftarrow> array_getguy (vs_devs st) i;
     st1 \<leftarrow> unmount_one ops p st;
     unmountall_loop ops n (i + 1) st1 }"

definition vfs_unmountall :: "'d vnode_ops \<Rightarrow> ('d, unit) vop" where
  "vfs_unmountall ops = dev_locked (\<lambda>st. do { st1 \<leftarrow> unmountall_loop ops (num_devs st) 0 st; Some (Inr (), st1) })"

section \<open>Pathname translation\<close>

text \<open>The first colon or slash of a path: the values of \<^verbatim>\<open>colon\<close> and \<^verbatim>\<open>slash\<close> after the loop.\<close>

fun first_mark :: "string \<Rightarrow> int \<Rightarrow> int \<times> int" where
  "first_mark [] i = (-1, -1)"
| "first_mark (c # cs) i =
     (if c = CHR '':'' then (i, -1) else if c = CHR ''/'' then (-1, i) else first_mark cs (i + 1))"

fun skip_slashes :: "string \<Rightarrow> string" where
  "skip_slashes [] = []"
| "skip_slashes (c # cs) = (if c = CHR ''/'' then skip_slashes cs else c # cs)"

definition getdevice :: "'d vnode_ops \<Rightarrow> string \<Rightarrow> ('d, string \<times> nat) vop" where
  "getdevice ops path st = (case first_mark path 0 of (colon, slash) \<Rightarrow>
     if colon < 0 \<and> slash \<noteq> 0 then do {
       (r, st1) \<leftarrow> vfs_getcurdir st;
       Some (map_sum id (Pair path) r, st1) }
     else if colon > 0 then do {
       (r, st1) \<leftarrow> vfs_getroot ops (take (nat colon) path) st;
       Some (map_sum id (Pair (skip_slashes (drop (nat colon + 1) path))) r, st1) }
     else do {
       kassert (colon = 0 \<or> slash = 0);
       if path ! 0 = CHR ''/'' then do {
         sy1 \<leftarrow> lock_take (vs_bootlock st) (vs_sy st);
         let st1 = st\<lparr>vs_sy := sy1\<rparr>;
         (case vs_bootfs st1 of
            None \<Rightarrow> do {
              sy2 \<leftarrow> lock_give (vs_bootlock st1) (vs_sy st1);
              Some (Inl ENOENT, st1\<lparr>vs_sy := sy2\<rparr>) }
          | Some v \<Rightarrow> do {
              st2 \<leftarrow> vnode_incref v st1;
              sy2 \<leftarrow> lock_give (vs_bootlock st2) (vs_sy st2);
              Some (Inr (skip_slashes (tl path), v), st2\<lparr>vs_sy := sy2\<rparr>) }) }
       else do {
         kassert (path ! 0 = CHR '':'');
         (r, st1) \<leftarrow> vfs_getcurdir st;
         (case r of
            Inl e \<Rightarrow> Some (Inl e, st1)
          | Inr v \<Rightarrow> do {
              vn \<leftarrow> vs_vn st1 v;
              fs \<leftarrow> vn_fs vn;
              (start, st2) \<leftarrow> fs_getroot ops fs st1;
              st3 \<leftarrow> vnode_decref ops v st2;
              Some (Inr (skip_slashes (tl path), start), st3) }) } })"

definition NAME_MAX :: nat where "NAME_MAX = 255"

definition vfs_lookparent :: "'d vnode_ops \<Rightarrow> string \<Rightarrow> nat \<Rightarrow> ('d, nat \<times> string) vop" where
  "vfs_lookparent ops path buflen st = do {
     (r, st1) \<leftarrow> getdevice ops path st;
     (case r of
        Inl e \<Rightarrow> Some (Inl e, st1)
      | Inr (sub, startvn) \<Rightarrow> do {
          (r2, st2) \<leftarrow> (if length sub = 0 then Some (Inl EINVAL, st1)
            else VOP ''lookparent'' startvn (vop_lookparent ops startvn sub buflen) st1);
          st3 \<leftarrow> vnode_decref ops startvn st2;
          Some (r2, st3) }) }"

definition vfs_lookup :: "'d vnode_ops \<Rightarrow> string \<Rightarrow> ('d, nat) vop" where
  "vfs_lookup ops path st = do {
     (r, st1) \<leftarrow> getdevice ops path st;
     (case r of
        Inl e \<Rightarrow> Some (Inl e, st1)
      | Inr (sub, startvn) \<Rightarrow>
          if length sub = 0 then Some (Inr startvn, st1)
          else do {
            (r2, st2) \<leftarrow> VOP ''lookup'' startvn (vop_lookup ops startvn sub) st1;
            st3 \<leftarrow> vnode_decref ops startvn st2;
            Some (r2, st3) }) }"

definition vfs_chdir :: "'d vnode_ops \<Rightarrow> string \<Rightarrow> ('d, unit) vop" where
  "vfs_chdir ops path st = do {
     (r, st1) \<leftarrow> vfs_lookup ops path st;
     (case r of
        Inl e \<Rightarrow> Some (Inl e, st1)
      | Inr vn \<Rightarrow> do {
          (r2, st2) \<leftarrow> vfs_setcurdir ops vn st1;
          st3 \<leftarrow> vnode_decref ops vn st2;
          Some (r2, st3) }) }"

definition change_bootfs :: "'d vnode_ops \<Rightarrow> nat option \<Rightarrow> 'd vfs \<Rightarrow> 'd vfs option" where
  "change_bootfs ops newguy st = do {
     sy1 \<leftarrow> lock_take (vs_bootlock st) (vs_sy st);
     let oldguy = vs_bootfs st;
     let st1 = st\<lparr>vs_sy := sy1, vs_bootfs := newguy\<rparr>;
     sy2 \<leftarrow> lock_give (vs_bootlock st1) (vs_sy st1);
     drop_old ops oldguy (st1\<lparr>vs_sy := sy2\<rparr>) }"

text \<open>\<^verbatim>\<open>snprintf(tmp, sizeof(tmp)-1, "%s", fsname)\<close> keeps at most 254 characters.\<close>

definition vfs_setbootfs :: "'d vnode_ops \<Rightarrow> string \<Rightarrow> ('d, unit) vop" where
  "vfs_setbootfs ops fsname st =
     (let tmp = take (NAME_MAX - 1) fsname;
          s = dropWhile (\<lambda>c. c \<noteq> CHR '':'') tmp in
      if s \<noteq> [] \<and> length s > 0 then Some (Inl EINVAL, st)
      else do {
        let tmp1 = (if s \<noteq> [] then tmp else tmp @ '':'');
        (r, st1) \<leftarrow> vfs_chdir ops tmp1 st;
        (case r of
           Inl e \<Rightarrow> Some (Inl e, st1)
         | Inr _ \<Rightarrow> do {
             (r2, st2) \<leftarrow> vfs_getcurdir st1;
             (case r2 of
                Inl e \<Rightarrow> Some (Inl e, st2)
              | Inr newguy \<Rightarrow> do {
                  st3 \<leftarrow> change_bootfs ops (Some newguy) st2;
                  Some (Inr (), st3) }) }) })"

definition vfs_clearbootfs :: "'d vnode_ops \<Rightarrow> 'd vfs \<Rightarrow> 'd vfs option" where
  "vfs_clearbootfs ops = change_bootfs ops None"

text \<open>\<open>cs\<close> is the address space the transfer runs in; the name of the volume ends up in the buffer of the transfer.\<close>

definition vfs_getcwd :: "'d vnode_ops \<Rightarrow> nat option \<Rightarrow> 'd uop" where
  "vfs_getcwd ops cs u x st = do {
     kassert (uio_rw u = UIO_READ);
     (r, st1) \<leftarrow> vfs_getcurdir st;
     (case r of
        Inl e \<Rightarrow> Some (Inl e, u, x, st1)
      | Inr cwd \<Rightarrow> do {
          vn \<leftarrow> vs_vn st1 cwd;
          fs \<leftarrow> vn_fs vn;
          (nm, st2) \<leftarrow> (case fs_getvolname ops fs st1 of None \<Rightarrow> vfs_getdevname fs st1 | Some s \<Rightarrow> Some (Some s, st1));
          name \<leftarrow> nm;
          (r1, u1, x1) \<leftarrow> uiomove cs (length name) u (x\<lparr>x_buf := map (of_nat \<circ> of_char) name\<rparr>);
          (r3, u3, x3, st3) \<leftarrow> (case r1 of
             Inl e \<Rightarrow> Some (Inl e, u1, x1, st2)
           | Inr _ \<Rightarrow> do {
               (r2, u2, x2) \<leftarrow> uiomove cs 1 u1 (x1\<lparr>x_buf := [of_nat (of_char (CHR '':''))]\<rparr>);
               (case r2 of
                  Inl e \<Rightarrow> Some (Inl e, u2, x2, st2)
                | Inr _ \<Rightarrow> VOP ''namefile'' cwd (vop_namefile ops cwd u2 x2) st2) });
          st4 \<leftarrow> vnode_decref ops cwd st3;
          Some (r3, u3, x3, st4) }) }"

section \<open>Operations on pathnames\<close>

definition O_RDONLY :: int where "O_RDONLY = 0"
definition O_WRONLY :: int where "O_WRONLY = 1"
definition O_RDWR :: int where "O_RDWR = 2"
definition O_CREAT :: int where "O_CREAT = 4"
definition O_EXCL :: int where "O_EXCL = 8"
definition O_TRUNC :: int where "O_TRUNC = 16"
definition O_APPEND :: int where "O_APPEND = 32"
definition O_ACCMODE :: int where "O_ACCMODE = 3"

lemmas open_flag_defs = O_RDONLY_def O_WRONLY_def O_RDWR_def O_CREAT_def O_EXCL_def O_TRUNC_def O_APPEND_def O_ACCMODE_def

text \<open>The file that \<^verbatim>\<open>vfs_open\<close> opens: created in its directory, or looked up.\<close>

definition open_start :: "'d vnode_ops \<Rightarrow> string \<Rightarrow> int \<Rightarrow> ('d, nat) vop" where
  "open_start ops path openflags st =
     (if openflags AND O_CREAT \<noteq> 0 then do {
     (r0, st0) \<leftarrow> vfs_lookparent ops path (NAME_MAX + 1) st;
     (case r0 of
        Inl e \<Rightarrow> Some (Inl e, st0)
      | Inr (dir, name) \<Rightarrow> do {
          (r1, st1) \<leftarrow> VOP ''creat'' dir (vop_creat ops dir name (openflags AND O_EXCL \<noteq> 0)) st0;
          st2 \<leftarrow> vnode_decref ops dir st1;
          Some (r1, st2) }) }
   else vfs_lookup ops path st)"

text \<open>The rest of \<^verbatim>\<open>vfs_open\<close>, holding one reference to the file.\<close>

definition open_rest :: "'d vnode_ops \<Rightarrow> int \<Rightarrow> bool \<Rightarrow> nat \<Rightarrow> ('d, nat) vop" where
  "open_rest ops openflags canwrite vn st1 = do {
      (r2, st2) \<leftarrow> VOP ''open'' vn (vop_open ops vn openflags) st1;
      (case r2 of
         Inl e \<Rightarrow> do { st3 \<leftarrow> vnode_decref ops vn st2; Some (Inl e, st3) }
       | Inr _ \<Rightarrow> do {
           st3 \<leftarrow> vnode_incopen vn st2;
           (r4, st4) \<leftarrow> (if openflags AND O_TRUNC \<noteq> 0 then
               (if \<not> canwrite then Some (Inl EINVAL, st3)
                else VOP ''truncate'' vn (vop_truncate ops vn 0) st3)
             else Some (Inr (), st3));
           (case r4 of
              Inl e \<Rightarrow> do {
                st5 \<leftarrow> vnode_decopen ops vn st4;
                st6 \<leftarrow> vnode_decref ops vn st5;
                Some (Inl e, st6) }
            | Inr _ \<Rightarrow> Some (Inr vn, st4)) }) }"

definition vfs_open :: "'d vnode_ops \<Rightarrow> string \<Rightarrow> int \<Rightarrow> ('d, nat) vop" where
  "vfs_open ops path openflags st =
     (let how = openflags AND O_ACCMODE;
          canwrite = (how = O_WRONLY \<or> how = O_RDWR) in
      if how \<noteq> O_RDONLY \<and> \<not> canwrite then Some (Inl EINVAL, st)
      else do {
        (r, st1) \<leftarrow> open_start ops path openflags st;
        (case r of
           Inl e \<Rightarrow> Some (Inl e, st1)
         | Inr vn \<Rightarrow> open_rest ops openflags canwrite vn st1) })"

definition vfs_close :: "'d vnode_ops \<Rightarrow> nat \<Rightarrow> 'd vfs \<Rightarrow> 'd vfs option" where
  "vfs_close ops vn st = do { st1 \<leftarrow> vnode_decopen ops vn st; vnode_decref ops vn st1 }"

text \<open>\<^verbatim>\<open>vfs_remove\<close>, \<^verbatim>\<open>vfs_mkdir\<close> and \<^verbatim>\<open>vfs_rmdir\<close> apply an operation to the parent directory and a name.\<close>

definition in_parent :: "'d vnode_ops \<Rightarrow> string \<Rightarrow> (nat \<Rightarrow> string \<Rightarrow> ('d, unit) vop) \<Rightarrow> string \<Rightarrow> ('d, unit) vop" where
  "in_parent ops opstr f path st = do {
     (r, st1) \<leftarrow> vfs_lookparent ops path (NAME_MAX + 1) st;
     (case r of
        Inl e \<Rightarrow> Some (Inl e, st1)
      | Inr (dir, name) \<Rightarrow> do {
          (r2, st2) \<leftarrow> VOP opstr dir (f dir name) st1;
          st3 \<leftarrow> vnode_decref ops dir st2;
          Some (r2, st3) }) }"

definition vfs_remove :: "'d vnode_ops \<Rightarrow> string \<Rightarrow> ('d, unit) vop" where
  "vfs_remove ops = in_parent ops ''remove'' (vop_remove ops)"

definition vfs_mkdir :: "'d vnode_ops \<Rightarrow> string \<Rightarrow> ('d, unit) vop" where
  "vfs_mkdir ops = in_parent ops ''mkdir'' (vop_mkdir ops)"

definition vfs_rmdir :: "'d vnode_ops \<Rightarrow> string \<Rightarrow> ('d, unit) vop" where
  "vfs_rmdir ops = in_parent ops ''rmdir'' (vop_rmdir ops)"

text \<open>The macro \<^verbatim>\<open>VOP_SYMLINK(newdir, newname, contents)\<close> passes its arguments on in this order.\<close>

definition vfs_symlink :: "'d vnode_ops \<Rightarrow> string \<Rightarrow> string \<Rightarrow> ('d, unit) vop" where
  "vfs_symlink ops contents = in_parent ops ''symlink'' (\<lambda>dir name. vop_symlink ops dir name contents)"

definition vfs_rename :: "'d vnode_ops \<Rightarrow> string \<Rightarrow> string \<Rightarrow> ('d, unit) vop" where
  "vfs_rename ops oldpath newpath st = do {
     (r, st1) \<leftarrow> vfs_lookparent ops oldpath (NAME_MAX + 1) st;
     (case r of
        Inl e \<Rightarrow> Some (Inl e, st1)
      | Inr (olddir, oldname) \<Rightarrow> do {
          (r2, st2) \<leftarrow> vfs_lookparent ops newpath (NAME_MAX + 1) st1;
          (case r2 of
             Inl e \<Rightarrow> do { st3 \<leftarrow> vnode_decref ops olddir st2; Some (Inl e, st3) }
           | Inr (newdir, newname) \<Rightarrow> do {
               ovn \<leftarrow> vs_vn st2 olddir;
               nvn \<leftarrow> vs_vn st2 newdir;
               (r3, st3) \<leftarrow> (if vn_fs ovn = None \<or> vn_fs nvn = None \<or> vn_fs ovn \<noteq> vn_fs nvn then Some (Inl EXDEV, st2)
                 else VOP ''rename'' olddir (vop_rename ops olddir oldname newdir newname) st2);
               st4 \<leftarrow> vnode_decref ops newdir st3;
               st5 \<leftarrow> vnode_decref ops olddir st4;
               Some (r3, st5) }) }) }"

definition vfs_link :: "'d vnode_ops \<Rightarrow> string \<Rightarrow> string \<Rightarrow> ('d, unit) vop" where
  "vfs_link ops oldpath newpath st = do {
     (r, st1) \<leftarrow> vfs_lookup ops oldpath st;
     (case r of
        Inl e \<Rightarrow> Some (Inl e, st1)
      | Inr oldfile \<Rightarrow> do {
          (r2, st2) \<leftarrow> vfs_lookparent ops newpath (NAME_MAX + 1) st1;
          (case r2 of
             Inl e \<Rightarrow> do { st3 \<leftarrow> vnode_decref ops oldfile st2; Some (Inl e, st3) }
           | Inr (newdir, newname) \<Rightarrow> do {
               ovn \<leftarrow> vs_vn st2 oldfile;
               nvn \<leftarrow> vs_vn st2 newdir;
               (r3, st3) \<leftarrow> (if vn_fs ovn = None \<or> vn_fs nvn = None \<or> vn_fs ovn \<noteq> vn_fs nvn then Some (Inl EXDEV, st2)
                 else VOP ''link'' newdir (vop_link ops newdir newname oldfile) st2);
               st4 \<leftarrow> vnode_decref ops newdir st3;
               st5 \<leftarrow> vnode_decref ops oldfile st4;
               Some (r3, st5) }) }) }"

definition vfs_readlink :: "'d vnode_ops \<Rightarrow> string \<Rightarrow> 'd uop" where
  "vfs_readlink ops path u x st = do {
     (r, st1) \<leftarrow> vfs_lookup ops path st;
     (case r of
        Inl e \<Rightarrow> Some (Inl e, u, x, st1)
      | Inr vn \<Rightarrow> do {
          (r2, u2, x2, st2) \<leftarrow> VOP ''readlink'' vn (vop_readlink ops vn u x) st1;
          st3 \<leftarrow> vnode_decref ops vn st2;
          Some (r2, u2, x2, st3) }) }"

section \<open>Devices as files\<close>

text \<open>The functions of \<^verbatim>\<open>struct device\<close>, for the device at an address.\<close>

record 'd device_ops =
  d_open :: "nat \<Rightarrow> int \<Rightarrow> ('d, unit) vop"
  d_close :: "nat \<Rightarrow> ('d, unit) vop"
  d_io :: "nat \<Rightarrow> 'd uop"
  d_ioctl :: "nat \<Rightarrow> int \<Rightarrow> 32 word \<Rightarrow> ('d, unit) vop"

definition dev_data :: "nat \<Rightarrow> 'd vfs \<Rightarrow> nat option" where
  "dev_data v st = do { vn \<leftarrow> vs_vn st v; vn_data vn }"

definition dev_open :: "'d device_ops \<Rightarrow> nat \<Rightarrow> int \<Rightarrow> ('d, unit) vop" where
  "dev_open dops v flags st =
     (if flags AND (O_CREAT OR O_TRUNC OR O_EXCL OR O_APPEND) \<noteq> 0 then Some (Inl EINVAL, st)
      else do { d \<leftarrow> dev_data v st; d_open dops d flags st })"

definition dev_close :: "'d device_ops \<Rightarrow> nat \<Rightarrow> ('d, unit) vop" where
  "dev_close dops v st = do { d \<leftarrow> dev_data v st; d_close dops d st }"

definition dev_reclaim :: "nat \<Rightarrow> ('d, unit) vop" where
  "dev_reclaim v st = Some (Inr (), st)"

definition dev_read :: "'d device_ops \<Rightarrow> nat \<Rightarrow> 'd uop" where
  "dev_read dops v u x st = do { kassert (uio_rw u = UIO_READ); d \<leftarrow> dev_data v st; d_io dops d u x st }"

definition null_io :: "nat \<Rightarrow> 'd uop" where
  "null_io v u x st = Some (Inl EINVAL, u, x, st)"

definition dev_write :: "'d device_ops \<Rightarrow> nat \<Rightarrow> 'd uop" where
  "dev_write dops v u x st = do { kassert (uio_rw u = UIO_WRITE); d \<leftarrow> dev_data v st; d_io dops d u x st }"

definition dev_ioctl :: "'d device_ops \<Rightarrow> nat \<Rightarrow> int \<Rightarrow> 32 word \<Rightarrow> ('d, unit) vop" where
  "dev_ioctl dops v code buf st = do { d \<leftarrow> dev_data v st; d_ioctl dops d code buf st }"

definition dev_gettype :: "nat \<Rightarrow> ('d, 32 word) vop" where
  "dev_gettype v st = do {
     d \<leftarrow> dev_data v st;
     dev \<leftarrow> vs_dev st d;
     Some (Inr (if d_blocks dev > 0 then S_IFBLK else S_IFCHR), st) }"

definition dev_stat :: "nat \<Rightarrow> ('d, kstat) vop" where
  "dev_stat v st = do {
     d \<leftarrow> dev_data v st;
     (r, st1) \<leftarrow> VOP ''gettype'' v (dev_gettype v) st;
     (case r of
        Inl e \<Rightarrow> Some (Inl e, st1)
      | Inr mode \<Rightarrow> do {
          dev \<leftarrow> vs_dev st1 d;
          Some (Inr \<lparr>st_mode = mode, st_nlink = 1,
                     st_size = (if d_blocks dev > 0 then sint (d_blocks dev * d_blocksize dev) else 0), st_blocks = d_blocks dev\<rparr>, st1) }) }"

text \<open>The position is converted to unsigned before it is divided by the block size.\<close>

definition dev_tryseek :: "nat \<Rightarrow> int \<Rightarrow> ('d, unit) vop" where
  "dev_tryseek v pos st = do {
     d \<leftarrow> dev_data v st;
     dev \<leftarrow> vs_dev st d;
     if d_blocks dev > 0 then do {
       kassert (d_blocksize dev \<noteq> 0);
       Some (if (word_of_int pos :: 32 word) mod d_blocksize dev \<noteq> 0 then Inl EINVAL
             else if pos < 0 then Inl EINVAL
             else if (word_of_int pos :: 32 word) div d_blocksize dev \<ge> d_blocks dev then Inl EINVAL
             else Inr (), st) }
     else Some (Inl ESPIPE, st) }"

definition null_fsync :: "nat \<Rightarrow> ('d, unit) vop" where
  "null_fsync v st = Some (Inr (), st)"

definition dev_mmap :: "nat \<Rightarrow> ('d, unit) vop" where
  "dev_mmap v st = Some (Inl EUNIMP, st)"

definition dev_truncate :: "nat \<Rightarrow> int \<Rightarrow> ('d, unit) vop" where
  "dev_truncate v len st = do {
     d \<leftarrow> dev_data v st;
     dev \<leftarrow> vs_dev st d;
     Some (if d_blocks dev > 0 \<and> sint (d_blocks dev * d_blocksize dev) = len then Inr () else Inl EINVAL, st) }"

definition dev_namefile :: "nat \<Rightarrow> 'd uop" where
  "dev_namefile v u x st = Some (Inr (), u, x, st)"

definition null_creat :: "nat \<Rightarrow> string \<Rightarrow> bool \<Rightarrow> ('d, nat) vop" where
  "null_creat v name excl st = Some (Inl ENOTDIR, st)"

definition null_symlink :: "nat \<Rightarrow> string \<Rightarrow> string \<Rightarrow> ('d, unit) vop" where
  "null_symlink v contents name st = Some (Inl ENOTDIR, st)"

definition null_nameop :: "nat \<Rightarrow> string \<Rightarrow> ('d, unit) vop" where
  "null_nameop v name st = Some (Inl ENOTDIR, st)"

definition null_link :: "nat \<Rightarrow> string \<Rightarrow> nat \<Rightarrow> ('d, unit) vop" where
  "null_link v name file st = Some (Inl ENOTDIR, st)"

definition null_rename :: "nat \<Rightarrow> string \<Rightarrow> nat \<Rightarrow> string \<Rightarrow> ('d, unit) vop" where
  "null_rename v n1 v2 n2 st = Some (Inl ENOTDIR, st)"

definition dev_lookup :: "nat \<Rightarrow> string \<Rightarrow> ('d, nat) vop" where
  "dev_lookup dir pathname st =
     (if length pathname > 0 then Some (Inl ENOENT, st)
      else do { st1 \<leftarrow> vnode_incref dir st; Some (Inr dir, st1) })"

definition dev_lookparent :: "nat \<Rightarrow> string \<Rightarrow> nat \<Rightarrow> ('d, nat \<times> string) vop" where
  "dev_lookparent dir pathname buflen st = Some (Inl ENOTDIR, st)"

text \<open>
  The table of device operations. A device has no file system, so the four operations on file systems are never
  called in a state of devices only.
\<close>

definition dev_vnode_ops :: "'d device_ops \<Rightarrow> 'd vnode_ops" where
  "dev_vnode_ops dops = \<lparr>vop_open = dev_open dops, vop_close = dev_close dops, vop_reclaim = dev_reclaim, vop_read = dev_read dops,
     vop_readlink = null_io, vop_getdirentry = null_io, vop_write = dev_write dops, vop_ioctl = dev_ioctl dops, vop_stat = dev_stat,
     vop_gettype = dev_gettype, vop_tryseek = dev_tryseek, vop_fsync = null_fsync, vop_mmap = dev_mmap, vop_truncate = dev_truncate,
     vop_namefile = dev_namefile, vop_creat = null_creat, vop_symlink = null_symlink, vop_mkdir = null_nameop, vop_link = null_link,
     vop_remove = null_nameop, vop_rmdir = null_nameop, vop_rename = null_rename, vop_lookup = dev_lookup,
     vop_lookparent = dev_lookparent, fs_sync = (\<lambda>_ _. None), fs_getvolname = (\<lambda>_ _. None), fs_getroot = (\<lambda>_ _. None),
     fs_unmount = (\<lambda>_ _. None)\<rparr>"

subsection \<open>The null device\<close>

definition nullopen :: "nat \<Rightarrow> int \<Rightarrow> ('d, unit) vop" where
  "nullopen dev openflags st = Some (Inr (), st)"

definition nullclose :: "nat \<Rightarrow> ('d, unit) vop" where
  "nullclose dev st = Some (Inr (), st)"

definition nullio :: "nat \<Rightarrow> 'd uop" where
  "nullio dev u x st = Some (Inr (), if uio_rw u = UIO_WRITE then u\<lparr>uio_resid := 0\<rparr> else u, x, st)"

definition nullioctl :: "nat \<Rightarrow> int \<Rightarrow> 32 word \<Rightarrow> ('d, unit) vop" where
  "nullioctl dev code buf st = Some (Inl EINVAL, st)"

definition devnull_ops :: "'d device_ops" where
  "devnull_ops = \<lparr>d_open = nullopen, d_close = nullclose, d_io = nullio, d_ioctl = nullioctl\<rparr>"

definition devnull_create :: "'d vnode_ops \<Rightarrow> bool \<Rightarrow> doadd_allocs \<Rightarrow> 'd vfs \<Rightarrow> 'd vfs option" where
  "devnull_create ops ok al st = do {
     kassert ok;
     let d = vs_brk st;
     (result, st1) \<leftarrow> vfs_adddev ops al ''null'' (Some d) False
       (st\<lparr>vs_brk := Suc d, vs_dev := (vs_dev st)(d \<mapsto> \<lparr>d_blocks = 0, d_blocksize = 1\<rparr>)\<rparr>);
     kassert (result = Inr ());
     Some st1 }"

text \<open>\<open>oka\<close>: the array can be allocated; \<open>l\<close> and \<open>bl\<close>: the addresses of the two locks.\<close>

definition vfs_bootstrap :: "'d vnode_ops \<Rightarrow> bool \<Rightarrow> nat option \<Rightarrow> nat option \<Rightarrow> bool \<Rightarrow> doadd_allocs \<Rightarrow> 'd vfs \<Rightarrow> 'd vfs option" where
  "vfs_bootstrap ops oka l bl okd al st = do {
     arr \<leftarrow> array_create oka;
     a \<leftarrow> l;
     lk \<leftarrow> lock_create True True True True;
     st1 \<leftarrow> vfs_initbootfs bl (st\<lparr>vs_devs := arr, vs_devlock := Some a,
       vs_sy := (vs_sy st)\<lparr>sy_lock := (sy_lock (vs_sy st))(a \<mapsto> lk)\<rparr>\<rparr>);
     devnull_create ops okd al st1 }"

end
