(* ===== verification/Kern_Vfs_Refs.thy ===== *)
theory Kern_Vfs_Refs
  imports Kern_Vfs
begin

text \<open>
  References to vnodes. What the operations of a file system do to the counts of vnodes is a contract, taken from
  the comments of \<^verbatim>\<open>vnode.h\<close> and \<^verbatim>\<open>fs.h\<close>; under it the functions of the VFS layer balance their
  references on every path. Devices meet the contract.
\<close>

section \<open>Counts and their owners\<close>

definition rc :: "'d vfs \<Rightarrow> nat \<Rightarrow> int" where
  "rc st v = (case vs_vn st v of None \<Rightarrow> 0 | Some vn \<Rightarrow> vn_refcount vn)"

definition oc :: "'d vfs \<Rightarrow> nat \<Rightarrow> int" where
  "oc st v = (case vs_vn st v of None \<Rightarrow> 0 | Some vn \<Rightarrow> vn_opencount vn)"

text \<open>The references that the current directory, the boot file system and the device table hold.\<close>

definition in_table :: "'d vfs \<Rightarrow> nat \<Rightarrow> bool" where
  "in_table st v \<longleftrightarrow> (\<exists>p \<in> set (array_elems (vs_devs st)). \<exists>kd. vs_kd st p = Some kd \<and> kd_vnode kd = v)"

definition held :: "'d vfs \<Rightarrow> nat \<Rightarrow> int" where
  "held st v = of_bool (vs_cwd st = Some v) + of_bool (vs_bootfs st = Some v) + of_bool (in_table st v)"

definition vn_wf :: "'d vfs \<Rightarrow> vnode \<Rightarrow> bool" where
  "vn_wf st vn \<longleftrightarrow> vn_ops vn = Some VOP_MAGIC \<and> 0 < vn_refcount vn \<and> 0 \<le> vn_opencount vn \<and>
     lock_idle (vn_countlock vn) (vs_sy st) \<and> vn_countlock vn \<noteq> vs_devlock st \<and> vn_countlock vn \<noteq> vs_bootlock st"

definition kd_wf :: "knowndev \<Rightarrow> bool" where
  "kd_wf kd \<longleftrightarrow> (kd_fs kd = None \<or> kd_rawname kd \<noteq> None \<longrightarrow> kd_device kd \<noteq> None)"

definition vfs_wf :: "'d vfs \<Rightarrow> bool" where
  "vfs_wf st \<longleftrightarrow> (\<forall>v vn. vs_vn st v = Some vn \<longrightarrow> vn_wf st vn) \<and> (\<forall>v. oc st v + held st v \<le> rc st v) \<and>
     array_invar (vs_devs st) \<and> (\<forall>p \<in> set (array_elems (vs_devs st)). \<exists>kd. vs_kd st p = Some kd \<and> kd_wf kd) \<and>
     (\<forall>v vn. vs_cwd st = Some v \<longrightarrow> vs_vn st v = Some vn \<longrightarrow> vn_fs vn \<noteq> None)"

definition clocks :: "'d vfs \<Rightarrow> nat option set" where
  "clocks st = {vn_countlock vn | v vn. vs_vn st v = Some vn}"

lemma clocks_sy [simp]: "clocks (st\<lparr>vs_sy := s\<rparr>) = clocks st"
  by (simp add: clocks_def)

text \<open>
  \<open>moved d e st st'\<close>: the counts of references and opens changed by \<open>d\<close> and \<open>e\<close>, the state is well-formed again, and
  of the rest only vnodes and their locks, and the contents of the file systems, may differ.
\<close>

definition moved :: "(nat \<Rightarrow> int) \<Rightarrow> (nat \<Rightarrow> int) \<Rightarrow> 'd vfs \<Rightarrow> 'd vfs \<Rightarrow> bool" where
  "moved d e st st' \<longleftrightarrow> vfs_wf st' \<and> (\<forall>v. rc st' v = rc st v + d v) \<and> (\<forall>v. oc st' v = oc st v + e v) \<and>
     vs_cwd st' = vs_cwd st \<and> vs_bootfs st' = vs_bootfs st \<and> vs_bootlock st' = vs_bootlock st \<and>
     vs_devlock st' = vs_devlock st \<and> vs_devs st' = vs_devs st \<and> vs_kd st' = vs_kd st \<and>
     sy_ts (vs_sy st') = sy_ts (vs_sy st) \<and> sy_cv (vs_sy st') = sy_cv (vs_sy st) \<and>
     (\<forall>a. sy_lock (vs_sy st) a \<noteq> None \<longrightarrow> Some a \<notin> clocks st \<longrightarrow>
        sy_lock (vs_sy st') a = sy_lock (vs_sy st) a \<and> Some a \<notin> clocks st')"

abbreviation nil :: "nat \<Rightarrow> int" where "nil \<equiv> \<lambda>_. 0"
abbreviation one :: "nat \<Rightarrow> nat \<Rightarrow> int" where "one v \<equiv> \<lambda>w. of_bool (w = v)"

lemma moved_refl: "vfs_wf st \<Longrightarrow> moved nil nil st st"
  by (simp add: moved_def)

lemma moved_trans:
  assumes "moved d e st st1" "moved d' e' st1 st2"
  shows "moved (\<lambda>v. d v + d' v) (\<lambda>v. e v + e' v) st st2"
  using assms unfolding moved_def by (auto simp: algebra_simps)

lemma moved_nil: "moved nil nil st st1 \<Longrightarrow> moved d e st1 st2 \<Longrightarrow> moved d e st st2"
  using moved_trans [of nil nil st st1 d e st2] by simp

lemma moved_cancel: "moved d e st st2 \<Longrightarrow> d = d' \<Longrightarrow> e = e' \<Longrightarrow> moved d' e' st st2"
  by simp

lemma moved_wf: "moved d e st st' \<Longrightarrow> vfs_wf st'"
  by (simp add: moved_def)

lemma moved_rc: "moved d e st st' \<Longrightarrow> rc st' v = rc st v + d v"
  by (simp add: moved_def)

lemma moved_oc: "moved d e st st' \<Longrightarrow> oc st' v = oc st v + e v"
  by (simp add: moved_def)

lemma moved_held: "moved d e st st' \<Longrightarrow> held st' v = held st v"
  by (simp add: moved_def held_def in_table_def)

lemma rc_ge1: "vfs_wf st \<Longrightarrow> 1 \<le> rc st v \<Longrightarrow> \<exists>vn. vs_vn st v = Some vn \<and> vn_wf st vn \<and> rc st v = vn_refcount vn \<and> oc st v = vn_opencount vn"
  by (auto simp: rc_def oc_def vfs_wf_def split: option.splits)

lemma wf_counts:
  assumes "vfs_wf st"
  shows "0 \<le> oc st v" "0 \<le> held st v" "oc st v + held st v \<le> rc st v"
  using assms by (auto simp: oc_def held_def vfs_wf_def vn_wf_def split: option.splits)

lemma held_rc: "vfs_wf st \<Longrightarrow> 1 \<le> held st v \<Longrightarrow> 1 \<le> rc st v"
  using wf_counts [of st v] by linarith

section \<open>Changing the counts of a vnode\<close>

text \<open>The lock of a vnode is free, so taking it and giving it back changes nothing.\<close>

lemma vnode_incref_eq:
  assumes "vs_vn st v = Some vn" "lock_idle (vn_countlock vn) (vs_sy st)" "vn_refcount vn < 2 ^ 31 - 1" "0 < vn_refcount vn"
  shows "vnode_incref v st = Some (put_vn v (vn\<lparr>vn_refcount := vn_refcount vn + 1\<rparr>) st)"
  using assms by (simp add: vnode_incref_def c_int_id)

lemma vnode_incopen_eq:
  assumes "vs_vn st v = Some vn" "lock_idle (vn_countlock vn) (vs_sy st)" "vn_opencount vn < 2 ^ 31 - 1" "0 \<le> vn_opencount vn"
  shows "vnode_incopen v st = Some (put_vn v (vn\<lparr>vn_opencount := vn_opencount vn + 1\<rparr>) st)"
  using assms by (simp add: vnode_incopen_def c_int_id)

lemma vnode_check_eq:
  assumes "vs_vn st v = Some vn" "vn_wf st vn"
  shows "vnode_check s v st = Some st"
  using assms by (simp add: vnode_check_def vn_wf_def)

lemma VOP_eq: "vfs_wf st \<Longrightarrow> 1 \<le> rc st v \<Longrightarrow> VOP s v f st = f st"
  using rc_ge1 [of st v] vnode_check_eq by (fastforce simp: VOP_def)

text \<open>Updating the counts of one vnode.\<close>

lemma put_counts_moved:
  assumes "vfs_wf st" "vs_vn st v = Some vn" "0 < r" "0 \<le> k" "k + held st v \<le> r"
  shows "moved (\<lambda>w. if w = v then r - vn_refcount vn else 0) (\<lambda>w. if w = v then k - vn_opencount vn else 0) st
     (put_vn v (vn\<lparr>vn_refcount := r, vn_opencount := k\<rparr>) st)"
proof -
  let ?st = "put_vn v (vn\<lparr>vn_refcount := r, vn_opencount := k\<rparr>) st"
  have "vn_wf st vn" using assms(1,2) by (simp add: vfs_wf_def)
  moreover have "held ?st w = held st w" for w by (simp add: held_def in_table_def)
  ultimately have "vfs_wf ?st"
    using assms by (auto simp: vfs_wf_def vn_wf_def rc_def oc_def)
  moreover have "clocks ?st = clocks st" using assms(2) by (auto simp: clocks_def split: if_splits) (metis assms(2) option.inject)+
  ultimately show ?thesis using assms(2) by (auto simp: moved_def rc_def oc_def)
qed

lemma vnode_incref_moved:
  assumes "vfs_wf st" "1 \<le> rc st v" "rc st v < 2 ^ 31 - 1"
  shows "\<exists>st'. vnode_incref v st = Some st' \<and> moved (one v) nil st st'"
proof -
  obtain vn where vn: "vs_vn st v = Some vn" "vn_wf st vn" "rc st v = vn_refcount vn" "oc st v = vn_opencount vn"
    using rc_ge1 [OF assms(1,2)] by blast
  have "oc st v + held st v \<le> rc st v" using assms(1) by (simp add: vfs_wf_def)
  then have "moved (\<lambda>w. if w = v then vn_refcount vn + 1 - vn_refcount vn else 0) (\<lambda>w. if w = v then vn_opencount vn - vn_opencount vn else 0)
      st (put_vn v (vn\<lparr>vn_refcount := vn_refcount vn + 1, vn_opencount := vn_opencount vn\<rparr>) st)"
    using vn by (intro put_counts_moved [OF assms(1) vn(1)]) (simp_all add: vn_wf_def)
  moreover have "vn\<lparr>vn_refcount := vn_refcount vn + 1, vn_opencount := vn_opencount vn\<rparr> = vn\<lparr>vn_refcount := vn_refcount vn + 1\<rparr>" by simp
  ultimately have "moved (one v) nil st (put_vn v (vn\<lparr>vn_refcount := vn_refcount vn + 1\<rparr>) st)"
    by (simp add: of_bool_def cong: if_cong)
  then show ?thesis using vnode_incref_eq [OF vn(1)] vn assms(3) by (simp add: vn_wf_def)
qed

section \<open>Working under a global lock\<close>

lemma global_not_clock:
  assumes "vfs_wf st" "l \<in> {vs_devlock st, vs_bootlock st}"
  shows "l \<notin> clocks st"
proof -
  have "vn_countlock vn \<noteq> l" if "vs_vn st v = Some vn" for v vn
  proof -
    have "vn_wf st vn" using assms(1) that by (simp add: vfs_wf_def)
    then show ?thesis using assms(2) by (auto simp: vn_wf_def)
  qed
  then show ?thesis by (auto simp: clocks_def)
qed

lemma clocks_hold: "l \<notin> clocks st \<Longrightarrow> vs_vn st v = Some vn \<Longrightarrow> vn_countlock vn \<noteq> l"
  by (auto simp: clocks_def)

lemma hold_wf:
  assumes "vfs_wf st" "l \<notin> clocks st"
  shows "vfs_wf (st\<lparr>vs_sy := lock_hold l (vs_sy st)\<rparr>)"
proof -
  have "vn_wf (st\<lparr>vs_sy := lock_hold l (vs_sy st)\<rparr>) vn" if "vs_vn st v = Some vn" "vn_wf st vn" for v vn
    using that clocks_hold [OF assms(2) that(1)] by (auto simp: vn_wf_def)
  then show ?thesis using assms(1) by (simp add: vfs_wf_def rc_def oc_def held_def in_table_def)
qed

lemma locked_moved:
  assumes "vfs_wf st" "l \<notin> clocks st" "lock_idle l (vs_sy st)"
    and "moved d e (st\<lparr>vs_sy := lock_hold l (vs_sy st)\<rparr>) st1"
  shows "\<exists>sy2. lock_give l (vs_sy st1) = Some sy2 \<and> moved d e st (st1\<lparr>vs_sy := sy2\<rparr>)"
proof -
  obtain a lk where a: "l = Some a" "sy_lock (vs_sy st) a = Some lk" using assms(3) by (auto simp: lock_idle_def)
  have notc: "Some a \<notin> clocks st" using assms(2) a(1) by simp
  let ?h = "lock_hold l (vs_sy st)"
  define sy2 where "sy2 = (vs_sy st1)\<lparr>sy_lock := (sy_lock (vs_sy st1))(a := Some lk)\<rparr>"
  have h: "sy_lock ?h a = Some (lk\<lparr>lk_held := ts_cur (sy_ts (vs_sy st))\<rparr>)" "sy_lock ?h b = sy_lock (vs_sy st) b" if "b \<noteq> a" for b
    using a that by (simp_all add: lock_hold_def)
  have hn: "sy_lock ?h a \<noteq> None" using a by (simp add: lock_hold_def)
  have m: "sy_ts (vs_sy st1) = sy_ts (vs_sy st)" "sy_lock (vs_sy st1) a = sy_lock ?h a" "Some a \<notin> clocks st1"
    using assms(4) notc hn by (simp_all add: moved_def)
  have i2: "lock_idle l sy2" using assms(3) a m(1) by (auto simp: lock_idle_def sy2_def)
  have "sy_lock (vs_sy st1) a = Some (lk\<lparr>lk_held := ts_cur (sy_ts (vs_sy st))\<rparr>)" using m(2) a by (simp add: lock_hold_def)
  then have "lock_hold l sy2 = vs_sy st1" using a(1) m(1) by (simp add: lock_hold_def sy2_def fun_upd_idem)
  then have g: "lock_give l (vs_sy st1) = Some sy2" using lock_give_hold [OF i2] by simp
  have wf1: "vfs_wf st1" using assms(4) by (rule moved_wf)
  have idle: "lock_idle k sy2" if "lock_idle k (vs_sy st1)" "k \<noteq> l" for k
    using that a(1) by (auto simp: lock_idle_def sy2_def)
  have "vn_wf (st1\<lparr>vs_sy := sy2\<rparr>) vn" if "vs_vn st1 v = Some vn" "vn_wf st1 vn" for v vn
    using that clocks_hold [OF m(3) that(1)] a(1) idle by (auto simp: vn_wf_def)
  then have wf2: "vfs_wf (st1\<lparr>vs_sy := sy2\<rparr>)" using wf1 by (simp add: vfs_wf_def rc_def oc_def held_def in_table_def)
  have other: "sy_lock sy2 b = sy_lock (vs_sy st) b \<and> Some b \<notin> clocks st1"
    if "sy_lock (vs_sy st) b \<noteq> None" "Some b \<notin> clocks st" for b
  proof (cases "b = a")
    case True
    then show ?thesis using a(2) m(3) by (simp add: sy2_def)
  next
    case False
    then show ?thesis using assms(4) that h(2) [OF False] by (simp add: moved_def sy2_def)
  qed
  have "moved d e st (st1\<lparr>vs_sy := sy2\<rparr>)"
    using assms(4) wf2 other m(1) by (simp add: moved_def rc_def oc_def sy2_def)
  then show ?thesis using g by blast
qed

text \<open>A global lock that is free stays free.\<close>

definition free_locks :: "'d vfs \<Rightarrow> bool" where
  "free_locks st \<longleftrightarrow> lock_idle (vs_devlock st) (vs_sy st) \<and> lock_idle (vs_bootlock st) (vs_sy st)"

lemma moved_free_locks:
  assumes "moved d e st st'" "vfs_wf st" "free_locks st"
  shows "free_locks st'"
proof -
  have "lock_idle l (vs_sy st')" if i: "lock_idle l (vs_sy st)" "l \<in> {vs_devlock st, vs_bootlock st}" for l
  proof -
    obtain a lk where a: "l = Some a" "sy_lock (vs_sy st) a = Some lk" using i(1) by (auto simp: lock_idle_def)
    have "Some a \<notin> clocks st" using global_not_clock [OF assms(2) i(2)] a(1) by simp
    then have "sy_lock (vs_sy st') a = sy_lock (vs_sy st) a" "sy_ts (vs_sy st') = sy_ts (vs_sy st)"
      using assms(1) a(2) by (simp_all add: moved_def)
    then show ?thesis using i(1) a(1) by (simp add: lock_idle_def)
  qed
  then show ?thesis using assms(1,3) by (simp add: free_locks_def moved_def)
qed

section \<open>The contract of file systems\<close>

text \<open>
  \<open>neutral\<close>: the operation returns and leaves all counts as they are. \<open>yields g\<close>: it returns, and on success it hands out
  one reference to the vnode \<open>g a\<close> of its result; on failure all counts are as before.
\<close>

definition neutral :: "('d vfs \<Rightarrow> bool) \<Rightarrow> ('d, 'a) vop \<Rightarrow> 'd vfs \<Rightarrow> bool" where
  "neutral fsinv f st \<longleftrightarrow> (\<exists>r st'. f st = Some (r, st') \<and> fsinv st' \<and> moved nil nil st st')"

definition yields :: "('d vfs \<Rightarrow> bool) \<Rightarrow> ('a \<Rightarrow> nat) \<Rightarrow> ('d, 'a) vop \<Rightarrow> 'd vfs \<Rightarrow> bool" where
  "yields fsinv g f st \<longleftrightarrow> (\<exists>r st'. f st = Some (r, st') \<and> fsinv st' \<and> moved (case r of Inl _ \<Rightarrow> nil | Inr a \<Rightarrow> one (g a)) nil st st')"

definition room :: "int \<Rightarrow> 'd vfs \<Rightarrow> bool" where
  "room n st \<longleftrightarrow> (\<forall>v. rc st v + n < 2 ^ 31)"

definition fs_known :: "'d vfs \<Rightarrow> nat \<Rightarrow> bool" where
  "fs_known st fs \<longleftrightarrow> (\<exists>p \<in> set (array_elems (vs_devs st)). \<exists>kd. vs_kd st p = Some kd \<and> kd_fs kd = Some fs) \<or>
     (\<exists>v vn. vs_vn st v = Some vn \<and> vn_fs vn = Some fs)"

text \<open>What an open or a failed open leaves: one reference and one open more of the file handed back, or nothing.\<close>

definition opens :: "('d vfs \<Rightarrow> bool) \<Rightarrow> ('d, nat) vop \<Rightarrow> 'd vfs \<Rightarrow> bool" where
  "opens fsinv f st \<longleftrightarrow> (\<exists>r st'. f st = Some (r, st') \<and> fsinv st' \<and>
     (case r of Inl _ \<Rightarrow> moved nil nil st st' | Inr v \<Rightarrow> moved (one v) (one v) st st'))"

lemma room_mono: "room n st \<Longrightarrow> m \<le> n \<Longrightarrow> room m st"
  unfolding room_def by (metis add_left_mono order_le_less_trans)

lemma room_moved:
  assumes "moved d e st st'" "room n st" "\<And>v. d v \<le> n - m"
  shows "room m st'"
  unfolding room_def
proof
  fix v
  have "rc st v + n < 2 ^ 31" using assms(2) by (simp add: room_def)
  then show "rc st' v + m < 2 ^ 31" using moved_rc [OF assms(1), of v] assms(3) [of v] by linarith
qed

lemma first_mark_ge: "first_mark path i = (c, s) \<Longrightarrow> (c = -1 \<or> i \<le> c) \<and> (s = -1 \<or> i \<le> s)"
  by (induction path i rule: first_mark.induct) (auto split: if_splits)

lemma first_mark_colon: "first_mark path 0 = (0, s) \<Longrightarrow> path ! 0 = CHR '':''"
  using first_mark_ge [of "tl path" 1 0 s] by (cases path) (auto split: if_splits)

lemma first_mark_slash: "first_mark path 0 = (c, 0) \<Longrightarrow> path ! 0 = CHR ''/''"
  using first_mark_ge [of "tl path" 1 c 0] by (cases path) (auto split: if_splits)

locale file_systems =
  fixes ops :: "'d vnode_ops"
    and fsinv :: "'d vfs \<Rightarrow> bool"
  assumes inv_sy: "fsinv (st\<lparr>vs_sy := s\<rparr>) = fsinv st"
    and inv_counts: "vs_vn st v = Some vn \<Longrightarrow> fsinv (put_vn v (vn\<lparr>vn_refcount := r, vn_opencount := k\<rparr>) st) = fsinv st"
    and inv_cwd: "fsinv (st\<lparr>vs_cwd := c\<rparr>) = fsinv st"
    and op_open: "vfs_wf st \<Longrightarrow> fsinv st \<Longrightarrow> 1 \<le> rc st v \<Longrightarrow> neutral fsinv (vop_open ops v flags) st"
    and op_close: "vfs_wf st \<Longrightarrow> fsinv st \<Longrightarrow> 1 \<le> rc st v \<Longrightarrow> neutral fsinv (vop_close ops v) st"
    and op_gettype: "vfs_wf st \<Longrightarrow> fsinv st \<Longrightarrow> 1 \<le> rc st v \<Longrightarrow> neutral fsinv (vop_gettype ops v) st"
    and op_truncate: "vfs_wf st \<Longrightarrow> fsinv st \<Longrightarrow> 1 \<le> rc st v \<Longrightarrow> neutral fsinv (vop_truncate ops v len) st"
    and op_remove: "vfs_wf st \<Longrightarrow> fsinv st \<Longrightarrow> 1 \<le> rc st v \<Longrightarrow> neutral fsinv (vop_remove ops v name) st"
    and op_mkdir: "vfs_wf st \<Longrightarrow> fsinv st \<Longrightarrow> 1 \<le> rc st v \<Longrightarrow> neutral fsinv (vop_mkdir ops v name) st"
    and op_rmdir: "vfs_wf st \<Longrightarrow> fsinv st \<Longrightarrow> 1 \<le> rc st v \<Longrightarrow> neutral fsinv (vop_rmdir ops v name) st"
    and op_symlink: "vfs_wf st \<Longrightarrow> fsinv st \<Longrightarrow> 1 \<le> rc st v \<Longrightarrow> neutral fsinv (vop_symlink ops v name name2) st"
    and op_rename: "vfs_wf st \<Longrightarrow> fsinv st \<Longrightarrow> 1 \<le> rc st v \<Longrightarrow> 1 \<le> rc st w \<Longrightarrow> neutral fsinv (vop_rename ops v n1 w n2) st"
    and op_link: "vfs_wf st \<Longrightarrow> fsinv st \<Longrightarrow> 1 \<le> rc st v \<Longrightarrow> 1 \<le> rc st w \<Longrightarrow> neutral fsinv (vop_link ops v name w) st"
    and op_creat: "vfs_wf st \<Longrightarrow> fsinv st \<Longrightarrow> 1 \<le> rc st v \<Longrightarrow> room 1 st \<Longrightarrow> yields fsinv (\<lambda>v. v) (vop_creat ops v name excl) st"
    and op_lookup: "vfs_wf st \<Longrightarrow> fsinv st \<Longrightarrow> 1 \<le> rc st v \<Longrightarrow> room 1 st \<Longrightarrow> yields fsinv (\<lambda>v. v) (vop_lookup ops v path) st"
    and op_lookparent: "vfs_wf st \<Longrightarrow> fsinv st \<Longrightarrow> 1 \<le> rc st v \<Longrightarrow> room 1 st \<Longrightarrow> yields fsinv fst (vop_lookparent ops v path blen) st"
    and op_getroot: "vfs_wf st \<Longrightarrow> fsinv st \<Longrightarrow> fs_known st fs \<Longrightarrow> room 1 st \<Longrightarrow>
          \<exists>v st'. fs_getroot ops fs st = Some (v, st') \<and> fsinv st' \<and> moved (one v) nil st st'"
    and op_reclaim: "vfs_wf st \<Longrightarrow> fsinv st \<Longrightarrow> rc st v = 1 \<Longrightarrow> held st v = 0 \<Longrightarrow> oc st v = 0 \<Longrightarrow>
          \<exists>r st'. vop_reclaim ops v st = Some (r, st') \<and> fsinv st' \<and> moved (\<lambda>w. - one v w) nil st st'"
begin

lemma inv_refcount: "vs_vn st v = Some vn \<Longrightarrow> fsinv (put_vn v (vn\<lparr>vn_refcount := r\<rparr>) st) = fsinv st"
  by (drule inv_counts [where r = r and k = "vn_opencount vn"]) simp

lemma inv_opencount: "vs_vn st v = Some vn \<Longrightarrow> fsinv (put_vn v (vn\<lparr>vn_opencount := k\<rparr>) st) = fsinv st"
  by (drule inv_counts [where r = "vn_refcount vn" and k = k]) simp

lemma incref:
  assumes "vfs_wf st" "fsinv st" "1 \<le> rc st v" "room 1 st"
  shows "\<exists>st'. vnode_incref v st = Some st' \<and> fsinv st' \<and> moved (one v) nil st st'"
proof -
  obtain vn where vn: "vs_vn st v = Some vn" "vn_wf st vn" "rc st v = vn_refcount vn"
    using rc_ge1 [OF assms(1,3)] by blast
  have b: "rc st v < 2 ^ 31 - 1" using assms(4) by (simp add: room_def algebra_simps)
  obtain st' where st': "vnode_incref v st = Some st'" "moved (one v) nil st st'"
    using vnode_incref_moved [OF assms(1,3) b] by blast
  have "st' = put_vn v (vn\<lparr>vn_refcount := vn_refcount vn + 1\<rparr>) st"
    using st'(1) vnode_incref_eq [OF vn(1)] vn b by (simp add: vn_wf_def)
  then show ?thesis using st' inv_refcount [OF vn(1)] assms(2) by simp
qed

lemma decref:
  assumes "vfs_wf st" "fsinv st" "oc st v + held st v + 1 \<le> rc st v"
  shows "\<exists>st'. vnode_decref ops v st = Some st' \<and> fsinv st' \<and> moved (\<lambda>w. - one v w) nil st st'"
proof -
  note nn = wf_counts(1,2) [OF assms(1), of v]
  then have ge: "1 \<le> rc st v" using assms(3) by linarith
  obtain vn where vn: "vs_vn st v = Some vn" "vn_wf st vn" "rc st v = vn_refcount vn" "oc st v = vn_opencount vn"
    using rc_ge1 [OF assms(1) ge] by blast
  show ?thesis
  proof (cases "vn_refcount vn > 1")
    case True
    let ?st = "put_vn v (vn\<lparr>vn_refcount := vn_refcount vn - 1\<rparr>) st"
    have "vnode_decref ops v st = Some ?st" using True vn by (simp add: vnode_decref_def vn_wf_def)
    moreover have "moved (\<lambda>w. if w = v then vn_refcount vn - 1 - vn_refcount vn else 0) (\<lambda>w. if w = v then vn_opencount vn - vn_opencount vn else 0)
        st (put_vn v (vn\<lparr>vn_refcount := vn_refcount vn - 1, vn_opencount := vn_opencount vn\<rparr>) st)"
      using True vn assms(3) by (intro put_counts_moved [OF assms(1) vn(1)]) (simp_all add: vn_wf_def)
    then have "moved (\<lambda>w. - one v w) nil st ?st" by (simp add: of_bool_def if_distrib cong: if_cong)
    ultimately show ?thesis using inv_refcount [OF vn(1)] assms(2) by simp
  next
    case False
    then have z: "rc st v = 1" "held st v = 0" "oc st v = 0" using vn(3) ge assms(3) nn by linarith+
    obtain r st' where "vop_reclaim ops v st = Some (r, st')" "fsinv st'" "moved (\<lambda>w. - one v w) nil st st'"
      using op_reclaim [OF assms(1,2) z] by blast
    moreover have "VOP ''reclaim'' v (vop_reclaim ops v) st = vop_reclaim ops v st" by (rule VOP_eq [OF assms(1) ge])
    ultimately show ?thesis using False vn by (simp add: vnode_decref_def vn_wf_def)
  qed
qed

lemma incopen:
  assumes "vfs_wf st" "fsinv st" "oc st v + held st v + 1 \<le> rc st v" "room 1 st"
  shows "\<exists>st'. vnode_incopen v st = Some st' \<and> fsinv st' \<and> moved nil (one v) st st'"
proof -
  note nn = wf_counts(1,2) [OF assms(1), of v]
  then have ge: "1 \<le> rc st v" using assms(3) by linarith
  obtain vn where vn: "vs_vn st v = Some vn" "vn_wf st vn" "rc st v = vn_refcount vn" "oc st v = vn_opencount vn"
    using rc_ge1 [OF assms(1) ge] by blast
  let ?st = "put_vn v (vn\<lparr>vn_opencount := vn_opencount vn + 1\<rparr>) st"
  have b: "rc st v + 1 < 2 ^ 31" using assms(4) by (simp add: room_def)
  have "vn_opencount vn < 2 ^ 31 - 1" using b assms(3) nn vn(3,4) by linarith
  then have "vnode_incopen v st = Some ?st" using vn by (intro vnode_incopen_eq) (simp_all add: vn_wf_def)
  moreover have "moved (\<lambda>w. if w = v then vn_refcount vn - vn_refcount vn else 0) (\<lambda>w. if w = v then vn_opencount vn + 1 - vn_opencount vn else 0)
      st (put_vn v (vn\<lparr>vn_refcount := vn_refcount vn, vn_opencount := vn_opencount vn + 1\<rparr>) st)"
    using vn assms(3) by (intro put_counts_moved [OF assms(1) vn(1)]) (simp_all add: vn_wf_def)
  then have "moved nil (one v) st ?st" by (simp add: of_bool_def cong: if_cong)
  ultimately show ?thesis using inv_opencount [OF vn(1)] assms(2) by simp
qed

lemma decopen:
  assumes "vfs_wf st" "fsinv st" "1 \<le> oc st v"
  shows "\<exists>st'. vnode_decopen ops v st = Some st' \<and> fsinv st' \<and> moved nil (\<lambda>w. - one v w) st st'"
proof -
  note le = wf_counts(2,3) [OF assms(1), of v]
  then have ge: "1 \<le> rc st v" using assms(3) by linarith
  obtain vn where vn: "vs_vn st v = Some vn" "vn_wf st vn" "rc st v = vn_refcount vn" "oc st v = vn_opencount vn"
    using rc_ge1 [OF assms(1) ge] by blast
  let ?st = "put_vn v (vn\<lparr>vn_opencount := vn_opencount vn - 1\<rparr>) st"
  have "moved (\<lambda>w. if w = v then vn_refcount vn - vn_refcount vn else 0) (\<lambda>w. if w = v then vn_opencount vn - 1 - vn_opencount vn else 0)
      st (put_vn v (vn\<lparr>vn_refcount := vn_refcount vn, vn_opencount := vn_opencount vn - 1\<rparr>) st)"
    using vn assms(3) le by (intro put_counts_moved [OF assms(1) vn(1)]) (simp_all add: vn_wf_def)
  then have m: "moved nil (\<lambda>w. - one v w) st ?st" by (simp add: of_bool_def if_distrib cong: if_cong)
  have inv2: "fsinv ?st" using inv_opencount [OF vn(1)] assms(2) by simp
  show ?thesis
  proof (cases "vn_opencount vn - 1 > 0")
    case True
    then have "vnode_decopen ops v st = Some ?st" using vn assms(3) by (simp add: vnode_decopen_def vn_wf_def)
    then show ?thesis using m inv2 by simp
  next
    case False
    have wf2: "vfs_wf ?st" "1 \<le> rc ?st v" using moved_wf [OF m] moved_rc [OF m, of v] ge by simp_all
    obtain r st' where c: "vop_close ops v ?st = Some (r, st')" "fsinv st'" "moved nil nil ?st st'"
      using op_close [OF wf2(1) inv2 wf2(2)] by (auto simp: neutral_def)
    have "vnode_decopen ops v st = Some st'"
      using False vn assms(3) VOP_eq [OF wf2, of "''close''" "vop_close ops v"] c(1)
      by (simp add: vnode_decopen_def vn_wf_def)
    then show ?thesis using c(2) moved_trans [OF m c(3)] by simp
  qed
qed

lemma getcurdir:
  assumes "vfs_wf st" "fsinv st" "room 1 st"
  shows "yields fsinv (\<lambda>v. v) vfs_getcurdir st"
proof (cases "vs_cwd st")
  case None
  then show ?thesis using assms moved_refl by (simp add: vfs_getcurdir_def yields_def)
next
  case (Some d)
  then have "1 \<le> held st d" by (simp add: held_def)
  then show ?thesis
    using incref [OF assms(1,2) held_rc [OF assms(1)] assms(3), of d] Some by (auto simp: vfs_getcurdir_def yields_def)
qed

lemma table_incref:
  assumes "vfs_wf st" "fsinv st" "room 1 st" "p \<in> set (array_elems (vs_devs st))" "vs_kd st p = Some kd"
  shows "\<exists>st'. vnode_incref (kd_vnode kd) st = Some st' \<and> fsinv st' \<and> moved (one (kd_vnode kd)) nil st st'"
proof -
  have "1 \<le> held st (kd_vnode kd)" using assms(4,5) by (auto simp: held_def in_table_def)
  then show ?thesis using incref [OF assms(1,2) held_rc [OF assms(1)] assms(3)] by blast
qed

lemma getroot_loop:
  assumes "vfs_wf st" "fsinv st" "room 1 st" "0 \<le> i" "i + int n \<le> array_getnum (vs_devs st)"
  shows "yields fsinv (\<lambda>v. v) (getroot_loop ops devname n i) st"
  using assms(4,5)
proof (induction n arbitrary: i)
  case 0
  then show ?case using assms(1,2) moved_refl by (simp add: yields_def)
next
  case (Suc n)
  have ai: "array_invar (vs_devs st)" using assms(1) by (simp add: vfs_wf_def)
  let ?p = "array_elems (vs_devs st) ! nat i"
  have lt: "nat i < length (array_elems (vs_devs st))" using Suc.prems arr.getnum [OF ai] by simp
  then have g: "array_getguy (vs_devs st) i = Some ?p" "?p \<in> set (array_elems (vs_devs st))"
    using Suc.prems by (simp_all add: arr.getguy [OF ai] cell_def)
  obtain kd where kd: "vs_kd st ?p = Some kd" "kd_wf kd" using assms(1) g(2) by (auto simp: vfs_wf_def)
  obtain st1 where inc: "vnode_incref (kd_vnode kd) st = Some st1" "fsinv st1" "moved (one (kd_vnode kd)) nil st st1"
    using table_incref [OF assms(1-3) g(2) kd(1)] by blast
  have IH: "yields fsinv (\<lambda>v. v) (getroot_loop ops devname n (i + 1)) st" by (rule Suc.IH) (use Suc.prems in simp_all)
  show ?case
  proof (cases "kd_fs kd")
    case (Some fs)
    then have "fs_known st fs" using g(2) kd(1) by (auto simp: fs_known_def)
    then obtain v st2 where r: "fs_getroot ops fs st = Some (v, st2)" "fsinv st2" "moved (one v) nil st st2"
      using op_getroot [OF assms(1,2) _ assms(3)] by blast
    show ?thesis using IH g(1) kd r inc Some by (simp add: yields_def kd_wf_def)
  next
    case None
    then show ?thesis using IH g(1) kd inc moved_refl [OF assms(1)] assms(2) by (auto simp: yields_def kd_wf_def)
  qed
qed

lemma room_sy [simp]: "room n (st\<lparr>vs_sy := s\<rparr>) = room n st"
  by (simp add: room_def rc_def)

lemma dev_locked:
  assumes "vfs_wf st" "fsinv st" "lock_idle (vs_devlock st) (vs_sy st)"
    and "yields fsinv g f (st\<lparr>vs_sy := lock_hold (vs_devlock st) (vs_sy st)\<rparr>)"
  shows "yields fsinv g (Kern_Vfs.dev_locked f) st"
proof -
  obtain r st1 where f: "f (st\<lparr>vs_sy := lock_hold (vs_devlock st) (vs_sy st)\<rparr>) = Some (r, st1)" "fsinv st1"
      "moved (case r of Inl _ \<Rightarrow> nil | Inr a \<Rightarrow> one (g a)) nil (st\<lparr>vs_sy := lock_hold (vs_devlock st) (vs_sy st)\<rparr>) st1"
    using assms(4) by (auto simp: yields_def)
  have dl: "vs_devlock st1 = vs_devlock st" using f(3) by (simp add: moved_def)
  obtain sy2 where "lock_give (vs_devlock st) (vs_sy st1) = Some sy2"
      "moved (case r of Inl _ \<Rightarrow> nil | Inr a \<Rightarrow> one (g a)) nil st (st1\<lparr>vs_sy := sy2\<rparr>)"
    using locked_moved [OF assms(1) global_not_clock [OF assms(1)] assms(3) f(3)] by auto
  then show ?thesis using f(1,2) assms(3) dl inv_sy by (simp add: yields_def dev_locked_def)
qed

lemma getroot:
  assumes "vfs_wf st" "fsinv st" "room 1 st" "lock_idle (vs_devlock st) (vs_sy st)"
  shows "yields fsinv (\<lambda>v. v) (vfs_getroot ops devname) st"
proof -
  let ?st = "st\<lparr>vs_sy := lock_hold (vs_devlock st) (vs_sy st)\<rparr>"
  have ai: "array_invar (vs_devs st)" using assms(1) by (simp add: vfs_wf_def)
  have "yields fsinv (\<lambda>v. v) (getroot_loop ops devname (num_devs ?st) 0) ?st"
    using assms(2,3) inv_sy arr.getnum [OF ai] by (intro getroot_loop hold_wf [OF assms(1) global_not_clock [OF assms(1)]]) simp_all
  then show ?thesis
    unfolding vfs_getroot_def by (intro dev_locked [OF assms(1,2,4)]) (simp add: yields_def)
qed

lemma decref_after:
  assumes "vfs_wf st" "moved d e st st'" "fsinv st'" "e v + 1 \<le> d v"
  shows "\<exists>st''. vnode_decref ops v st' = Some st'' \<and> fsinv st'' \<and> moved (\<lambda>w. d w - one v w) e st st''"
proof -
  have "oc st' v + held st' v + 1 \<le> rc st' v"
    using wf_counts(3) [OF assms(1), of v] assms(4) moved_rc [OF assms(2)] moved_oc [OF assms(2)] moved_held [OF assms(2)] by simp
  then obtain st'' where d: "vnode_decref ops v st' = Some st''" "fsinv st''" "moved (\<lambda>w. - one v w) nil st' st''"
    using decref [OF moved_wf [OF assms(2)] assms(3)] by blast
  then show ?thesis using moved_trans [OF assms(2) d(3)] by simp
qed

lemma boot_start:
  assumes "vfs_wf st" "fsinv st" "room 1 st" "free_locks st" "first_mark path 0 = (colon, 0)" "colon < 0"
  shows "yields fsinv snd (Kern_Vfs.getdevice ops path) st"
proof -
  let ?l = "vs_bootlock st" and ?st = "st\<lparr>vs_sy := lock_hold (vs_bootlock st) (vs_sy st)\<rparr>"
  have idle: "lock_idle ?l (vs_sy st)" using assms(4) by (simp add: free_locks_def)
  have p0: "path ! 0 = CHR ''/''" using first_mark_slash [OF assms(5)] by simp
  show ?thesis
  proof (cases "vs_bootfs st")
    case None
    then show ?thesis
      using assms(1,2,5,6) p0 idle moved_refl [OF assms(1)] by (simp add: getdevice_def yields_def Let_def)
  next
    case (Some v)
    have wf: "vfs_wf ?st" by (rule hold_wf [OF assms(1) global_not_clock [OF assms(1)]]) simp
    have "1 \<le> held st v" using Some by (simp add: held_def)
    then have "1 \<le> rc ?st v" using held_rc [OF assms(1)] by (simp add: rc_def)
    then obtain st2 where i: "vnode_incref v ?st = Some st2" "fsinv st2" "moved (one v) nil ?st st2"
      using incref [OF wf, of v] assms(2,3) by (auto simp: inv_sy)
    obtain sy2 where "lock_give ?l (vs_sy st2) = Some sy2" "moved (one v) nil st (st2\<lparr>vs_sy := sy2\<rparr>)"
      using locked_moved [OF assms(1) global_not_clock [OF assms(1)] idle i(3)] by auto
    moreover have "vs_bootlock st2 = ?l" using i(3) by (simp add: moved_def)
    ultimately show ?thesis
      using assms(5,6) p0 idle Some i(1,2) inv_sy by (simp add: getdevice_def yields_def Let_def)
  qed
qed

lemma current_fs_start:
  assumes "vfs_wf st" "fsinv st" "room 2 st" "first_mark path 0 = (0, slash)"
  shows "yields fsinv snd (Kern_Vfs.getdevice ops path) st"
proof -
  have p0: "path ! 0 = CHR '':''" using first_mark_colon [OF assms(4)] by simp
  show ?thesis
  proof (cases "vs_cwd st")
    case None
    then show ?thesis using assms p0 moved_refl by (simp add: getdevice_def vfs_getcurdir_def yields_def)
  next
    case (Some v)
    have "1 \<le> held st v" using Some by (simp add: held_def)
    then obtain st1 where i: "vnode_incref v st = Some st1" "fsinv st1" "moved (one v) nil st st1"
      using incref [OF assms(1,2) held_rc [OF assms(1)] room_mono [OF assms(3)], of v] by auto
    have wf1: "vfs_wf st1" using i(3) by (rule moved_wf)
    have "1 \<le> rc st1 v" using moved_rc [OF i(3), of v] wf_counts [OF assms(1), of v] by simp
    then obtain vn where vn: "vs_vn st1 v = Some vn" using rc_ge1 [OF wf1] by blast
    moreover have "vs_cwd st1 = Some v" using Some i(3) by (simp add: moved_def)
    ultimately obtain fs where fs: "vn_fs vn = Some fs" using wf1 by (auto simp: vfs_wf_def)
    have fk: "fs_known st1 fs" using vn fs by (auto simp: fs_known_def)
    have r1: "room 1 st1" by (rule room_moved [OF i(3) assms(3)]) simp
    obtain w st2 where r: "fs_getroot ops fs st1 = Some (w, st2)" "fsinv st2" "moved (one w) nil st1 st2"
      using op_getroot [OF wf1 i(2) fk r1] by blast
    note m = moved_trans [OF i(3) r(3)]
    obtain st3 where d: "vnode_decref ops v st2 = Some st3" "fsinv st3" "moved (\<lambda>x. one v x + one w x - one v x) (\<lambda>x. 0 + 0) st st3"
      using decref_after [OF assms(1) m r(2), of v] by auto
    then have "moved (one w) nil st st3" by simp
    then show ?thesis
      using assms(4) p0 Some i(1) vn fs r(1) d(1,2) by (simp add: getdevice_def vfs_getcurdir_def yields_def)
  qed
qed

lemma yields_map:
  assumes "yields fsinv (\<lambda>v. v) f st"
  shows "yields fsinv snd (\<lambda>st. f st \<bind> (\<lambda>(r, st1). Some (map_sum id (Pair x) r, st1))) st"
proof -
  obtain r st1 where r: "f st = Some (r, st1)" "fsinv st1" "moved (case r of Inl _ \<Rightarrow> nil | Inr a \<Rightarrow> one a) nil st st1"
    using assms unfolding yields_def by blast
  then show ?thesis by (cases r) (simp_all add: yields_def)
qed

lemma getdevice:
  assumes "vfs_wf st" "fsinv st" "room 2 st" "free_locks st"
  shows "yields fsinv snd (Kern_Vfs.getdevice ops path) st"
proof -
  have room1: "room 1 st" by (rule room_mono [OF assms(3)]) simp
  obtain colon slash where m: "first_mark path 0 = (colon, slash)" by fastforce
  consider "colon < 0" "slash \<noteq> 0" | "colon > 0" | "colon < 0" "slash = 0" | "colon = 0" by linarith
  then show ?thesis
  proof cases
    case 1
    have "yields fsinv snd (\<lambda>st. vfs_getcurdir st \<bind> (\<lambda>(r, st1). Some (map_sum id (Pair path) r, st1))) st"
      by (rule yields_map [OF getcurdir [OF assms(1,2) room1]])
    then show ?thesis using 1 m by (simp add: yields_def getdevice_def)
  next
    case 2
    have "yields fsinv snd (\<lambda>st. vfs_getroot ops (take (nat colon) path) st \<bind>
        (\<lambda>(r, st1). Some (map_sum id (Pair (skip_slashes (drop (nat colon + 1) path))) r, st1))) st"
      using getroot [OF assms(1,2) room1] assms(4) by (intro yields_map) (simp add: free_locks_def)
    then show ?thesis using 2 m by (simp add: yields_def getdevice_def)
  next
    case 3
    then show ?thesis using boot_start [OF assms(1,2) room1 assms(4)] m by simp
  next
    case 4
    then show ?thesis using current_fs_start [OF assms(1-3)] m by simp
  qed
qed

lemma lookparent:
  assumes "vfs_wf st" "fsinv st" "room 2 st" "free_locks st"
  shows "yields fsinv fst (vfs_lookparent ops path blen) st"
proof -
  obtain r st1 where g: "Kern_Vfs.getdevice ops path st = Some (r, st1)" "fsinv st1"
      "moved (case r of Inl _ \<Rightarrow> nil | Inr a \<Rightarrow> one (snd a)) nil st st1"
    using getdevice [OF assms] unfolding yields_def by blast
  show ?thesis
  proof (cases r)
    case (Inl e)
    then show ?thesis using g by (simp add: yields_def vfs_lookparent_def)
  next
    case (Inr a)
    obtain sub v where a: "a = (sub, v)" by fastforce
    have m: "moved (one v) nil st st1" using g(3) Inr a by simp
    have wf1: "vfs_wf st1" "1 \<le> rc st1 v"
      using moved_wf [OF m] moved_rc [OF m, of v] wf_counts [OF assms(1), of v] by simp_all
    have r1: "room 1 st1" by (rule room_moved [OF m assms(3)]) simp
    have "yields fsinv fst (\<lambda>st1. if length sub = 0 then Some (Inl EINVAL, st1)
        else VOP ''lookparent'' v (vop_lookparent ops v sub blen) st1) st1"
      using op_lookparent [OF wf1(1) g(2) wf1(2) r1, of sub blen] moved_refl [OF wf1(1)] g(2)
      by (simp add: yields_def VOP_eq [OF wf1])
    then obtain r2 st2 where s2: "(if length sub = 0 then Some (Inl EINVAL, st1)
        else VOP ''lookparent'' v (vop_lookparent ops v sub blen) st1) = Some (r2, st2)" "fsinv st2"
        "moved (case r2 of Inl _ \<Rightarrow> nil | Inr a \<Rightarrow> one (fst a)) nil st1 st2"
      unfolding yields_def by blast
    note t = moved_trans [OF m s2(3)]
    have "1 \<le> one v v + (case r2 of Inl _ \<Rightarrow> nil | Inr a \<Rightarrow> one (fst a)) v" by (auto split: sum.splits)
    then obtain st3 where d: "vnode_decref ops v st2 = Some st3" "fsinv st3"
        "moved (\<lambda>w. one v w + (case r2 of Inl _ \<Rightarrow> nil | Inr a \<Rightarrow> one (fst a)) w - one v w) (\<lambda>w. 0 + 0) st st3"
      using decref_after [OF assms(1) t s2(2), of v] by auto
    have "moved (case r2 of Inl _ \<Rightarrow> nil | Inr a \<Rightarrow> one (fst a)) nil st st3"
      using d(3) by simp
    then show ?thesis using g(1) Inr a s2(1) d(1,2) by (simp add: yields_def vfs_lookparent_def)
  qed
qed

lemma lookup:
  assumes "vfs_wf st" "fsinv st" "room 2 st" "free_locks st"
  shows "yields fsinv (\<lambda>v. v) (vfs_lookup ops path) st"
proof -
  obtain r st1 where g: "Kern_Vfs.getdevice ops path st = Some (r, st1)" "fsinv st1"
      "moved (case r of Inl _ \<Rightarrow> nil | Inr a \<Rightarrow> one (snd a)) nil st st1"
    using getdevice [OF assms] unfolding yields_def by blast
  show ?thesis
  proof (cases r)
    case (Inl e)
    then show ?thesis using g by (simp add: yields_def vfs_lookup_def)
  next
    case (Inr a)
    obtain sub v where a: "a = (sub, v)" by fastforce
    have m: "moved (one v) nil st st1" using g(3) Inr a by simp
    have wf1: "vfs_wf st1" "1 \<le> rc st1 v"
      using moved_wf [OF m] moved_rc [OF m, of v] wf_counts [OF assms(1), of v] by simp_all
    have r1: "room 1 st1" by (rule room_moved [OF m assms(3)]) simp
    show ?thesis
    proof (cases "sub = []")
      case True
      then show ?thesis using g(1,2) Inr a m by (simp add: yields_def vfs_lookup_def)
    next
      case False
      obtain r2 st2 where s2: "vop_lookup ops v sub st1 = Some (r2, st2)" "fsinv st2"
          "moved (case r2 of Inl _ \<Rightarrow> nil | Inr a \<Rightarrow> one a) nil st1 st2"
        using op_lookup [OF wf1(1) g(2) wf1(2) r1, of sub] unfolding yields_def by blast
      note t = moved_trans [OF m s2(3)]
      have "1 \<le> one v v + (case r2 of Inl _ \<Rightarrow> nil | Inr a \<Rightarrow> one a) v" by (auto split: sum.splits)
      then obtain st3 where d: "vnode_decref ops v st2 = Some st3" "fsinv st3"
          "moved (\<lambda>w. one v w + (case r2 of Inl _ \<Rightarrow> nil | Inr a \<Rightarrow> one a) w - one v w) (\<lambda>w. 0 + 0) st st3"
        using decref_after [OF assms(1) t s2(2), of v] by auto
      have "moved (case r2 of Inl _ \<Rightarrow> nil | Inr a \<Rightarrow> one a) nil st st3" using d(3) by simp
      then show ?thesis
        using g(1) Inr a False s2(1) d(1,2) by (simp add: yields_def vfs_lookup_def VOP_eq [OF wf1])
    qed
  qed
qed

lemma open_start:
  assumes "vfs_wf st" "fsinv st" "room 2 st" "free_locks st"
  shows "yields fsinv (\<lambda>v. v) (Kern_Vfs.open_start ops path flags) st"
proof (cases "flags AND O_CREAT \<noteq> 0")
  case False
  then show ?thesis using lookup [OF assms] by (simp add: yields_def Kern_Vfs.open_start_def)
next
  case True
  obtain r st1 where g: "vfs_lookparent ops path (NAME_MAX + 1) st = Some (r, st1)" "fsinv st1"
      "moved (case r of Inl _ \<Rightarrow> nil | Inr a \<Rightarrow> one (fst a)) nil st st1"
    using lookparent [OF assms] unfolding yields_def by blast
  show ?thesis
  proof (cases r)
    case (Inl e)
    then show ?thesis using g True by (simp add: yields_def Kern_Vfs.open_start_def)
  next
    case (Inr a)
    obtain v name where a: "a = (v, name)" by fastforce
    have m: "moved (one v) nil st st1" using g(3) Inr a by simp
    have wf1: "vfs_wf st1" "1 \<le> rc st1 v"
      using moved_wf [OF m] moved_rc [OF m, of v] wf_counts [OF assms(1), of v] by simp_all
    have r1: "room 1 st1" by (rule room_moved [OF m assms(3)]) simp
    obtain r2 st2 where s2: "vop_creat ops v name (flags AND O_EXCL \<noteq> 0) st1 = Some (r2, st2)" "fsinv st2"
        "moved (case r2 of Inl _ \<Rightarrow> nil | Inr a \<Rightarrow> one a) nil st1 st2"
      using op_creat [OF wf1(1) g(2) wf1(2) r1, of name "flags AND O_EXCL \<noteq> 0"] unfolding yields_def by blast
    note t = moved_trans [OF m s2(3)]
    have "1 \<le> one v v + (case r2 of Inl _ \<Rightarrow> nil | Inr a \<Rightarrow> one a) v" by (auto split: sum.splits)
    then obtain st3 where d: "vnode_decref ops v st2 = Some st3" "fsinv st3"
        "moved (\<lambda>w. one v w + (case r2 of Inl _ \<Rightarrow> nil | Inr a \<Rightarrow> one a) w - one v w) (\<lambda>w. 0 + 0) st st3"
      using decref_after [OF assms(1) t s2(2), of v] by auto
    have "moved (case r2 of Inl _ \<Rightarrow> nil | Inr a \<Rightarrow> one a) nil st st3" using d(3) by simp
    then show ?thesis
      using g(1) Inr a s2(1) d(1,2) True by (simp add: yields_def Kern_Vfs.open_start_def VOP_eq [OF wf1])
  qed
qed

lemma open_rest:
  assumes "vfs_wf st" "moved (one v) nil st st1" "fsinv st1" "room 1 st1"
  shows "\<exists>r st'. Kern_Vfs.open_rest ops flags canwrite v st1 = Some (r, st') \<and> fsinv st' \<and>
     (case r of Inl _ \<Rightarrow> moved nil nil st st' | Inr w \<Rightarrow> w = v \<and> moved (one v) (one v) st st')"
proof -
  have wf1: "vfs_wf st1" "1 \<le> rc st1 v"
    using moved_wf [OF assms(2)] moved_rc [OF assms(2), of v] wf_counts [OF assms(1), of v] by simp_all
  obtain r2 st2 where s2: "vop_open ops v flags st1 = Some (r2, st2)" "fsinv st2" "moved nil nil st1 st2"
    using op_open [OF wf1(1) assms(3) wf1(2)] unfolding neutral_def by blast
  have m2: "moved (one v) nil st st2" using moved_trans [OF assms(2) s2(3)] by simp
  show ?thesis
  proof (cases r2)
    case (Inl e)
    obtain st3 where "vnode_decref ops v st2 = Some st3" "fsinv st3" "moved nil nil st st3"
      using decref_after [OF assms(1) m2 s2(2), of v] by auto
    then show ?thesis using Inl s2(1) by (simp add: Kern_Vfs.open_rest_def VOP_eq [OF wf1])
  next
    case (Inr x)
    have c2: "oc st2 v + held st2 v + 1 \<le> rc st2 v"
      using wf_counts(3) [OF assms(1), of v] moved_rc [OF m2, of v] moved_oc [OF m2, of v] moved_held [OF m2, of v] by simp
    have "room 1 st2" by (rule room_moved [OF s2(3) assms(4)]) simp
    then obtain st3 where s3: "vnode_incopen v st2 = Some st3" "fsinv st3" "moved nil (one v) st2 st3"
      using incopen [OF moved_wf [OF m2] s2(2) c2] by blast
    have m3: "moved (one v) (one v) st st3" using moved_trans [OF m2 s3(3)] by simp
    have wf3: "vfs_wf st3" "1 \<le> rc st3 v"
      using moved_wf [OF m3] moved_rc [OF m3, of v] wf_counts [OF assms(1), of v] by simp_all
    obtain r4 st4 where s4: "(if flags AND O_TRUNC \<noteq> 0 then (if \<not> canwrite then Some (Inl EINVAL, st3)
          else VOP ''truncate'' v (vop_truncate ops v 0) st3) else Some (Inr (), st3)) = Some (r4, st4)" "fsinv st4" "moved nil nil st3 st4"
      using op_truncate [OF wf3(1) s3(2) wf3(2), of 0] moved_refl [OF wf3(1)] s3(2)
      unfolding neutral_def VOP_eq [OF wf3] by (cases "flags AND O_TRUNC \<noteq> 0"; cases canwrite) auto
    have m4: "moved (one v) (one v) st st4" using moved_trans [OF m3 s4(3)] by simp
    show ?thesis
    proof (cases r4)
      case (Inr y)
      then show ?thesis using s2(1) \<open>r2 = Inr x\<close> s3(1) s4(1,2) m4 by (simp add: Kern_Vfs.open_rest_def VOP_eq [OF wf1])
    next
      case (Inl e)
      have "1 \<le> oc st4 v" using moved_oc [OF m4, of v] wf_counts(1) [OF assms(1), of v] by simp
      then obtain st5 where s5: "vnode_decopen ops v st4 = Some st5" "fsinv st5" "moved nil (\<lambda>w. - one v w) st4 st5"
        using decopen [OF moved_wf [OF m4] s4(2)] by blast
      have m5: "moved (one v) nil st st5" using moved_trans [OF m4 s5(3)] by simp
      obtain st6 where "vnode_decref ops v st5 = Some st6" "fsinv st6" "moved nil nil st st6"
        using decref_after [OF assms(1) m5 s5(2), of v] by auto
      then show ?thesis using s2(1) \<open>r2 = Inr x\<close> s3(1) s4(1) s5(1) Inl by (simp add: Kern_Vfs.open_rest_def VOP_eq [OF wf1])
    qed
  qed
qed

lemma vfs_open_opens:
  assumes "vfs_wf st" "fsinv st" "room 2 st" "free_locks st"
  shows "opens fsinv (vfs_open ops path flags) st"
proof -
  obtain r st1 where s: "Kern_Vfs.open_start ops path flags st = Some (r, st1)" "fsinv st1" "moved (case r of Inl _ \<Rightarrow> nil | Inr v \<Rightarrow> one v) nil st st1"
    using open_start [OF assms, of path flags] unfolding yields_def by blast
  have same: "opens fsinv (\<lambda>st. Some (Inl EINVAL, st)) st" using assms(2) moved_refl [OF assms(1)] by (simp add: opens_def)
  have rest: "opens fsinv (\<lambda>st. do { (r, st1) \<leftarrow> Kern_Vfs.open_start ops path flags st;
      (case r of Inl e \<Rightarrow> Some (Inl e, st1) | Inr vn \<Rightarrow> Kern_Vfs.open_rest ops flags canwrite vn st1) }) st" for canwrite
  proof (cases r)
    case (Inl e)
    then show ?thesis using s by (simp add: opens_def)
  next
    case (Inr v)
    then have m: "moved (one v) nil st st1" using s(3) by simp
    have "room 1 st1" by (rule room_moved [OF m assms(3)]) simp
    then obtain r' st' where "Kern_Vfs.open_rest ops flags canwrite v st1 = Some (r', st')" "fsinv st'"
        "case r' of Inl _ \<Rightarrow> moved nil nil st st' | Inr w \<Rightarrow> w = v \<and> moved (one v) (one v) st st'"
      using open_rest [OF assms(1) m s(2)] by blast
    then show ?thesis using s(1) Inr by (auto simp: opens_def split: sum.splits)
  qed
  show ?thesis unfolding opens_def vfs_open_def Let_def using same rest by (simp add: opens_def)
qed

lemma vfs_close_drops:
  assumes "vfs_wf st" "fsinv st" "1 \<le> oc st v"
  shows "\<exists>st'. vfs_close ops v st = Some st' \<and> fsinv st' \<and> moved (\<lambda>w. - one v w) (\<lambda>w. - one v w) st st'"
proof -
  obtain st1 where 1: "vnode_decopen ops v st = Some st1" "fsinv st1" "moved nil (\<lambda>w. - one v w) st st1"
    using decopen [OF assms] by blast
  obtain st2 where 2: "vnode_decref ops v st1 = Some st2" "fsinv st2" "moved (\<lambda>w. 0 - one v w) (\<lambda>w. - one v w) st st2"
    using decref_after [OF assms(1) 1(3,2), of v] by auto
  then show ?thesis using 1(1) by (simp add: vfs_close_def)
qed

lemma in_parent:
  assumes "vfs_wf st" "fsinv st" "room 2 st" "free_locks st"
    and "\<And>st v name. vfs_wf st \<Longrightarrow> fsinv st \<Longrightarrow> 1 \<le> rc st v \<Longrightarrow> neutral fsinv (f v name) st"
  shows "neutral fsinv (Kern_Vfs.in_parent ops opstr f path) st"
proof -
  obtain r st1 where g: "vfs_lookparent ops path (NAME_MAX + 1) st = Some (r, st1)" "fsinv st1"
      "moved (case r of Inl _ \<Rightarrow> nil | Inr a \<Rightarrow> one (fst a)) nil st st1"
    using lookparent [OF assms(1-4)] unfolding yields_def by blast
  show ?thesis
  proof (cases r)
    case (Inl e)
    then show ?thesis using g by (simp add: neutral_def in_parent_def)
  next
    case (Inr a)
    obtain v name where a: "a = (v, name)" by fastforce
    have m: "moved (one v) nil st st1" using g(3) Inr a by simp
    have wf1: "vfs_wf st1" "1 \<le> rc st1 v"
      using moved_wf [OF m] moved_rc [OF m, of v] wf_counts [OF assms(1), of v] by simp_all
    obtain r2 st2 where s2: "f v name st1 = Some (r2, st2)" "fsinv st2" "moved nil nil st1 st2"
      using assms(5) [OF wf1(1) g(2) wf1(2), of name] unfolding neutral_def by blast
    have m2: "moved (one v) nil st st2" using moved_trans [OF m s2(3)] by simp
    obtain st3 where "vnode_decref ops v st2 = Some st3" "fsinv st3" "moved nil nil st st3"
      using decref_after [OF assms(1) m2 s2(2), of v] by auto
    then show ?thesis using g(1) Inr a s2(1) by (simp add: neutral_def in_parent_def VOP_eq [OF wf1])
  qed
qed

text \<open>The common end of \<^verbatim>\<open>vfs_rename\<close> and \<^verbatim>\<open>vfs_link\<close>: with a reference to each of two vnodes, an operation, then both are dropped.\<close>

lemma two_dropped:
  assumes "vfs_wf st" "moved (\<lambda>x. one v x + one w x) nil st st2" "fsinv st2"
    and "\<And>vn wn. vs_vn st2 v = Some vn \<Longrightarrow> vs_vn st2 w = Some wn \<Longrightarrow> neutral fsinv (f vn wn) st2"
  shows "\<exists>r st'. do { vn \<leftarrow> vs_vn st2 v; wn \<leftarrow> vs_vn st2 w; (r3, st3) \<leftarrow> f vn wn st2; st4 \<leftarrow> vnode_decref ops w st3;
     st5 \<leftarrow> vnode_decref ops v st4; Some (r3, st5) } = Some (r, st') \<and> fsinv st' \<and> moved nil nil st st'"
proof -
  have "vfs_wf st2" "1 \<le> rc st2 v" "1 \<le> rc st2 w"
    using moved_wf [OF assms(2)] moved_rc [OF assms(2), of v] moved_rc [OF assms(2), of w] wf_counts [OF assms(1), of v]
      wf_counts [OF assms(1), of w] by simp_all
  then obtain vn wn where vw: "vs_vn st2 v = Some vn" "vs_vn st2 w = Some wn" using rc_ge1 by blast
  obtain r3 st3 where s3: "f vn wn st2 = Some (r3, st3)" "fsinv st3" "moved nil nil st2 st3"
    using assms(4) [OF vw] unfolding neutral_def by blast
  have m3: "moved (\<lambda>x. one v x + one w x) nil st st3" using moved_trans [OF assms(2) s3(3)] by simp
  obtain st4 where s4: "vnode_decref ops w st3 = Some st4" "fsinv st4" "moved (\<lambda>x. one v x + one w x - one w x) nil st st4"
    using decref_after [OF assms(1) m3 s3(2), of w] by auto
  have m4: "moved (one v) nil st st4" using s4(3) by simp
  obtain st5 where "vnode_decref ops v st4 = Some st5" "fsinv st5" "moved nil nil st st5"
    using decref_after [OF assms(1) m4 s4(2), of v] by auto
  then show ?thesis using vw s3(1) s4(1) by simp
qed

lemma second_lookparent:
  assumes "vfs_wf st" "moved (one v) nil st st1" "fsinv st1" "room 3 st" "free_locks st"
  shows "\<exists>r st2. vfs_lookparent ops path (NAME_MAX + 1) st1 = Some (r, st2) \<and> fsinv st2 \<and>
     (case r of Inl _ \<Rightarrow> moved (one v) nil st st2 | Inr (w, name) \<Rightarrow> moved (\<lambda>x. one v x + one w x) nil st st2)"
proof -
  have "room 2 st1" by (rule room_moved [OF assms(2,4)]) simp
  then obtain r st2 where "vfs_lookparent ops path (NAME_MAX + 1) st1 = Some (r, st2)" "fsinv st2"
      "moved (case r of Inl _ \<Rightarrow> nil | Inr a \<Rightarrow> one (fst a)) nil st1 st2"
    using lookparent [OF moved_wf [OF assms(2)] assms(3) _ moved_free_locks [OF assms(2,1,5)]] unfolding yields_def by blast
  then show ?thesis using moved_trans [OF assms(2)] by (cases r) (fastforce split: prod.splits)+
qed

lemma vfs_rename_neutral:
  assumes "vfs_wf st" "fsinv st" "room 3 st" "free_locks st"
  shows "neutral fsinv (vfs_rename ops path path2) st"
proof -
  have r2: "room 2 st" by (rule room_mono [OF assms(3)]) simp
  obtain r st1 where g: "vfs_lookparent ops path (NAME_MAX + 1) st = Some (r, st1)" "fsinv st1"
      "moved (case r of Inl _ \<Rightarrow> nil | Inr a \<Rightarrow> one (fst a)) nil st st1"
    using lookparent [OF assms(1,2) r2 assms(4)] unfolding yields_def by blast
  show ?thesis
  proof (cases r)
    case (Inl e)
    then show ?thesis using g by (simp add: neutral_def vfs_rename_def)
  next
    case (Inr a)
    obtain v name where a: "a = (v, name)" by fastforce
    have m: "moved (one v) nil st st1" using g(3) Inr a by simp
    obtain r2 st2 where s2: "vfs_lookparent ops path2 (NAME_MAX + 1) st1 = Some (r2, st2)" "fsinv st2"
        "case r2 of Inl _ \<Rightarrow> moved (one v) nil st st2 | Inr (w, name) \<Rightarrow> moved (\<lambda>x. one v x + one w x) nil st st2"
      using second_lookparent [OF assms(1) m g(2) assms(3,4)] by blast
    show ?thesis
    proof (cases r2)
      case (Inl e)
      then have m2: "moved (one v) nil st st2" using s2(3) by simp
      obtain st3 where "vnode_decref ops v st2 = Some st3" "fsinv st3" "moved nil nil st st3"
        using decref_after [OF assms(1) m2 s2(2), of v] by auto
      then show ?thesis using g(1) Inr a s2(1) Inl by (simp add: neutral_def vfs_rename_def)
    next
      case (Inr b)
      obtain w name2 where b: "b = (w, name2)" by fastforce
      have m2: "moved (\<lambda>x. one v x + one w x) nil st st2" using s2(3) Inr b by simp
      have wf2: "vfs_wf st2" "1 \<le> rc st2 v" "1 \<le> rc st2 w"
        using moved_wf [OF m2] moved_rc [OF m2, of v] moved_rc [OF m2, of w] wf_counts [OF assms(1), of v]
          wf_counts [OF assms(1), of w] by simp_all
      have "neutral fsinv (\<lambda>st2. if vn_fs vn = None \<or> vn_fs wn = None \<or> vn_fs vn \<noteq> vn_fs wn then Some (Inl EXDEV, st2)
          else VOP ''rename'' v (vop_rename ops v name w name2) st2) st2" for vn wn
        using op_rename [OF wf2(1) s2(2) wf2(2,3)] moved_refl [OF wf2(1)] s2(2) by (simp add: neutral_def VOP_eq [OF wf2(1,2)])
      note t = two_dropped [OF assms(1) m2 s2(2) this]
      show ?thesis using t g(1) \<open>r = Inr a\<close> a s2(1) Inr b by (simp add: neutral_def vfs_rename_def)
    qed
  qed
qed

lemma vfs_link_neutral:
  assumes "vfs_wf st" "fsinv st" "room 3 st" "free_locks st"
  shows "neutral fsinv (vfs_link ops path path2) st"
proof -
  have r2: "room 2 st" by (rule room_mono [OF assms(3)]) simp
  obtain r st1 where g: "vfs_lookup ops path st = Some (r, st1)" "fsinv st1" "moved (case r of Inl _ \<Rightarrow> nil | Inr a \<Rightarrow> one a) nil st st1"
    using lookup [OF assms(1,2) r2 assms(4)] unfolding yields_def by blast
  show ?thesis
  proof (cases r)
    case (Inl e)
    then show ?thesis using g by (simp add: neutral_def vfs_link_def)
  next
    case (Inr v)
    have m: "moved (one v) nil st st1" using g(3) Inr by simp
    obtain r2 st2 where s2: "vfs_lookparent ops path2 (NAME_MAX + 1) st1 = Some (r2, st2)" "fsinv st2"
        "case r2 of Inl _ \<Rightarrow> moved (one v) nil st st2 | Inr (w, name) \<Rightarrow> moved (\<lambda>x. one v x + one w x) nil st st2"
      using second_lookparent [OF assms(1) m g(2) assms(3,4)] by blast
    show ?thesis
    proof (cases r2)
      case (Inl e)
      then have m2: "moved (one v) nil st st2" using s2(3) by simp
      obtain st3 where "vnode_decref ops v st2 = Some st3" "fsinv st3" "moved nil nil st st3"
        using decref_after [OF assms(1) m2 s2(2), of v] by auto
      then show ?thesis using g(1) Inr s2(1) Inl by (simp add: neutral_def vfs_link_def)
    next
      case (Inr b)
      obtain w name2 where b: "b = (w, name2)" by fastforce
      have m2: "moved (\<lambda>x. one v x + one w x) nil st st2" using s2(3) Inr b by simp
      have wf2: "vfs_wf st2" "1 \<le> rc st2 v" "1 \<le> rc st2 w"
        using moved_wf [OF m2] moved_rc [OF m2, of v] moved_rc [OF m2, of w] wf_counts [OF assms(1), of v]
          wf_counts [OF assms(1), of w] by simp_all
      have "neutral fsinv (\<lambda>st2. if vn_fs vn = None \<or> vn_fs wn = None \<or> vn_fs vn \<noteq> vn_fs wn then Some (Inl EXDEV, st2)
          else VOP ''link'' w (vop_link ops w name2 v) st2) st2" for vn wn
        using op_link [OF wf2(1) s2(2) wf2(3,2)] moved_refl [OF wf2(1)] s2(2) by (simp add: neutral_def VOP_eq [OF wf2(1,3)])
      note t = two_dropped [OF assms(1) m2 s2(2) this]
      show ?thesis using t g(1) \<open>r = Inr v\<close> s2(1) Inr b by (simp add: neutral_def vfs_link_def)
    qed
  qed
qed

end

section \<open>Devices meet the contract\<close>

text \<open>A state in which every vnode is the vnode of a device in the table, and no file system is mounted.\<close>

definition dev_vn :: "'d vfs \<Rightarrow> vnode \<Rightarrow> bool" where
  "dev_vn st vn \<longleftrightarrow> vn_fs vn = None \<and> (\<exists>d dv. vn_data vn = Some d \<and> vs_dev st d = Some dv)"

definition dev_inv :: "'d vfs \<Rightarrow> bool" where
  "dev_inv st \<longleftrightarrow> (\<forall>v vn. vs_vn st v = Some vn \<longrightarrow> in_table st v \<and> dev_vn st vn) \<and>
     (\<forall>p \<in> set (array_elems (vs_devs st)). \<forall>kd. vs_kd st p = Some kd \<longrightarrow> kd_fs kd = None)"

lemma all_map_upd:
  assumes "m v = Some a" "Q v b = Q v a"
  shows "(\<forall>w x. (m(v \<mapsto> b)) w = Some x \<longrightarrow> Q w x) = (\<forall>w x. m w = Some x \<longrightarrow> Q w x)"
  using assms by (metis fun_upd_apply option.inject)

lemma dev_inv_counts:
  assumes "vs_vn st v = Some vn"
  shows "dev_inv (put_vn v (vn\<lparr>vn_refcount := r, vn_opencount := k\<rparr>) st) = dev_inv st"
proof -
  let ?st = "put_vn v (vn\<lparr>vn_refcount := r, vn_opencount := k\<rparr>) st"
  have "in_table ?st w \<and> dev_vn ?st x \<longleftrightarrow> in_table st w \<and> dev_vn st x" for w x by (simp add: in_table_def dev_vn_def)
  moreover have "dev_vn st (vn\<lparr>vn_refcount := r, vn_opencount := k\<rparr>) = dev_vn st vn" by (simp add: dev_vn_def)
  ultimately show ?thesis
    using all_map_upd [of "vs_vn st" v vn "\<lambda>w x. in_table st w \<and> dev_vn st x"] assms
    by (simp add: dev_inv_def del: fun_upd_apply)
qed

lemma dev_vnode:
  assumes "vfs_wf st" "dev_inv st" "1 \<le> rc st v"
  shows "\<exists>d dv. dev_data v st = Some d \<and> vs_dev st d = Some dv"
proof -
  obtain vn where "vs_vn st v = Some vn" using rc_ge1 [OF assms(1,3)] by blast
  moreover from this obtain d dv where "vn_data vn = Some d" "vs_dev st d = Some dv"
    using assms(2) unfolding dev_inv_def dev_vn_def by blast
  ultimately show ?thesis by (simp add: dev_data_def)
qed

lemma neutral_same: "vfs_wf st \<Longrightarrow> fsinv st \<Longrightarrow> (\<And>st. \<exists>r. f st = Some (r, st)) \<Longrightarrow> neutral fsinv f st"
  using moved_refl unfolding neutral_def by blast

lemma neutral_dev:
  assumes "vfs_wf st" "dev_inv st" "1 \<le> rc st v" "\<And>d dv. dev_data v st = Some d \<Longrightarrow> vs_dev st d = Some dv \<Longrightarrow> \<exists>r. f st = Some (r, st)"
  shows "neutral dev_inv f st"
  using dev_vnode [OF assms(1-3)] assms moved_refl [OF assms(1)] unfolding neutral_def by blast

lemma dev_lookup_yields:
  assumes "vfs_wf st" "dev_inv st" "1 \<le> rc st v" "room 1 st"
  shows "yields dev_inv (\<lambda>v. v) (dev_lookup v path) st"
proof (cases "path = []")
  case False
  then show ?thesis using assms(2) moved_refl [OF assms(1)] by (simp add: yields_def dev_lookup_def)
next
  case True
  obtain vn where vn: "vs_vn st v = Some vn" "vn_wf st vn" "rc st v = vn_refcount vn" using rc_ge1 [OF assms(1,3)] by blast
  have b: "rc st v < 2 ^ 31 - 1" using assms(4) by (simp add: room_def algebra_simps)
  obtain st' where st': "vnode_incref v st = Some st'" "moved (one v) nil st st'"
    using vnode_incref_moved [OF assms(1,3) b] by blast
  have "st' = put_vn v (vn\<lparr>vn_refcount := vn_refcount vn + 1, vn_opencount := vn_opencount vn\<rparr>) st"
    using st'(1) vnode_incref_eq [OF vn(1)] vn b by (simp add: vn_wf_def)
  then have "dev_inv st'" using dev_inv_counts [OF vn(1)] assms(2) by (simp only:)
  then show ?thesis using True st' by (simp add: yields_def dev_lookup_def)
qed

lemma dev_held: "dev_inv st \<Longrightarrow> vs_vn st v = Some vn \<Longrightarrow> held st v \<noteq> 0"
  by (simp add: dev_inv_def held_def)

lemma dev_no_fs: "dev_inv st \<Longrightarrow> \<not> fs_known st fs"
  unfolding fs_known_def dev_inv_def dev_vn_def by fastforce

interpretation devfs: file_systems "dev_vnode_ops devnull_ops" dev_inv
proof (unfold_locales, goal_cases)
  case (1 st s)
  then show ?case by (simp add: dev_inv_def dev_vn_def in_table_def)
next
  case (2 st v vn r k)
  then show ?case by (rule dev_inv_counts)
next
  case (3 st c)
  then show ?case by (simp add: dev_inv_def dev_vn_def in_table_def)
next
  case (4 st v flags)
  then show ?case
    by (intro neutral_dev [where v = v]) (simp_all add: dev_vnode_ops_def dev_open_def devnull_ops_def nullopen_def)
next
  case (5 st v)
  then show ?case
    by (intro neutral_dev [where v = v]) (simp_all add: dev_vnode_ops_def dev_close_def devnull_ops_def nullclose_def)
next
  case (6 st v)
  then show ?case by (intro neutral_dev [where v = v]) (simp_all add: dev_vnode_ops_def dev_gettype_def)
next
  case (7 st v len)
  then show ?case by (intro neutral_dev [where v = v]) (simp_all add: dev_vnode_ops_def dev_truncate_def)
next
  case (8 st v name)
  then show ?case by (intro neutral_same) (simp_all add: dev_vnode_ops_def null_nameop_def)
next
  case (9 st v name)
  then show ?case by (intro neutral_same) (simp_all add: dev_vnode_ops_def null_nameop_def)
next
  case (10 st v name)
  then show ?case by (intro neutral_same) (simp_all add: dev_vnode_ops_def null_nameop_def)
next
  case (11 st v name name2)
  then show ?case by (intro neutral_same) (simp_all add: dev_vnode_ops_def null_symlink_def)
next
  case (12 st v w n1 n2)
  then show ?case by (intro neutral_same) (simp_all add: dev_vnode_ops_def null_rename_def)
next
  case (13 st v w name)
  then show ?case by (intro neutral_same) (simp_all add: dev_vnode_ops_def null_link_def)
next
  case (14 st v name excl)
  then show ?case using moved_refl by (simp add: yields_def dev_vnode_ops_def null_creat_def)
next
  case (15 st v path)
  then show ?case using dev_lookup_yields by (simp add: dev_vnode_ops_def)
next
  case (16 st v path blen)
  then show ?case using moved_refl by (simp add: yields_def dev_vnode_ops_def dev_lookparent_def)
next
  case (17 st fs)
  then show ?case using dev_no_fs by blast
next
  case (18 st v)
  then obtain vn where "vs_vn st v = Some vn" using rc_ge1 [of st v] by auto
  then show ?case using 18 dev_held [of st v vn] by simp
qed

text \<open>
  The null device alone: vnode 0 of device 1, entered as \<^verbatim>\<open>null:\<close> at 2, with \<open>r\<close> references and \<open>k\<close> opens;
  the locks of the table, of the boot file system and of the vnode are at 5, 6 and 7, others at the rest of \<open>L\<close>.
\<close>

definition wit_dev :: "nat set \<Rightarrow> int \<Rightarrow> int \<Rightarrow> unit vfs" where
  "wit_dev L r k = \<lparr>vs_sy = \<lparr>sy_ts = wit_tsys 4, sy_sem = Map.empty,
       sy_lock = (\<lambda>a. if a \<in> L then lock_create True True True True else None), sy_cv = Map.empty\<rparr>,
     vs_vn = [0 \<mapsto> \<lparr>vn_refcount = r, vn_opencount = k, vn_countlock = Some 7, vn_fs = None, vn_data = Some 1, vn_ops = Some VOP_MAGIC\<rparr>],
     vs_dev = [1 \<mapsto> \<lparr>d_blocks = 0, d_blocksize = 1\<rparr>],
     vs_kd = [2 \<mapsto> \<lparr>kd_name = ''null'', kd_rawname = None, kd_device = Some 1, kd_vnode = 0, kd_fs = None\<rparr>],
     vs_brk = 8, vs_cwd = None, vs_bootfs = None, vs_bootlock = Some 6,
     vs_devs = \<lparr>arr_num = 1, arr_max = 1, arr_v = Some [Some 2]\<rparr>, vs_devlock = Some 5, vs_disk = ()\<rparr>"

lemma wit_dev_idle: "l \<in> L \<Longrightarrow> lock_idle (Some l) (vs_sy (wit_dev L r k))"
  by (auto simp: wit_dev_def lock_idle_def lock_create_def wit_tsys_def q_create_def q_empty_def)

lemma wit_dev_sel:
  "rc (wit_dev L r k) v = (if v = 0 then r else 0)" "oc (wit_dev L r k) v = (if v = 0 then k else 0)"
  "array_elems (vs_devs (wit_dev L r k)) = [2]" "in_table (wit_dev L r k) v \<longleftrightarrow> v = 0" "held (wit_dev L r k) v = of_bool (v = 0)"
  "clocks (wit_dev L r k) = {Some 7}" "vs_devlock (wit_dev L r k) = Some 5" "vs_bootlock (wit_dev L r k) = Some 6"
  by (auto simp: wit_dev_def rc_def oc_def in_table_def held_def array_elems_def clocks_def)

lemma wit_dev_ok:
  assumes "{5, 6, 7} \<subseteq> L" "0 \<le> k" "k + 1 \<le> r"
  shows "vfs_wf (wit_dev L r k)" "dev_inv (wit_dev L r k)" "free_locks (wit_dev L r k)"
proof -
  show "vfs_wf (wit_dev L r k)"
    using assms wit_dev_idle [of 7 L r k] unfolding vfs_wf_def
    by (auto simp: wit_dev_sel vn_wf_def kd_wf_def) (auto simp: wit_dev_def array_invar_def array_wf_def array_full_def split: if_splits)
  show "dev_inv (wit_dev L r k)" unfolding dev_inv_def wit_dev_sel by (auto simp: wit_dev_def dev_vn_def split: if_splits)
  show "free_locks (wit_dev L r k)" using assms wit_dev_idle [of 5 L r k] wit_dev_idle [of 6 L r k] by (simp add: free_locks_def wit_dev_sel)
qed

abbreviation wit_vfs :: "unit vfs" where "wit_vfs \<equiv> wit_dev {5, 6, 7} 1 0"

lemma wit_vfs_ok: "vfs_wf wit_vfs" "dev_inv wit_vfs" "room 3 wit_vfs" "room 2 wit_vfs" "free_locks wit_vfs"
  by (auto intro!: wit_dev_ok simp: room_def wit_dev_sel)

section \<open>Properties\<close>

text \<open>
  Claim C10: opening a file balances its references. Whatever the path and the flags, \<^verbatim>\<open>vfs_open\<close> returns; on every
  error all reference and open counts are as before, on success exactly the vnode handed back has one reference and one open
  more, and closing it with \<^verbatim>\<open>vfs_close\<close> restores all counts. File systems only have to keep the counts as
  the comments of the vnode interface say.
\<close>

theorem vfs_open_balanced:
  assumes "file_systems ops fsinv" "vfs_wf st" "fsinv st" "room 2 st" "free_locks st"
  shows "\<exists>r st1. vfs_open ops path flags st = Some (r, st1) \<and>
     (case r of
        Inl e \<Rightarrow> \<forall>w. rc st1 w = rc st w \<and> oc st1 w = oc st w
      | Inr v \<Rightarrow> (\<forall>w. rc st1 w = rc st w + of_bool (w = v) \<and> oc st1 w = oc st w + of_bool (w = v)) \<and>
          (\<exists>st2. vfs_close ops v st1 = Some st2 \<and> (\<forall>w. rc st2 w = rc st w \<and> oc st2 w = oc st w)))"
proof -
  obtain r st1 where o: "vfs_open ops path flags st = Some (r, st1)" "fsinv st1"
      "case r of Inl _ \<Rightarrow> moved nil nil st st1 | Inr v \<Rightarrow> moved (one v) (one v) st st1"
    using file_systems.vfs_open_opens [OF assms, of path flags] unfolding opens_def by blast
  show ?thesis
  proof (cases r)
    case (Inl e)
    then show ?thesis using o by (auto simp: moved_def)
  next
    case (Inr v)
    then have m: "moved (one v) (one v) st st1" using o(3) by simp
    have "1 \<le> oc st1 v" using moved_oc [OF m, of v] wf_counts(1) [OF assms(2), of v] by simp
    then obtain st2 where c: "vfs_close ops v st1 = Some st2" "moved (\<lambda>w. - one v w) (\<lambda>w. - one v w) st1 st2"
      using file_systems.vfs_close_drops [OF assms(1) moved_wf [OF m] o(2)] by blast
    have "\<forall>w. rc st2 w = rc st w \<and> oc st2 w = oc st w"
      using moved_trans [OF m c(2)] by (simp add: moved_def)
    then show ?thesis using o(1) Inr m c(1) by (auto simp: moved_def)
  qed
qed

theorem vfs_open_balanced_witness:
  "vfs_wf wit_vfs \<and> dev_inv wit_vfs \<and> room 2 wit_vfs \<and> free_locks wit_vfs \<and>
   (\<exists>r st1. vfs_open (dev_vnode_ops devnull_ops) ''null:'' O_RDWR wit_vfs = Some (r, st1) \<and>
     (case r of
        Inl e \<Rightarrow> \<forall>w. rc st1 w = rc wit_vfs w \<and> oc st1 w = oc wit_vfs w
      | Inr v \<Rightarrow> (\<forall>w. rc st1 w = rc wit_vfs w + of_bool (w = v) \<and> oc st1 w = oc wit_vfs w + of_bool (w = v)) \<and>
          (\<exists>st2. vfs_close (dev_vnode_ops devnull_ops) v st1 = Some st2 \<and>
             (\<forall>w. rc st2 w = rc wit_vfs w \<and> oc st2 w = oc wit_vfs w))))"
  using wit_vfs_ok vfs_open_balanced [OF devfs.file_systems_axioms wit_vfs_ok(1,2,4,5), of "''null:''" O_RDWR]
  by (intro conjI)



text \<open>A name with a colon is refused, although the comment allows one at the end: the test is on the rest from the colon on.\<close>

lemma vfs_setbootfs_colon:
  assumes "CHR '':'' \<in> set (take (NAME_MAX - 1) fsname)"
  shows "vfs_setbootfs ops fsname st = Some (Inl EINVAL, st)"
  using assms by (auto simp: vfs_setbootfs_def Let_def dropWhile_eq_Nil_conv)

end
