(* ===== verification/Kern_File.thy ===== *)
theory Kern_File
  imports Kern_Vfs_Refs Kern_Table
begin

text \<open>
  Open files (\<^verbatim>\<open>kern/filedes/file.c\<close>) and the file tables of processes (\<^verbatim>\<open>filetable.c\<close>). A file is
  shared by the tables that refer to it and counts them; the last one to let go closes its vnode.
\<close>

section \<open>Data\<close>

record kfile =
  f_status :: int
  f_offset :: int
  f_v :: nat
  f_lock :: "nat option"
  f_numrefs :: int

record filetable =
  ft_files :: "nat ktable"
  ft_lock :: "nat option"

text \<open>The files and the file tables in memory; \<open>fy_brk\<close> is the next free address.\<close>

record 'd files =
  fy_vfs :: "'d vfs"
  fy_file :: "nat \<Rightarrow> kfile option"
  fy_ft :: "nat \<Rightarrow> filetable option"
  fy_brk :: nat

abbreviation fy_sy :: "'d files \<Rightarrow> syn" where
  "fy_sy fs \<equiv> vs_sy (fy_vfs fs)"

abbreviation put_sy :: "syn \<Rightarrow> 'd files \<Rightarrow> 'd files" where
  "put_sy sy fs \<equiv> fs\<lparr>fy_vfs := (fy_vfs fs)\<lparr>vs_sy := sy\<rparr>\<rparr>"

abbreviation put_file :: "nat \<Rightarrow> kfile \<Rightarrow> 'd files \<Rightarrow> 'd files" where
  "put_file f x fs \<equiv> fs\<lparr>fy_file := (fy_file fs)(f \<mapsto> x)\<rparr>"

abbreviation put_ft :: "nat \<Rightarrow> filetable \<Rightarrow> 'd files \<Rightarrow> 'd files" where
  "put_ft t x fs \<equiv> fs\<lparr>fy_ft := (fy_ft fs)(t \<mapsto> x)\<rparr>"

definition PROC_NFILES_MAX :: int where "PROC_NFILES_MAX = 50"

section \<open>Files\<close>

text \<open>\<open>new_lock\<close>: a call of \<^verbatim>\<open>lock_create\<close> that returns \<open>l\<close>.\<close>

definition new_lock :: "nat option \<Rightarrow> syn \<Rightarrow> syn option" where
  "new_lock l sy = (case l of
     None \<Rightarrow> Some sy
   | Some a \<Rightarrow> do {
       lk \<leftarrow> lock_create True True True True;
       Some (sy\<lparr>sy_lock := (sy_lock sy)(a \<mapsto> lk)\<rparr>) })"

text \<open>The test after \<^verbatim>\<open>lock_create\<close> looks at the file, not at the lock: the file may have no lock.\<close>

definition f_create :: "bool \<Rightarrow> nat option \<Rightarrow> int \<Rightarrow> int \<Rightarrow> nat \<Rightarrow> 'd files \<Rightarrow> (nat option \<times> 'd files) option" where
  "f_create ok l status offset v fs =
     (if \<not> ok then Some (None, fs)
      else do {
        sy \<leftarrow> new_lock l (fy_sy fs);
        let f = fy_brk fs;
        Some (Some f, put_file f \<lparr>f_status = status, f_offset = offset, f_v = v, f_lock = l, f_numrefs = 0\<rparr>
          (put_sy sy (fs\<lparr>fy_brk := Suc f\<rparr>))) })"

definition f_destroy :: "nat \<Rightarrow> 'd files \<Rightarrow> 'd files option" where
  "f_destroy f fs = do {
     x \<leftarrow> fy_file fs f;
     Some (fs\<lparr>fy_file := (fy_file fs)(f := None)\<rparr>) }"

section \<open>File tables\<close>

definition ft_create :: "bool \<Rightarrow> bool \<Rightarrow> bool \<Rightarrow> bool \<Rightarrow> nat option \<Rightarrow> 'd files \<Rightarrow> (nat option \<times> 'd files) option" where
  "ft_create ok okt oka okl l fs =
     (if \<not> ok then Some (None, fs)
      else (case tab_create okt oka okl of
          None \<Rightarrow> Some (None, fs)
        | Some tb \<Rightarrow>
            if l = None then do { r \<leftarrow> tab_destroy tb; Some (None, fs) }
            else do {
              sy \<leftarrow> new_lock l (fy_sy fs);
              let t = fy_brk fs;
              Some (Some t, put_ft t \<lparr>ft_files = tb, ft_lock = l\<rparr> (put_sy sy (fs\<lparr>fy_brk := Suc t\<rparr>))) }))"

text \<open>Giving up one reference to a file.\<close>

definition drop_file :: "'d vnode_ops \<Rightarrow> nat \<Rightarrow> 'd files \<Rightarrow> 'd files option" where
  "drop_file ops f fs = do {
     x \<leftarrow> fy_file fs f;
     let n = c_int (f_numrefs x - 1);
     let fs1 = put_file f (x\<lparr>f_numrefs := n\<rparr>) fs;
     if n = 0 then do {
       st \<leftarrow> vfs_close ops (f_v x) (fy_vfs fs1);
       f_destroy f (fs1\<lparr>fy_vfs := st\<rparr>) }
     else Some fs1 }"

text \<open>\<open>oks i\<close>: the two allocations of \<^verbatim>\<open>tab_remove\<close> for entry \<open>i\<close>; its result is not looked at here.\<close>

fun destroy_loop :: "'d vnode_ops \<Rightarrow> (int \<Rightarrow> bool \<times> bool) \<Rightarrow> nat \<Rightarrow> nat \<Rightarrow> int \<Rightarrow> 'd files \<Rightarrow> 'd files option" where
  "destroy_loop ops oks t 0 i fs = Some fs"
| "destroy_loop ops oks t (Suc n) i fs = do {
     ft \<leftarrow> fy_ft fs t;
     e \<leftarrow> tab_getguy (ft_files ft) i;
     fs1 \<leftarrow> (case e of
         None \<Rightarrow> Some fs
       | Some f \<Rightarrow> do {
           (_, tb) \<leftarrow> tab_remove (fst (oks i)) (snd (oks i)) (ft_files ft) i;
           drop_file ops f (put_ft t (ft\<lparr>ft_files := tb\<rparr>) fs) });
     destroy_loop ops oks t n (i + 1) fs1 }"

definition ft_destroy :: "'d vnode_ops \<Rightarrow> (int \<Rightarrow> bool \<times> bool) \<Rightarrow> nat \<Rightarrow> 'd files \<Rightarrow> 'd files option" where
  "ft_destroy ops oks t fs = do {
     ft \<leftarrow> fy_ft fs t;
     fs1 \<leftarrow> destroy_loop ops oks t (nat (tab_getsize (ft_files ft))) 0 fs;
     ft1 \<leftarrow> fy_ft fs1 t;
     r \<leftarrow> tab_destroy (ft_files ft1);
     l \<leftarrow> ft_lock ft1;
     sy \<leftarrow> lock_destroy l (fy_sy fs1);
     Some ((put_sy sy fs1)\<lparr>fy_ft := (fy_ft fs1)(t := None)\<rparr>) }"

text \<open>The part of a function between \<^verbatim>\<open>lock_acquire(ft->ft_lock)\<close> and the release at its end.\<close>

definition ft_locked :: "nat \<Rightarrow> ('d files \<Rightarrow> ('r \<times> 'd files) option) \<Rightarrow> 'd files \<Rightarrow> ('r \<times> 'd files) option" where
  "ft_locked t body fs = do {
     ft \<leftarrow> fy_ft fs t;
     sy1 \<leftarrow> lock_take (ft_lock ft) (fy_sy fs);
     (r, fs1) \<leftarrow> body (put_sy sy1 fs);
     sy2 \<leftarrow> lock_give (ft_lock ft) (fy_sy fs1);
     Some (r, put_sy sy2 fs1) }"

definition store_body :: "bool \<Rightarrow> nat \<Rightarrow> nat \<Rightarrow> 'd files \<Rightarrow> ((errno + int) \<times> 'd files) option" where
  "store_body ok t f fs = do {
     ft \<leftarrow> fy_ft fs t;
     if tab_getnum (ft_files ft) \<ge> PROC_NFILES_MAX then Some (Inl EMFILE, fs)
     else do {
       (r, tb) \<leftarrow> tab_add ok (ft_files ft) f;
       let fs1 = put_ft t (ft\<lparr>ft_files := tb\<rparr>) fs;
       (case r of
          Inl e \<Rightarrow> Some (Inl e, fs1)
        | Inr i \<Rightarrow> do {
            x \<leftarrow> fy_file fs1 f;
            Some (Inr i, put_file f (x\<lparr>f_numrefs := 1\<rparr>) fs1) }) } }"

definition ft_storefile :: "bool \<Rightarrow> nat \<Rightarrow> nat \<Rightarrow> 'd files \<Rightarrow> ((errno + int) \<times> 'd files) option" where
  "ft_storefile ok t f = ft_locked t (store_body ok t f)"

definition remove_body :: "'d vnode_ops \<Rightarrow> bool \<Rightarrow> bool \<Rightarrow> nat \<Rightarrow> int \<Rightarrow> 'd files \<Rightarrow> ((errno + unit) \<times> 'd files) option" where
  "remove_body ops okp okn t fd fs = do {
     ft \<leftarrow> fy_ft fs t;
     if fd < 0 \<or> fd \<ge> tab_getsize (ft_files ft) then Some (Inl ENOENT, fs)
     else do {
       e \<leftarrow> tab_getguy (ft_files ft) fd;
       (case e of
          None \<Rightarrow> Some (Inr (), fs)
        | Some f \<Rightarrow> do {
            (r, tb) \<leftarrow> tab_remove okp okn (ft_files ft) fd;
            kassert (r = Inr ());
            fs1 \<leftarrow> drop_file ops f (put_ft t (ft\<lparr>ft_files := tb\<rparr>) fs);
            Some (Inr (), fs1) }) } }"

definition ft_removefile :: "'d vnode_ops \<Rightarrow> bool \<Rightarrow> bool \<Rightarrow> nat \<Rightarrow> int \<Rightarrow> 'd files \<Rightarrow> ((errno + unit) \<times> 'd files) option" where
  "ft_removefile ops okp okn t fd = ft_locked t (remove_body ops okp okn t fd)"

definition get_body :: "nat \<Rightarrow> int \<Rightarrow> 'd files \<Rightarrow> ((errno + nat) \<times> 'd files) option" where
  "get_body t fd fs = do {
     ft \<leftarrow> fy_ft fs t;
     if fd < 0 \<or> fd \<ge> tab_getsize (ft_files ft) then Some (Inl EBADF, fs)
     else do {
       e \<leftarrow> tab_getguy (ft_files ft) fd;
       Some (case e of None \<Rightarrow> Inl EBADF | Some f \<Rightarrow> Inr f, fs) } }"

definition ft_getfile :: "nat \<Rightarrow> int \<Rightarrow> 'd files \<Rightarrow> ((errno + nat) \<times> 'd files) option" where
  "ft_getfile t fd = ft_locked t (get_body t fd)"

fun ref_loop :: "nat ktable \<Rightarrow> nat \<Rightarrow> int \<Rightarrow> 'd files \<Rightarrow> 'd files option" where
  "ref_loop tb 0 i fs = Some fs"
| "ref_loop tb (Suc n) i fs = do {
     e \<leftarrow> tab_getguy tb i;
     fs1 \<leftarrow> (case e of
         None \<Rightarrow> Some fs
       | Some f \<Rightarrow> do {
           x \<leftarrow> fy_file fs f;
           Some (put_file f (x\<lparr>f_numrefs := c_int (f_numrefs x + 1)\<rparr>) fs) });
     ref_loop tb n (i + 1) fs1 }"

definition duplicate_body :: "dup_allocs \<Rightarrow> nat \<Rightarrow> nat \<Rightarrow> 'd files \<Rightarrow> ((errno + unit) \<times> 'd files) option" where
  "duplicate_body al t nt fs = do {
     ft \<leftarrow> fy_ft fs t;
     nft \<leftarrow> fy_ft fs nt;
     (r, tb) \<leftarrow> tab_duplicate al (ft_files ft) (ft_files nft);
     let fs1 = put_ft nt (nft\<lparr>ft_files := tb\<rparr>) fs;
     (case r of
        Inl e \<Rightarrow> Some (Inl e, fs1)
      | Inr _ \<Rightarrow> do {
          fs2 \<leftarrow> ref_loop tb (nat (tab_getsize tb)) 0 fs1;
          Some (Inr (), fs2) }) }"

definition ft_duplicate :: "dup_allocs \<Rightarrow> nat \<Rightarrow> nat \<Rightarrow> 'd files \<Rightarrow> ((errno + unit) \<times> 'd files) option" where
  "ft_duplicate al t nt = ft_locked t (duplicate_body al t nt)"

definition ft_numfiles :: "nat \<Rightarrow> 'd files \<Rightarrow> (int \<times> 'd files) option" where
  "ft_numfiles t = ft_locked t (\<lambda>fs. do { ft \<leftarrow> fy_ft fs t; Some (tab_getnum (ft_files ft), fs) })"

definition ft_getsize :: "nat \<Rightarrow> 'd files \<Rightarrow> (int \<times> 'd files) option" where
  "ft_getsize t = ft_locked t (\<lambda>fs. do { ft \<leftarrow> fy_ft fs t; Some (tab_getsize (ft_files ft), fs) })"

section \<open>Descriptors and references\<close>

text \<open>A slot is a table and an index in it; a slot in use is an open descriptor.\<close>

definition entry :: "'d files \<Rightarrow> nat \<times> int \<Rightarrow> nat option" where
  "entry fs = (\<lambda>(t, i). case fy_ft fs t of None \<Rightarrow> None | Some ft \<Rightarrow> tab_entry (ft_files ft) i)"

definition slots :: "'d files \<Rightarrow> nat \<Rightarrow> (nat \<times> int) set" where
  "slots fs f = {s. entry fs s = Some f}"

definition files_of :: "'d files \<Rightarrow> nat \<Rightarrow> nat set" where
  "files_of fs v = {f. \<exists>x. fy_file fs f = Some x \<and> f_v x = v}"

definition tabs_ok :: "'d files \<Rightarrow> bool" where
  "tabs_ok fs \<longleftrightarrow> finite (dom (fy_ft fs)) \<and> finite (dom (fy_file fs)) \<and>
     (\<forall>t ft. fy_ft fs t = Some ft \<longrightarrow> tab_exact (ft_files ft) \<and> tab_getsize (ft_files ft) \<le> PROC_NFILES_MAX) \<and>
     (\<forall>a \<ge> fy_brk fs. fy_file fs a = None \<and> fy_ft fs a = None)"

text \<open>\<open>refs_at k\<close>: every file counts its slots, up to \<open>k\<close>, and every slot in use names a live file.\<close>

definition refs_at :: "(nat \<Rightarrow> int) \<Rightarrow> 'd files \<Rightarrow> bool" where
  "refs_at k fs \<longleftrightarrow>
     (\<forall>f x. fy_file fs f = Some x \<longrightarrow> f_numrefs x = int (card (slots fs f)) + k f \<and> 0 \<le> f_numrefs x \<and> f_numrefs x < 2 ^ 31) \<and>
     (\<forall>f. slots fs f \<noteq> {} \<or> k f \<noteq> 0 \<longrightarrow> fy_file fs f \<noteq> None)"

text \<open>Every file in memory holds one open of its vnode. \<open>surplus\<close>: the opens and references of a vnode that no file holds.\<close>

definition surplus :: "'d files \<Rightarrow> nat \<Rightarrow> int \<times> int" where
  "surplus fs v = (oc (fy_vfs fs) v - int (card (files_of fs v)), rc (fy_vfs fs) v - int (card (files_of fs v)))"

definition opens_ok :: "'d files \<Rightarrow> bool" where
  "opens_ok fs \<longleftrightarrow> (\<forall>v. 0 \<le> fst (surplus fs v))"

definition own_lock :: "'d vfs \<Rightarrow> nat option \<Rightarrow> bool" where
  "own_lock st l \<longleftrightarrow> lock_idle l (vs_sy st) \<and> l \<notin> clocks st \<and> l \<noteq> vs_devlock st \<and> l \<noteq> vs_bootlock st"

definition locks_ok :: "'d files \<Rightarrow> bool" where
  "locks_ok fs \<longleftrightarrow> (\<forall>t ft. fy_ft fs t = Some ft \<longrightarrow> own_lock (fy_vfs fs) (ft_lock ft)) \<and>
     (\<forall>t u ft fu. fy_ft fs t = Some ft \<longrightarrow> fy_ft fs u = Some fu \<longrightarrow> ft_lock ft = ft_lock fu \<longrightarrow> t = u)"

definition files_wf :: "'d files \<Rightarrow> bool" where
  "files_wf fs \<longleftrightarrow> vfs_wf (fy_vfs fs) \<and> tabs_ok fs \<and> refs_at nil fs \<and> opens_ok fs \<and> locks_ok fs"

lemma refs_atD:
  assumes "refs_at k fs" "fy_file fs f = Some x"
  shows "f_numrefs x = int (card (slots fs f)) + k f" "0 \<le> f_numrefs x" "f_numrefs x < 2 ^ 31"
  using assms unfolding refs_at_def by blast+

lemma refs_at_cong: "slots fs' = slots fs \<Longrightarrow> fy_file fs' = fy_file fs \<Longrightarrow> refs_at k fs' = refs_at k fs"
  by (simp only: refs_at_def)

lemma refs_at_live: "refs_at k fs \<Longrightarrow> entry fs s = Some f \<Longrightarrow> \<exists>x. fy_file fs f = Some x"
  unfolding refs_at_def slots_def by blast

text \<open>A change that concerns the slots and the count of one file only.\<close>

lemma refs_at_upd:
  assumes "refs_at k fs" "\<And>g. g \<noteq> f \<Longrightarrow> slots fs' g = slots fs g \<and> k' g = k g \<and> fy_file fs' g = fy_file fs g"
    and "\<And>x. fy_file fs' f = Some x \<Longrightarrow> f_numrefs x = int (card (slots fs' f)) + k' f \<and> 0 \<le> f_numrefs x \<and> f_numrefs x < 2 ^ 31"
    and "slots fs' f \<noteq> {} \<or> k' f \<noteq> 0 \<Longrightarrow> fy_file fs' f \<noteq> None"
  shows "refs_at k' fs'"
  unfolding refs_at_def
proof (intro conjI allI impI)
  fix g x
  assume x: "fy_file fs' g = Some x"
  have "f_numrefs x = int (card (slots fs' g)) + k' g \<and> 0 \<le> f_numrefs x \<and> f_numrefs x < 2 ^ 31"
    using assms(2) [of g] assms(3) [of x] x refs_atD [OF assms(1), of g x] by (cases "g = f") simp_all
  then show "f_numrefs x = int (card (slots fs' g)) + k' g" "0 \<le> f_numrefs x" "f_numrefs x < 2 ^ 31" by blast+
next
  fix g
  assume "slots fs' g \<noteq> {} \<or> k' g \<noteq> 0"
  then show "fy_file fs' g \<noteq> None" using assms unfolding refs_at_def by (cases "g = f") metis+
qed

lemma files_sy [simp]:
  "entry (put_sy s fs) = entry fs" "slots (put_sy s fs) = slots fs" "files_of (put_sy s fs) = files_of fs"
  "tabs_ok (put_sy s fs) = tabs_ok fs" "refs_at k (put_sy s fs) = refs_at k fs" "opens_ok (put_sy s fs) = opens_ok fs"
  "surplus (put_sy s fs) = surplus fs"
  by (simp_all add: entry_def slots_def fun_eq_iff files_of_def tabs_ok_def refs_at_def opens_ok_def surplus_def oc_def rc_def)

lemma opens_ok_surplus: "surplus fs' = surplus fs \<Longrightarrow> opens_ok fs' = opens_ok fs"
  by (simp add: opens_ok_def)

lemma surplus_ft [simp]: "surplus (fs\<lparr>fy_ft := m\<rparr>) = surplus fs" "surplus (fs\<lparr>fy_brk := b\<rparr>) = surplus fs"
  by (simp_all add: surplus_def files_of_def fun_eq_iff)

lemma files_vfs [simp]:
  "entry (fs\<lparr>fy_vfs := st\<rparr>) = entry fs" "slots (fs\<lparr>fy_vfs := st\<rparr>) = slots fs" "files_of (fs\<lparr>fy_vfs := st\<rparr>) = files_of fs"
  "tabs_ok (fs\<lparr>fy_vfs := st\<rparr>) = tabs_ok fs" "refs_at k (fs\<lparr>fy_vfs := st\<rparr>) = refs_at k fs"
  by (simp_all add: entry_def slots_def fun_eq_iff files_of_def tabs_ok_def refs_at_def)

lemma entry_file [simp]: "entry (fs\<lparr>fy_file := m\<rparr>) = entry fs" "slots (fs\<lparr>fy_file := m\<rparr>) = slots fs"
  by (simp_all add: entry_def slots_def fun_eq_iff)

lemma entry_brk [simp]: "entry (fs\<lparr>fy_brk := b\<rparr>) = entry fs" "slots (fs\<lparr>fy_brk := b\<rparr>) = slots fs"
  by (simp_all add: entry_def slots_def fun_eq_iff)

lemma entry_put:
  assumes "fy_ft fs t = Some ft" "tab_entry tb = (tab_entry (ft_files ft))(i := e)"
  shows "entry (put_ft t (ft\<lparr>ft_files := tb\<rparr>) fs) = (entry fs)((t, i) := e)"
  using assms by (auto simp: entry_def fun_eq_iff)

lemma slots_upd:
  "entry fs' = (entry fs)(s := e) \<Longrightarrow>
   slots fs' f = (if e = Some f then insert s (slots fs f) else slots fs f - {s})"
  by (auto simp: slots_def)

lemma files_of_put: "fy_file fs f = Some x \<Longrightarrow> f_v y = f_v x \<Longrightarrow> files_of (put_file f y fs) v = files_of fs v"
  by (auto simp: files_of_def)

lemma surplus_put: "fy_file fs f = Some x \<Longrightarrow> f_v y = f_v x \<Longrightarrow> surplus (put_file f y fs) = surplus fs"
  using files_of_put [of fs f x y] by (simp add: surplus_def fun_eq_iff)

lemma finite_slots:
  assumes "tabs_ok fs"
  shows "finite (slots fs f)"
proof -
  have "slots fs f \<subseteq> (SIGMA t : dom (fy_ft fs). {i. tab_entry (ft_files (the (fy_ft fs t))) i \<noteq> None})"
    by (auto simp: slots_def entry_def split: option.splits)
  moreover have "finite \<dots>" using assms by (intro finite_SigmaI) (simp_all add: tabs_ok_def tab_live_finite del: not_None_eq)
  ultimately show ?thesis by (rule finite_subset)
qed

lemma finite_files_of:
  assumes "tabs_ok fs"
  shows "finite (files_of fs v)"
proof -
  have "files_of fs v \<subseteq> dom (fy_file fs)" by (auto simp: files_of_def)
  then show ?thesis using assms by (auto simp: tabs_ok_def intro: finite_subset)
qed

lemma own_lock_moved:
  assumes "moved d e st st'" "own_lock st l"
  shows "own_lock st' l"
proof -
  obtain a lk where a: "l = Some a" "sy_lock (vs_sy st) a = Some lk" using assms(2) by (auto simp: own_lock_def lock_idle_def)
  then have "sy_lock (vs_sy st') a = sy_lock (vs_sy st) a" "Some a \<notin> clocks st'" "sy_ts (vs_sy st') = sy_ts (vs_sy st)"
    using assms by (simp_all add: moved_def own_lock_def)
  then show ?thesis using assms a(1) by (simp add: own_lock_def lock_idle_def moved_def)
qed

lemma ft_locked_run:
  assumes "vfs_wf (fy_vfs fs)" "fy_ft fs t = Some ft" "own_lock (fy_vfs fs) (ft_lock ft)"
    and "body (put_sy (lock_hold (ft_lock ft) (fy_sy fs)) fs) = Some (r, fs1)"
    and "moved d e ((fy_vfs fs)\<lparr>vs_sy := lock_hold (ft_lock ft) (fy_sy fs)\<rparr>) (fy_vfs fs1)"
  shows "\<exists>sy. ft_locked t body fs = Some (r, put_sy sy fs1) \<and> moved d e (fy_vfs fs) ((fy_vfs fs1)\<lparr>vs_sy := sy\<rparr>)"
proof -
  have l: "lock_idle (ft_lock ft) (fy_sy fs)" "ft_lock ft \<notin> clocks (fy_vfs fs)" using assms(3) by (simp_all add: own_lock_def)
  obtain sy where "lock_give (ft_lock ft) (fy_sy fs1) = Some sy" "moved d e (fy_vfs fs) ((fy_vfs fs1)\<lparr>vs_sy := sy\<rparr>)"
    using locked_moved [OF assms(1) l(2,1) assms(5)] by blast
  then show ?thesis using assms(2,4) l(1) by (intro exI [of _ sy]) (simp add: ft_locked_def)
qed

lemma ft_locked_same:
  assumes "files_wf fs" "fy_ft fs t = Some ft"
    and "body (put_sy (lock_hold (ft_lock ft) (fy_sy fs)) fs) = Some (r, fs1)"
    and "fy_vfs fs1 = (fy_vfs fs)\<lparr>vs_sy := lock_hold (ft_lock ft) (fy_sy fs)\<rparr>"
  shows "ft_locked t body fs = Some (r, fs1\<lparr>fy_vfs := fy_vfs fs\<rparr>)"
proof -
  have "lock_idle (ft_lock ft) (fy_sy fs)" using assms(1,2) by (auto simp: files_wf_def locks_ok_def own_lock_def)
  then show ?thesis using assms(2-4) by (simp add: ft_locked_def)
qed

text \<open>Well-formedness after an operation that left the locks of the tables alone.\<close>

lemma files_wf_step:
  assumes "files_wf fs" "moved d e (fy_vfs fs) (fy_vfs fs')" "tabs_ok fs'" "refs_at nil fs'" "opens_ok fs'"
    and "\<And>t ft. fy_ft fs' t = Some ft \<Longrightarrow> \<exists>ft0. fy_ft fs t = Some ft0 \<and> ft_lock ft0 = ft_lock ft"
  shows "files_wf fs'"
proof -
  have lk: "locks_ok fs" using assms(1) by (simp add: files_wf_def)
  have "own_lock (fy_vfs fs') (ft_lock ft)" if "fy_ft fs' t = Some ft" for t ft
    using assms(6) [OF that] lk own_lock_moved [OF assms(2)] unfolding locks_ok_def by metis
  moreover have "t = u" if "fy_ft fs' t = Some ft" "fy_ft fs' u = Some fu" "ft_lock ft = ft_lock fu" for t u ft fu
    using assms(6) [OF that(1)] assms(6) [OF that(2)] lk that(3) unfolding locks_ok_def by metis
  ultimately have "locks_ok fs'" unfolding locks_ok_def by blast
  then show ?thesis using assms moved_wf [OF assms(2)] by (simp add: files_wf_def)
qed

lemma files_wf_moved:
  assumes "files_wf fs" "moved d e (fy_vfs fs) (fy_vfs fs')" "tabs_ok fs'" "refs_at nil fs'" "surplus fs' = surplus fs"
    and "\<And>t ft. fy_ft fs' t = Some ft \<Longrightarrow> \<exists>ft0. fy_ft fs t = Some ft0 \<and> ft_lock ft0 = ft_lock ft"
  shows "files_wf fs'"
proof (rule files_wf_step [OF assms(1-4)])
  show "opens_ok fs'" using assms(1) opens_ok_surplus [OF assms(5)] by (simp add: files_wf_def)
qed (rule assms(6))

section \<open>The operations keep the counts\<close>

lemma tabs_ok_put_ft:
  assumes "tabs_ok fs" "fy_ft fs t = Some ft" "tab_exact tb" "tab_getsize tb \<le> PROC_NFILES_MAX"
  shows "tabs_ok (put_ft t (ft\<lparr>ft_files := tb\<rparr>) fs)"
proof -
  have "t < fy_brk fs" using assms(1,2) unfolding tabs_ok_def by (metis linorder_not_le option.distinct(1))
  then show ?thesis using assms by (simp add: tabs_ok_def)
qed

lemma tabs_ok_put_file:
  assumes "tabs_ok fs" "fy_file fs f = Some x"
  shows "tabs_ok (put_file f y fs)" "tabs_ok (fs\<lparr>fy_file := (fy_file fs)(f := None)\<rparr>)"
proof -
  have "f < fy_brk fs" using assms unfolding tabs_ok_def by (metis linorder_not_le option.distinct(1))
  then show "tabs_ok (put_file f y fs)" "tabs_ok (fs\<lparr>fy_file := (fy_file fs)(f := None)\<rparr>)"
    using assms(1) by (simp_all add: tabs_ok_def)
qed

lemma int_card_Diff: "finite A \<Longrightarrow> x \<in> A \<Longrightarrow> int (card (A - {x})) = int (card A) - 1"
  using card_Suc_Diff1 [of A x] by linarith

lemma c_int_pred: "0 < n \<Longrightarrow> n < 2 ^ 31 \<Longrightarrow> c_int (n - 1) = n - 1"
  by (simp add: c_int_id)

text \<open>New locks, files and tables.\<close>

lemma new_lock_moved:
  assumes "vfs_wf st" "sy_lock (vs_sy st) a = None"
  shows "\<exists>sy. new_lock (Some a) (vs_sy st) = Some sy \<and> moved nil nil st (st\<lparr>vs_sy := sy\<rparr>) \<and> sy_ts sy = sy_ts (vs_sy st) \<and>
     (ts_cur (sy_ts (vs_sy st)) \<noteq> None \<longrightarrow> lock_idle (Some a) sy)"
proof -
  define lk where "lk = \<lparr>lk_held = None, lk_wait = q_create True True 10 :: nat kqueue option\<rparr>"
  define sy where "sy = (vs_sy st)\<lparr>sy_lock := (sy_lock (vs_sy st))(a \<mapsto> lk)\<rparr>"
  have idle: "lock_idle l sy" if "lock_idle l (vs_sy st)" for l using that assms(2) by (auto simp: lock_idle_def sy_def)
  have "vfs_wf (st\<lparr>vs_sy := sy\<rparr>)"
    using assms(1) idle by (auto simp: vfs_wf_def vn_wf_def rc_def oc_def held_def in_table_def)
  then have "moved nil nil st (st\<lparr>vs_sy := sy\<rparr>)" using assms(2) by (simp add: moved_def rc_def oc_def sy_def)
  moreover have "new_lock (Some a) (vs_sy st) = Some sy" by (simp add: new_lock_def lock_create_def sy_def lk_def)
  moreover have "lock_idle (Some a) sy" if "ts_cur (sy_ts (vs_sy st)) \<noteq> None"
    using that by (auto simp: lock_idle_def sy_def lk_def q_create_def q_empty_def)
  ultimately show ?thesis by (simp add: sy_def)
qed

lemma create_file:
  assumes "files_wf fs" "sy_lock (fy_sy fs) a = None" "0 < fst (surplus fs v)"
  shows "\<exists>fs'. f_create True (Some a) status offset v fs = Some (Some (fy_brk fs), fs') \<and> files_wf fs' \<and>
     moved nil nil (fy_vfs fs) (fy_vfs fs') \<and> entry fs' = entry fs \<and> fy_ft fs' = fy_ft fs \<and> fy_file fs (fy_brk fs) = None \<and>
     slots fs (fy_brk fs) = {} \<and> surplus fs' = (\<lambda>w. (fst (surplus fs w) - one v w, snd (surplus fs w) - one v w)) \<and>
     fy_file fs' = (fy_file fs)(fy_brk fs \<mapsto> \<lparr>f_status = status, f_offset = offset, f_v = v, f_lock = Some a, f_numrefs = 0\<rparr>)"
proof -
  have wf: "vfs_wf (fy_vfs fs)" "tabs_ok fs" "refs_at nil fs" "opens_ok fs" using assms(1) by (auto simp: files_wf_def)
  define f where "f = fy_brk fs"
  have f: "fy_file fs f = None" "slots fs f = {}" using wf(2,3) by (auto simp: f_def tabs_ok_def refs_at_def)
  obtain sy where sy: "new_lock (Some a) (fy_sy fs) = Some sy" "moved nil nil (fy_vfs fs) ((fy_vfs fs)\<lparr>vs_sy := sy\<rparr>)"
    using new_lock_moved [OF wf(1) assms(2)] by blast
  let ?x = "\<lparr>f_status = status, f_offset = offset, f_v = v, f_lock = Some a, f_numrefs = 0\<rparr>"
  define fs' where "fs' = put_file f ?x (put_sy sy (fs\<lparr>fy_brk := Suc f\<rparr>))"
  have run: "f_create True (Some a) status offset v fs = Some (Some f, fs')" using sy(1) by (simp add: f_create_def fs'_def f_def Let_def)
  have m: "moved nil nil (fy_vfs fs) (fy_vfs fs')" using sy(2) by (simp add: fs'_def)
  have e: "entry fs' = entry fs" by (simp add: fs'_def entry_def fun_eq_iff)
  then have sl: "slots fs' = slots fs" by (intro ext) (simp add: slots_def)
  have sp: "surplus fs' w = (fst (surplus fs w) - one v w, snd (surplus fs w) - one v w)" for w
  proof -
    have "files_of fs' w = (if w = v then insert f (files_of fs w) else files_of fs w)" "f \<notin> files_of fs w"
      using f(1) by (auto simp: fs'_def files_of_def)
    then show ?thesis using moved_oc [OF m, of w] moved_rc [OF m, of w] finite_files_of [OF wf(2), of w]
      by (cases "w = v") (simp_all add: surplus_def)
  qed
  have "opens_ok fs'" unfolding opens_ok_def sp
  proof
    fix w
    show "0 \<le> fst ((fst (surplus fs w) - one v w, snd (surplus fs w) - one v w))" using wf(4) assms(3) by (cases "w = v") (simp_all add: opens_ok_def)
  qed
  moreover have "tabs_ok fs'" using wf(2) by (simp add: fs'_def tabs_ok_def f_def)
  moreover have "refs_at nil fs'" by (rule refs_at_upd [OF wf(3), of f]) (use sl f in \<open>auto simp: fs'_def\<close>)
  ultimately have "files_wf fs'" by (intro files_wf_step [OF assms(1) m]) (auto simp: fs'_def)
  then show ?thesis using run m e f sp unfolding f_def [symmetric] by (auto simp: fs'_def)
qed

lemma create_table:
  assumes "files_wf fs" "sy_lock (fy_sy fs) a = None" "ts_cur (sy_ts (fy_sy fs)) \<noteq> None" "free_locks (fy_vfs fs)"
  shows "\<exists>fs' ft. ft_create True True True True (Some a) fs = Some (Some (fy_brk fs), fs') \<and> files_wf fs' \<and>
     moved nil nil (fy_vfs fs) (fy_vfs fs') \<and> surplus fs' = surplus fs \<and> entry fs' = entry fs \<and> fy_file fs' = fy_file fs \<and>
     fy_ft fs (fy_brk fs) = None \<and> fy_ft fs' = (fy_ft fs)(fy_brk fs \<mapsto> ft) \<and> tab_create True True True = Some (ft_files ft) \<and>
     (\<forall>b. b \<noteq> a \<longrightarrow> sy_lock (fy_sy fs') b = sy_lock (fy_sy fs) b)"
proof -
  have wf: "vfs_wf (fy_vfs fs)" "tabs_ok fs" "refs_at nil fs" "opens_ok fs" "locks_ok fs" using assms(1) by (auto simp: files_wf_def)
  define t where "t = fy_brk fs"
  have t: "fy_ft fs t = None" using wf(2) by (auto simp: t_def tabs_ok_def)
  obtain sy where sy: "new_lock (Some a) (fy_sy fs) = Some sy" "moved nil nil (fy_vfs fs) ((fy_vfs fs)\<lparr>vs_sy := sy\<rparr>)"
      "lock_idle (Some a) sy"
    using new_lock_moved [OF wf(1) assms(2)] assms(3) by blast
  have other_locks: "sy_lock sy b = sy_lock (fy_sy fs) b" if "b \<noteq> a" for b
    using sy(1) that by (auto simp: new_lock_def lock_create_def)
  obtain tb where tb: "tab_create True True True = Some (tb :: nat ktable)" by (simp add: tab_create_def array_create_def ll_create_def)
  note new = tab_create_invar [OF tb]
  define ft where "ft = \<lparr>ft_files = tb, ft_lock = Some a\<rparr>"
  define fs' where "fs' = put_ft t ft (put_sy sy (fs\<lparr>fy_brk := Suc t\<rparr>))"
  have run: "ft_create True True True True (Some a) fs = Some (Some t, fs')"
    using sy(1) tb by (simp add: ft_create_def fs'_def t_def ft_def Let_def)
  have m: "moved nil nil (fy_vfs fs) (fy_vfs fs')" using sy(2) by (simp add: fs'_def)
  have none: "tab_entry tb i = None" for i using new(2) by (auto simp: tab_entry_def)
  have e: "entry fs' = entry fs" using t none by (auto simp: fs'_def entry_def fun_eq_iff ft_def)
  then have sl: "slots fs' = slots fs" by (intro ext) (simp add: slots_def)
  have sp: "surplus fs' = surplus fs" by (simp add: fs'_def surplus_def files_of_def fun_eq_iff oc_def rc_def)
  have "tab_exact tb" "tab_getsize tb = 0" using new none tab_elems_num [OF new(1)] by (auto simp: tab_exact_def)
  then have tok: "tabs_ok fs'" using wf(2) by (simp add: fs'_def tabs_ok_def t_def ft_def PROC_NFILES_MAX_def)
  have ra: "refs_at nil fs'" using wf(3) refs_at_cong [OF sl] by (simp add: fs'_def)
  have notl: "l \<noteq> Some a" if "lock_idle l (fy_sy fs)" for l using that assms(2) by (auto simp: lock_idle_def)
  have "Some a \<notin> clocks (fy_vfs fs)"
  proof
    assume "Some a \<in> clocks (fy_vfs fs)"
    then obtain v vn where vn: "vs_vn (fy_vfs fs) v = Some vn" "vn_countlock vn = Some a" by (auto simp: clocks_def)
    then have "vn_wf (fy_vfs fs) vn" using wf(1) by (simp add: vfs_wf_def)
    then show False using notl [of "Some a"] vn(2) by (simp add: vn_wf_def)
  qed
  moreover have "vs_devlock (fy_vfs fs) \<noteq> Some a" "vs_bootlock (fy_vfs fs) \<noteq> Some a" using assms(4) notl by (auto simp: free_locks_def)
  ultimately have own: "own_lock (fy_vfs fs') (Some a)" using sy(3) by (auto simp: own_lock_def fs'_def clocks_def)
  have other: "own_lock (fy_vfs fs') (ft_lock fu) \<and> ft_lock fu \<noteq> Some a" if "fy_ft fs u = Some fu" for u fu
  proof -
    have "own_lock (fy_vfs fs) (ft_lock fu)" using wf(5) that by (auto simp: locks_ok_def)
    then show ?thesis using own_lock_moved [OF m] notl by (auto simp: own_lock_def)
  qed
  have "locks_ok fs'"
    unfolding locks_ok_def
  proof (intro conjI allI impI)
    fix u fu
    assume "fy_ft fs' u = Some fu"
    then show "own_lock (fy_vfs fs') (ft_lock fu)" using own other [of u fu] by (auto simp: fs'_def ft_def split: if_splits)
  next
    fix u u' fu fu'
    assume "fy_ft fs' u = Some fu" "fy_ft fs' u' = Some fu'" "ft_lock fu = ft_lock fu'"
    then show "u = u'" using wf(5) other [of u fu] other [of u' fu'] by (auto simp: fs'_def ft_def locks_ok_def split: if_splits)
  qed
  then have "files_wf fs'" using moved_wf [OF m] tok ra wf(4) opens_ok_surplus [OF sp] by (simp add: files_wf_def)
  then show ?thesis using run m e sp t tb other_locks unfolding t_def [symmetric] by (auto simp: fs'_def ft_def)
qed

text \<open>Taking a lock away that nobody else uses.\<close>

abbreviation unslept :: "nat \<Rightarrow> syn \<Rightarrow> bool" where
  "unslept a sy \<equiv> thread_hassleepers a (snd (splhigh (sy_ts sy))) = Some False"

lemma lock_destroy_idle:
  assumes "lock_idle (Some a) sy" "unslept a sy"
  shows "lock_destroy a sy = Some (sy\<lparr>sy_lock := (sy_lock sy)(a := None)\<rparr>)"
  using assms by (auto simp: lock_idle_def lock_destroy_def splhigh_def splx_def q_destroy_def)

lemma lock_gone:
  assumes "vfs_wf st" "Some a \<notin> clocks st"
  defines "st' \<equiv> st\<lparr>vs_sy := (vs_sy st)\<lparr>sy_lock := (sy_lock (vs_sy st))(a := None)\<rparr>\<rparr>"
  shows "vfs_wf st'" "rc st' = rc st" "oc st' = oc st" "l \<noteq> Some a \<Longrightarrow> own_lock st l \<Longrightarrow> own_lock st' l"
proof -
  have idle: "lock_idle l (vs_sy st')" if "lock_idle l (vs_sy st)" "l \<noteq> Some a" for l using that by (auto simp: lock_idle_def st'_def)
  have "vn_wf st' vn" if "vs_vn st v = Some vn" "vn_wf st vn" for v vn
    using that clocks_hold [OF assms(2) that(1)] idle by (auto simp: vn_wf_def st'_def)
  then show "vfs_wf st'" using assms(1) by (simp add: vfs_wf_def st'_def rc_def oc_def held_def in_table_def)
  show "rc st' = rc st" "oc st' = oc st" by (simp_all add: st'_def rc_def oc_def fun_eq_iff)
  show "own_lock st' l" if "l \<noteq> Some a" "own_lock st l" using that idle by (simp add: own_lock_def st'_def)
qed

lemma files_wf_cv: "files_wf (put_sy ((fy_sy fs)\<lparr>sy_cv := m\<rparr>) fs) = files_wf fs"
proof -
  have idle: "lock_idle l ((fy_sy fs)\<lparr>sy_cv := m\<rparr>) = lock_idle l (fy_sy fs)" for l by (simp add: lock_idle_def)
  have "vfs_wf ((fy_vfs fs)\<lparr>vs_sy := (fy_sy fs)\<lparr>sy_cv := m\<rparr>\<rparr>) = vfs_wf (fy_vfs fs)"
    by (simp add: vfs_wf_def vn_wf_def idle oc_def rc_def held_def in_table_def)
  moreover have "locks_ok (put_sy ((fy_sy fs)\<lparr>sy_cv := m\<rparr>) fs) = locks_ok fs" by (simp add: locks_ok_def own_lock_def idle)
  ultimately show ?thesis by (simp add: files_wf_def)
qed

lemma files_wf_ts:
  assumes "ts_cur ts \<noteq> None" "ts_cur (sy_ts (fy_sy fs)) \<noteq> None"
  shows "files_wf (put_sy ((fy_sy fs)\<lparr>sy_ts := ts\<rparr>) fs) = files_wf fs"
proof -
  have idle: "lock_idle l ((fy_sy fs)\<lparr>sy_ts := ts\<rparr>) = lock_idle l (fy_sy fs)" for l using assms by (simp add: lock_idle_def)
  have "vfs_wf ((fy_vfs fs)\<lparr>vs_sy := (fy_sy fs)\<lparr>sy_ts := ts\<rparr>\<rparr>) = vfs_wf (fy_vfs fs)"
    by (simp add: vfs_wf_def vn_wf_def idle oc_def rc_def held_def in_table_def)
  moreover have "locks_ok (put_sy ((fy_sy fs)\<lparr>sy_ts := ts\<rparr>) fs) = locks_ok fs" by (simp add: locks_ok_def own_lock_def idle)
  ultimately show ?thesis by (simp add: files_wf_def)
qed

lemma files_wf_lock_gone:
  assumes "files_wf fs" "own_lock (fy_vfs fs) (Some a)" "\<And>t ft. fy_ft fs t = Some ft \<Longrightarrow> ft_lock ft \<noteq> Some a"
  shows "files_wf (put_sy ((fy_sy fs)\<lparr>sy_lock := (sy_lock (fy_sy fs))(a := None)\<rparr>) fs)"
proof -
  note gone = lock_gone [of "fy_vfs fs" a] assms(2) [unfolded own_lock_def]
  have "locks_ok (put_sy ((fy_sy fs)\<lparr>sy_lock := (sy_lock (fy_sy fs))(a := None)\<rparr>) fs)"
    using assms(1,3) gone by (auto simp: files_wf_def locks_ok_def)
  then show ?thesis using assms(1) gone by (simp add: files_wf_def)
qed

lemma getfile:
  assumes "files_wf fs" "fy_ft fs t = Some ft"
  shows "ft_getfile t i fs = Some (case entry fs (t, i) of None \<Rightarrow> Inl EBADF | Some f \<Rightarrow> Inr f, fs)"
proof -
  let ?h = "put_sy (lock_hold (ft_lock ft) (fy_sy fs)) fs"
  have inv: "tab_invar (ft_files ft)" using assms by (auto simp: files_wf_def tabs_ok_def intro: tab_exact_invar)
  have "get_body t i ?h = Some (case entry fs (t, i) of None \<Rightarrow> Inl EBADF | Some f \<Rightarrow> Inr f, ?h)"
    using assms(2) tab_entry_eq [OF inv, of i] tab.entry_range [OF inv, of i]
    by (cases "tab_entry (ft_files ft) i") (auto simp: get_body_def entry_def)
  from ft_locked_same [where body = "get_body t i", OF assms this] show ?thesis by (simp add: ft_getfile_def)
qed

lemma entry_live: "fy_ft fs t = Some ft \<Longrightarrow> {i. entry fs (t, i) \<noteq> None} = {i. tab_entry (ft_files ft) i \<noteq> None}"
  by (simp add: entry_def)

lemma storefile:
  assumes "files_wf fs" "fy_ft fs t = Some ft" "fy_file fs f = Some x" "slots fs f = {}"
  shows "\<exists>r fs'. ft_storefile ok t f fs = Some (r, fs') \<and> files_wf fs' \<and> fy_vfs fs' = fy_vfs fs \<and> surplus fs' = surplus fs \<and> fy_brk fs' = fy_brk fs \<and>
     dom (fy_ft fs') = dom (fy_ft fs) \<and>
     (case r of
        Inl e \<Rightarrow> (e = EMFILE \<and> card {i. entry fs (t, i) \<noteq> None} = 50 \<or> e = ENOMEM \<and> \<not> ok) \<and>
          entry fs' = entry fs \<and> fy_file fs' = fy_file fs
      | Inr i \<Rightarrow> card {i. entry fs (t, i) \<noteq> None} < 50 \<and> entry fs (t, i) = None \<and> entry fs' = (entry fs)((t, i) := Some f) \<and>
          fy_file fs' = (fy_file fs)(f \<mapsto> x\<lparr>f_numrefs := 1\<rparr>))"
proof -
  have wf: "vfs_wf (fy_vfs fs)" "tabs_ok fs" "refs_at nil fs" using assms(1) by (auto simp: files_wf_def)
  have ex: "tab_exact (ft_files ft)" "tab_getsize (ft_files ft) \<le> 50" using wf(2) assms(2) by (auto simp: tabs_ok_def PROC_NFILES_MAX_def)
  let ?h = "put_sy (lock_hold (ft_lock ft) (fy_sy fs)) fs" and ?live = "{i. entry fs (t, i) \<noteq> None}"
  have num: "tab_getnum (ft_files ft) = int (card ?live)" using tab_exact_getnum [OF ex(1)] entry_live [OF assms(2)] by simp
  have "tab_getnum (ft_files ft) \<le> tab_getsize (ft_files ft)"
    using ll_getsize_eq [of "tab_slots (ft_files ft)"] tab_exact_invar [OF ex(1)] by (simp add: tab_getnum_def tab_getsize_def tab_invar_def)
  then have le: "card ?live \<le> 50" using num ex(2) by simp
  note wfI = files_wf_moved [OF assms(1), of nil nil]
  show ?thesis
  proof (cases "card ?live = 50")
    case True
    then have "store_body ok t f ?h = Some (Inl EMFILE, ?h)" using assms(2) num by (simp add: store_body_def PROC_NFILES_MAX_def)
    from ft_locked_same [where body = "store_body ok t f", OF assms(1,2) this] show ?thesis using True assms(1) by (simp add: ft_storefile_def)
  next
    case False
    then have lt: "card ?live < 50" using le by simp
    obtain r tb where tb: "tab_add ok (ft_files ft) f = Some (r, tb)" "tab_exact tb"
        "(\<exists>i. r = Inr i \<and> tab_entry (ft_files ft) i = None \<and> tab_entry tb = (tab_entry (ft_files ft))(i := Some f) \<and>
            tab_getsize tb \<le> max (tab_getsize (ft_files ft)) (tab_getnum (ft_files ft) + 1)) \<or>
         r = Inl ENOMEM \<and> \<not> ok \<and> tab_entry tb = tab_entry (ft_files ft) \<and> tab_getsize tb = tab_getsize (ft_files ft)"
      using tab_exact_add [OF ex(1), of ok f] ex(2) by auto
    have sz: "tab_getsize tb \<le> PROC_NFILES_MAX" using tb(3) ex(2) num lt by (auto simp: PROC_NFILES_MAX_def)
    let ?fs = "put_ft t (ft\<lparr>ft_files := tb\<rparr>) fs"
    have tok: "tabs_ok ?fs" by (rule tabs_ok_put_ft) (use wf(2) assms(2) tb(2) sz in auto)
    have body: "store_body ok t f ?h = (case r of Inl e \<Rightarrow> Some (Inl e, put_ft t (ft\<lparr>ft_files := tb\<rparr>) ?h)
        | Inr i \<Rightarrow> Some (Inr i, put_file f (x\<lparr>f_numrefs := 1\<rparr>) (put_ft t (ft\<lparr>ft_files := tb\<rparr>) ?h)))"
      using assms(2,3) num lt tb(1) by (simp add: store_body_def PROC_NFILES_MAX_def split: sum.split)
    from tb(3) show ?thesis
    proof (elim disjE exE conjE)
      fix i
      assume i: "r = Inr i" "tab_entry (ft_files ft) i = None" "tab_entry tb = (tab_entry (ft_files ft))(i := Some f)"
      let ?fs' = "put_file f (x\<lparr>f_numrefs := 1\<rparr>) ?fs"
      have run: "ft_storefile ok t f fs = Some (Inr i, ?fs')"
        using ft_locked_same [OF assms(1,2), of "store_body ok t f"] body i(1) by (simp add: ft_storefile_def)
      have e: "entry ?fs = (entry fs)((t, i) := Some f)" using entry_put [OF assms(2) i(3)] by simp
      have old: "entry fs (t, i) = None" using i(2) assms(2) by (simp add: entry_def)
      have sl: "slots ?fs g = (if g = f then {(t, i)} else slots fs g)" for g
        using slots_upd [OF e, of g] assms(4) old by (auto simp: slots_def)
      have "refs_at nil ?fs'" by (rule refs_at_upd [OF wf(3), of f]) (simp_all add: sl)
      moreover have "tabs_ok ?fs'" using tabs_ok_put_file(1) [OF tok, of f x] assms(3) by simp
      moreover have sp: "surplus ?fs' = surplus fs" using surplus_put [of ?fs f x] assms(3) by simp
      ultimately have "files_wf ?fs'" using moved_refl [OF wf(1)] assms(2) by (intro wfI) (auto split: if_splits)
      then show ?thesis using run e old lt sp assms(2) by (simp add: insert_absorb domI)
    next
      assume i: "r = Inl ENOMEM" "\<not> ok" "tab_entry tb = tab_entry (ft_files ft)"
      have run: "ft_storefile ok t f fs = Some (Inl ENOMEM, ?fs)"
        using ft_locked_same [OF assms(1,2), of "store_body ok t f"] body i(1) by (simp add: ft_storefile_def)
      have e: "entry ?fs = entry fs" using i(3) assms(2) by (auto simp: entry_def fun_eq_iff)
      then have "slots ?fs = slots fs" by (intro ext) (simp add: slots_def)
      then have "refs_at nil ?fs" using wf(3) refs_at_cong [of ?fs fs] by simp
      then have "files_wf ?fs" using moved_refl [OF wf(1)] assms(2) tok by (intro wfI) (auto split: if_splits)
      then show ?thesis using run e i(2) assms(2) by (simp add: insert_absorb domI)
    qed
  qed
qed

text \<open>\<open>after tb i f\<close>: the entries of a table from index \<open>i\<close> on that name the file \<open>f\<close>.\<close>

definition after :: "nat ktable \<Rightarrow> int \<Rightarrow> nat \<Rightarrow> int set" where
  "after tb i f = {j. i \<le> j \<and> tab_entry tb j = Some f}"

lemma after_finite: "finite (after tb i f)"
  by (rule finite_subset [OF _ tab_live_finite [of tb]]) (auto simp: after_def)

lemma after_step: "after tb i f = (if tab_entry tb i = Some f then insert i (after tb (i + 1) f) else after tb (i + 1) f)"
proof -
  have "i \<le> j \<longleftrightarrow> j = i \<or> i + 1 \<le> j" for j by linarith
  then show ?thesis by (auto simp: after_def)
qed

lemma after_card: "int (card (after tb i f)) = int (card (after tb (i + 1) f)) + of_bool (tab_entry tb i = Some f)"
proof -
  have "i \<notin> after tb (i + 1) f" by (simp add: after_def)
  then show ?thesis using after_step [of tb i f] after_finite [of tb "i + 1" f] by simp
qed

lemma ref_loop_counts:
  assumes "tab_invar tb" "0 \<le> i" "i + int n = tab_getsize tb" "refs_at (\<lambda>f. - int (card (after tb i f))) fs"
    and "\<And>f. int (card (slots fs f)) < 2 ^ 31"
  shows "\<exists>fs'. ref_loop tb n i fs = Some fs' \<and> refs_at nil fs' \<and> fy_vfs fs' = fy_vfs fs \<and> fy_ft fs' = fy_ft fs \<and>
     fy_brk fs' = fy_brk fs \<and> surplus fs' = surplus fs \<and>
     (\<forall>f. map_option (f_numrefs_update (\<lambda>_. 0)) (fy_file fs' f) = map_option (f_numrefs_update (\<lambda>_. 0)) (fy_file fs f))"
  using assms(2-5)
proof (induction n arbitrary: i fs)
  case 0
  have "after tb i f = {}" for f using 0(2) tab.entry_range [OF assms(1)] by (force simp: after_def)
  then show ?case using 0(3) by simp
next
  case (Suc n)
  have i: "i < tab_getsize tb" using Suc.prems(2) by simp
  have get: "tab_getguy tb i = Some (tab_entry tb i)" using tab_entry_eq [OF assms(1), of i] Suc.prems(1) i by simp
  show ?case
  proof (cases "tab_entry tb i")
    case None
    have "after tb i = after tb (i + 1)" using after_step [of tb i] None by (simp add: fun_eq_iff)
    then show ?thesis using Suc.IH [of "i + 1" fs] Suc.prems get None by simp
  next
    case (Some f)
    have one: "- int (card (after tb i g)) = - int (card (after tb (i + 1) g)) - one f g" for g
      using after_card [of tb i g] Some by simp
    have "card (after tb i f) > 0" using after_card [of tb i f] Some by simp
    then have "fy_file fs f \<noteq> None" using Suc.prems(3) unfolding refs_at_def by (metis neg_equal_0_iff_equal of_nat_0_eq_iff less_irrefl)
    then obtain x where x: "fy_file fs f = Some x" by blast
    note xr = refs_atD [OF Suc.prems(3) x]
    have lt: "f_numrefs x + 1 < 2 ^ 31" using xr(1) Suc.prems(4) [of f] one [of f] by simp
    let ?fs = "put_file f (x\<lparr>f_numrefs := f_numrefs x + 1\<rparr>) fs"
    have ci: "c_int (f_numrefs x + 1) = f_numrefs x + 1" using xr(2) lt by (simp add: c_int_id)
    have "refs_at (\<lambda>g. - int (card (after tb (i + 1) g))) ?fs"
      by (rule refs_at_upd [OF Suc.prems(3), of f]) (use one xr lt in auto)
    then obtain fs' where fs': "ref_loop tb n (i + 1) ?fs = Some fs'" "refs_at nil fs'" "fy_vfs fs' = fy_vfs fs" "fy_ft fs' = fy_ft fs"
        "fy_brk fs' = fy_brk fs" "surplus fs' = surplus ?fs"
        "\<forall>g. map_option (f_numrefs_update (\<lambda>_. 0)) (fy_file fs' g) = map_option (f_numrefs_update (\<lambda>_. 0)) (fy_file ?fs g)"
      using Suc.IH [of "i + 1" ?fs] Suc.prems by (auto simp del: fun_upd_apply)
    have "surplus ?fs = surplus fs" using surplus_put [OF x] by simp
    then show ?thesis using fs' get Some x ci by auto
  qed
qed

text \<open>Duplicating into a table made by \<^verbatim>\<open>ft_create\<close>.\<close>

abbreviation all_allocs :: "dup_allocs \<Rightarrow> bool" where
  "all_allocs al \<equiv> da_array al \<and> da_list al \<and> da_copy al = (\<lambda>_. True) \<and> da_ptr al = (\<lambda>_. True) \<and> da_node al = (\<lambda>_. True)"

lemma tab_exact_dup:
  assumes "tab_exact t" "tab_getsize t \<le> 2 ^ 29" "tab_create True True True = Some n_t" "all_allocs al"
  shows "\<exists>t'. tab_duplicate al t n_t = Some (Inr (), t') \<and> tab_exact t' \<and> tab_entry t' = tab_entry t \<and> tab_getsize t' = tab_getsize t"
proof -
  note inv = tab_exact_invar [OF assms(1)]
  obtain t' where t': "tab_duplicate al t n_t = Some (Inr (), t')" "tab_invar t'" "tab_entry t' = tab_entry t"
      "ll_elems (tab_slots t') = ll_elems (tab_slots t)" "tab_elems t' = tab_elems t"
    using tab_duplicate_all [OF inv assms(2,3), of al] assms(4) by blast
  then show ?thesis using assms(1) tab_elems_num [OF inv] tab_elems_num [OF t'(2)] by (simp add: tab_exact_def)
qed

lemma ft_vfs_commute: "fs\<lparr>fy_vfs := st, fy_ft := m\<rparr> = fs\<lparr>fy_ft := m, fy_vfs := st\<rparr>"
  by simp

lemma tabs_ok_cong:
  assumes "tabs_ok fs" "fy_ft fs' = fy_ft fs" "fy_brk fs' = fy_brk fs" "\<And>f. map_option g (fy_file fs' f) = map_option g (fy_file fs f)"
  shows "tabs_ok fs'"
proof -
  have n: "fy_file fs' f = None \<longleftrightarrow> fy_file fs f = None" for f using assms(4) [of f] by (metis map_option_is_None)
  then have "dom (fy_file fs') = dom (fy_file fs)" by (simp only: dom_def)
  then show ?thesis using assms(1-3) n by (simp add: tabs_ok_def)
qed

text \<open>The copied entries are in the table, and the files do not count them yet.\<close>

lemma duplicate_pending:
  assumes "tabs_ok fs" "refs_at nil fs" "fy_ft fs t = Some ft" "fy_ft fs nt = Some nft" "nt \<noteq> t"
    and "tab_elems (ft_files nft) = []" "tab_invar tb" "tab_entry tb = tab_entry (ft_files ft)"
  defines "fs' \<equiv> put_ft nt (nft\<lparr>ft_files := tb\<rparr>) fs"
  shows "entry fs' = (\<lambda>(u, i). entry fs (if u = nt then t else u, i))"
    and "card (slots fs' f) = card (slots fs f) + card (after tb 0 f)"
    and "refs_at (\<lambda>f. - int (card (after tb 0 f))) fs'"
proof -
  have none: "entry fs (nt, i) = None" for i using assms(4,6) by (auto simp: entry_def tab_entry_def)
  show ent: "entry fs' = (\<lambda>(u, i). entry fs (if u = nt then t else u, i))"
    using assms(3,8) by (auto simp: fs'_def entry_def fun_eq_iff)
  have sl: "slots fs' f = slots fs f \<union> Pair nt ` after tb 0 f" for f
  proof -
    have "tab_entry tb j = Some f \<Longrightarrow> 0 \<le> j" for j using tab.entry_range [OF assms(7), of j] by simp
    then show ?thesis using none assms(3,8) unfolding slots_def ent
      by (auto simp: entry_def after_def image_iff split: if_splits option.splits)
  qed
  have "slots fs f \<inter> Pair nt ` after tb 0 f = {}" for f using none by (auto simp: slots_def)
  then show cs: "card (slots fs' f) = card (slots fs f) + card (after tb 0 f)" for f
    unfolding sl using finite_slots [OF assms(1)] after_finite by (simp add: card_Un_disjoint card_image inj_on_def)
  show "refs_at (\<lambda>f. - int (card (after tb 0 f))) fs'"
    unfolding refs_at_def
  proof (intro conjI allI impI)
    fix f x
    assume "fy_file fs' f = Some x"
    then have x: "fy_file fs f = Some x" by (simp add: fs'_def)
    show "f_numrefs x = int (card (slots fs' f)) + - int (card (after tb 0 f))" "0 \<le> f_numrefs x" "f_numrefs x < 2 ^ 31"
      using refs_atD [OF assms(2) x] cs [of f] by simp_all
  next
    fix f
    assume "slots fs' f \<noteq> {} \<or> - int (card (after tb 0 f)) \<noteq> 0"
    then have "slots fs f \<noteq> {} \<or> after tb 0 f \<noteq> {}" using sl [of f] by auto
    moreover have "\<exists>s. entry fs s = Some f" if "after tb 0 f \<noteq> {}"
    proof -
      obtain j where "tab_entry tb j = Some f" using \<open>after tb 0 f \<noteq> {}\<close> by (auto simp: after_def)
      then show ?thesis using assms(3,8) by (intro exI [of _ "(t, j)"]) (simp add: entry_def)
    qed
    ultimately have "\<exists>s. entry fs s = Some f" by (auto simp: slots_def)
    then show "fy_file fs' f \<noteq> None" using refs_at_live [OF assms(2)] by (auto simp: fs'_def)
  qed
qed

lemma duplicate:
  assumes "files_wf fs" "fy_ft fs t = Some ft" "fy_ft fs nt = Some nft" "nt \<noteq> t" "tab_create True True True = Some (ft_files nft)"
    and "all_allocs al" "\<And>f. int (card (slots fs f)) + 50 < 2 ^ 31"
  shows "\<exists>fs'. ft_duplicate al t nt fs = Some (Inr (), fs') \<and> files_wf fs' \<and> fy_vfs fs' = fy_vfs fs \<and> surplus fs' = surplus fs \<and>
     entry fs' = (\<lambda>(u, i). entry fs (if u = nt then t else u, i))"
proof -
  have wf: "vfs_wf (fy_vfs fs)" "tabs_ok fs" "refs_at nil fs" using assms(1) by (auto simp: files_wf_def)
  have ex: "tab_exact (ft_files ft)" "tab_getsize (ft_files ft) \<le> 50" using wf(2) assms(2) by (auto simp: tabs_ok_def PROC_NFILES_MAX_def)
  obtain tb where tb: "tab_duplicate al (ft_files ft) (ft_files nft) = Some (Inr (), tb)" "tab_exact tb"
      "tab_entry tb = tab_entry (ft_files ft)" "tab_getsize tb = tab_getsize (ft_files ft)"
    using tab_exact_dup [OF ex(1) _ assms(5,6)] ex(2) by auto
  note inv = tab_exact_invar [OF tb(2)]
  let ?s = "lock_hold (ft_lock ft) (fy_sy fs)" and ?fs = "put_ft nt (nft\<lparr>ft_files := tb\<rparr>) fs"
  note pend = duplicate_pending [OF wf(2,3) assms(2-4) tab_create_invar(2) [OF assms(5)] inv tb(3)]
  have "int (card (slots ?fs f)) < 2 ^ 31" for f
  proof -
    have "after tb 0 f \<subseteq> {0..<50}" using tab.entry_range [OF inv] tb(4) ex(2) by (force simp: after_def)
    from card_mono [OF _ this] have "card (after tb 0 f) \<le> 50" by simp
    then show ?thesis using pend(2) [of f] assms(7) [of f] by simp
  qed
  moreover have "0 \<le> tab_getsize tb" using tab_elems_num [OF inv] by simp
  moreover have "surplus (put_sy ?s ?fs) = surplus fs" by (simp add: surplus_def files_of_def fun_eq_iff oc_def rc_def)
  ultimately obtain fs1 where fs1: "ref_loop tb (nat (tab_getsize tb)) 0 (put_sy ?s ?fs) = Some fs1" "refs_at nil fs1"
      "fy_vfs fs1 = (fy_vfs fs)\<lparr>vs_sy := ?s\<rparr>" "fy_ft fs1 = fy_ft ?fs" "fy_brk fs1 = fy_brk fs" "surplus fs1 = surplus fs"
      "\<forall>f. map_option (f_numrefs_update (\<lambda>_. 0)) (fy_file fs1 f) = map_option (f_numrefs_update (\<lambda>_. 0)) (fy_file fs f)"
    using ref_loop_counts [OF inv, of 0 "nat (tab_getsize tb)" "put_sy ?s ?fs"] pend(3) by auto
  have "duplicate_body al t nt (put_sy ?s fs) = Some (Inr (), fs1)"
    using assms(2,3) tb(1) fs1(1) by (simp add: duplicate_body_def ft_vfs_commute)
  from ft_locked_same [where body = "duplicate_body al t nt", OF assms(1,2) this fs1(3)]
  have run: "ft_duplicate al t nt fs = Some (Inr (), fs1\<lparr>fy_vfs := fy_vfs fs\<rparr>)" by (simp add: ft_duplicate_def)
  let ?fs' = "fs1\<lparr>fy_vfs := fy_vfs fs\<rparr>"
  have "tabs_ok ?fs" by (rule tabs_ok_put_ft) (use wf(2) assms(3) tb ex(2) in \<open>auto simp: PROC_NFILES_MAX_def\<close>)
  then have tok: "tabs_ok ?fs'" by (rule tabs_ok_cong) (use fs1 in auto)
  have sp: "surplus ?fs' = surplus fs"
    using fs1(3,6) by (simp add: surplus_def files_of_def fun_eq_iff oc_def rc_def)
  have "files_wf ?fs'"
    by (rule files_wf_moved [OF assms(1), of nil nil])
      (use moved_refl [OF wf(1)] tok sp fs1(2,4) assms(3) in \<open>auto split: if_splits\<close>)
  moreover have "entry ?fs' = entry ?fs" using fs1(4) by (simp add: entry_def)
  ultimately show ?thesis using run sp pend(1) by simp
qed

context file_systems
begin

text \<open>Giving up the reference of a slot that is empty already: the vnode is closed with the last one.\<close>

lemma surplus_close:
  assumes "tabs_ok fs" "fy_file fs f = Some x" "moved (\<lambda>w. - one (f_v x) w) (\<lambda>w. - one (f_v x) w) (fy_vfs fs) st"
  shows "surplus (fs\<lparr>fy_vfs := st, fy_file := (fy_file fs)(f := None)\<rparr>) = surplus fs"
proof
  fix w
  let ?fs = "fs\<lparr>fy_vfs := st, fy_file := (fy_file fs)(f := None)\<rparr>"
  have f: "f \<in> files_of fs w \<longleftrightarrow> w = f_v x" using assms(2) by (auto simp: files_of_def)
  have "files_of ?fs w = files_of fs w - {f}" by (auto simp: files_of_def)
  then have "int (card (files_of ?fs w)) = int (card (files_of fs w)) - one (f_v x) w"
    using f int_card_Diff [OF finite_files_of [OF assms(1)], of f w] by (cases "w = f_v x") auto
  then show "surplus ?fs w = surplus fs w"
    using moved_oc [OF assms(3), of w] moved_rc [OF assms(3), of w] by (simp add: surplus_def)
qed

lemma drop_file:
  assumes "vfs_wf (fy_vfs fs)" "fsinv (fy_vfs fs)" "tabs_ok fs" "opens_ok fs" "refs_at (one f) fs" "fy_file fs f = Some x"
  defines "d \<equiv> \<lambda>w. if slots fs f = {} then - one (f_v x) w else 0"
  shows "\<exists>fs'. drop_file ops f fs = Some fs' \<and> fsinv (fy_vfs fs') \<and> moved d d (fy_vfs fs) (fy_vfs fs') \<and>
     tabs_ok fs' \<and> surplus fs' = surplus fs \<and> refs_at nil fs' \<and> fy_ft fs' = fy_ft fs \<and> fy_brk fs' = fy_brk fs \<and>
     fy_file fs' = (fy_file fs)(f := if slots fs f = {} then None else Some (x\<lparr>f_numrefs := int (card (slots fs f))\<rparr>))"
proof -
  have n: "f_numrefs x = int (card (slots fs f)) + 1" "f_numrefs x < 2 ^ 31" using refs_atD [OF assms(5,6)] by simp_all
  then have c: "c_int (f_numrefs x - 1) = int (card (slots fs f))" using c_int_pred [of "f_numrefs x"] by simp
  let ?x = "x\<lparr>f_numrefs := int (card (slots fs f))\<rparr>"
  show ?thesis
  proof (cases "slots fs f = {}")
    case False
    then have "drop_file ops f fs = Some (put_file f ?x fs)"
      using assms(6) c finite_slots [OF assms(3), of f] by (simp add: drop_file_def)
    moreover have "refs_at nil (put_file f ?x fs)" by (rule refs_at_upd [OF assms(5), of f]) (use n in auto)
    ultimately show ?thesis
      using False assms(2,3,6) moved_refl [OF assms(1)] tabs_ok_put_file(1) [OF assms(3,6)] surplus_put [OF assms(6), of ?x]
      by (simp add: d_def)
  next
    case True
    let ?v = "f_v x"
    have "f \<in> files_of fs ?v" using assms(6) by (auto simp: files_of_def)
    then have "0 < card (files_of fs ?v)" using finite_files_of [OF assms(3)] by (auto simp: card_gt_0_iff)
    moreover have "int (card (files_of fs ?v)) \<le> oc (fy_vfs fs) ?v" using assms(4) by (simp add: opens_ok_def surplus_def)
    ultimately have "1 \<le> oc (fy_vfs fs) ?v" by linarith
    then obtain st where st: "vfs_close ops ?v (fy_vfs fs) = Some st" "fsinv st"
        "moved (\<lambda>w. - one ?v w) (\<lambda>w. - one ?v w) (fy_vfs fs) st"
      using vfs_close_drops [OF assms(1,2)] by blast
    let ?fs = "fs\<lparr>fy_vfs := st, fy_file := (fy_file fs)(f := None)\<rparr>"
    have "drop_file ops f fs = Some ?fs" using assms(6) c True st(1) by (simp add: drop_file_def f_destroy_def)
    moreover have "refs_at nil ?fs" by (rule refs_at_upd [OF assms(5), of f]) (use True in auto)
    ultimately show ?thesis
      using True st tabs_ok_put_file(2) [OF assms(3,6)] surplus_close [OF assms(3,6) st(3)] by (simp add: d_def tabs_ok_def)
  qed
qed

text \<open>Emptying a slot in use, and what is left to do then.\<close>

lemma clear_slot:
  assumes "tabs_ok fs" "refs_at nil fs" "fy_ft fs t = Some ft" "entry fs (t, i) = Some f"
  shows "\<exists>tb x. tab_remove True True (ft_files ft) i = Some (Inr (), tb) \<and> fy_file fs f = Some x \<and>
     0 \<le> i \<and> i < tab_getsize (ft_files ft) \<and> tab_getguy (ft_files ft) i = Some (Some f) \<and>
     tabs_ok (put_ft t (ft\<lparr>ft_files := tb\<rparr>) fs) \<and> refs_at (one f) (put_ft t (ft\<lparr>ft_files := tb\<rparr>) fs) \<and>
     entry (put_ft t (ft\<lparr>ft_files := tb\<rparr>) fs) = (entry fs)((t, i) := None) \<and> tab_getsize tb = tab_getsize (ft_files ft)"
proof -
  have e: "tab_entry (ft_files ft) i = Some f" using assms(3,4) by (simp add: entry_def)
  have ex: "tab_exact (ft_files ft)" "tab_getsize (ft_files ft) \<le> PROC_NFILES_MAX" using assms(1,3) by (auto simp: tabs_ok_def)
  note inv = tab_exact_invar [OF ex(1)]
  have i: "0 \<le> i" "i < tab_getsize (ft_files ft)" using tab.entry_range [OF inv, of i] e by auto
  obtain tb where tb: "tab_remove True True (ft_files ft) i = Some (Inr (), tb)" "tab_exact tb"
      "tab_entry tb = (tab_entry (ft_files ft))(i := None)" "tab_getsize tb = tab_getsize (ft_files ft)"
    using tab_exact_remove [OF ex(1), of i] e by auto
  let ?fs = "put_ft t (ft\<lparr>ft_files := tb\<rparr>) fs"
  have ent: "entry ?fs = (entry fs)((t, i) := None)" by (rule entry_put) fact+
  have mem: "(t, i) \<in> slots fs f" using assms(4) by (simp add: slots_def)
  have sl: "slots ?fs g = (if g = f then slots fs f - {(t, i)} else slots fs g)" for g
    using slots_upd [OF ent, of g] assms(4) by (auto simp: slots_def)
  obtain x where x: "fy_file fs f = Some x" using refs_at_live [OF assms(2,4)] by blast
  have "int (card (slots ?fs f)) = int (card (slots fs f)) - 1"
    using int_card_Diff [OF finite_slots [OF assms(1)] mem] sl [of f] by metis
  then have "refs_at (one f) ?fs"
    using refs_atD [OF assms(2) x] x by (intro refs_at_upd [OF assms(2), of f]) (simp_all add: sl)
  then show ?thesis
    using tb x i e ent tab_entry_eq [OF inv, of i] tabs_ok_put_ft [OF assms(1,3) tb(2)] ex(2) by simp
qed

lemma removefile:
  assumes "files_wf fs" "fsinv (fy_vfs fs)" "entry fs (t, i) = Some f" "fy_file fs f = Some x"
  defines "d \<equiv> \<lambda>w. if slots fs f = {(t, i)} then - one (f_v x) w else 0"
  shows "\<exists>fs'. ft_removefile ops True True t i fs = Some (Inr (), fs') \<and> files_wf fs' \<and> fsinv (fy_vfs fs') \<and>
     moved d d (fy_vfs fs) (fy_vfs fs') \<and> surplus fs' = surplus fs \<and> entry fs' = (entry fs)((t, i) := None) \<and>
     fy_file fs' = (fy_file fs)(f := if slots fs f = {(t, i)} then None else Some (x\<lparr>f_numrefs := f_numrefs x - 1\<rparr>))"
proof -
  obtain ft where ft: "fy_ft fs t = Some ft" using assms(3) by (auto simp: entry_def split: option.splits)
  have wf: "vfs_wf (fy_vfs fs)" "tabs_ok fs" "refs_at nil fs" "opens_ok fs" "own_lock (fy_vfs fs) (ft_lock ft)"
    using assms(1) ft by (auto simp: files_wf_def locks_ok_def)
  define h where "h = put_sy (lock_hold (ft_lock ft) (fy_sy fs)) fs"
  have h: "tabs_ok h" "refs_at nil h" "fy_ft h t = Some ft" "entry h (t, i) = Some f" "slots h = slots fs" "entry h = entry fs"
    using wf ft assms(3) by (simp_all add: h_def)
  have vh: "vfs_wf (fy_vfs h)" "fsinv (fy_vfs h)" using hold_wf [OF wf(1)] wf(5) assms(2) inv_sy by (simp_all add: h_def own_lock_def)
  obtain tb where tb: "tab_remove True True (ft_files ft) i = Some (Inr (), tb)" "0 \<le> i" "i < tab_getsize (ft_files ft)"
      "tab_getguy (ft_files ft) i = Some (Some f)" "tabs_ok (put_ft t (ft\<lparr>ft_files := tb\<rparr>) h)"
      "refs_at (one f) (put_ft t (ft\<lparr>ft_files := tb\<rparr>) h)" "entry (put_ft t (ft\<lparr>ft_files := tb\<rparr>) h) = (entry h)((t, i) := None)"
    using clear_slot [OF h(1-4)] by auto
  let ?h = "put_ft t (ft\<lparr>ft_files := tb\<rparr>) h"
  have sl: "slots ?h f = slots fs f - {(t, i)}" using slots_upd [OF tb(7), of f] h(5) by simp
  have last: "slots ?h f = {} \<longleftrightarrow> slots fs f = {(t, i)}" using sl assms(3) by (auto simp: slots_def)
  have "opens_ok ?h" using wf(4) by (simp add: h_def opens_ok_def)
  then obtain fs1 where fs1: "drop_file ops f ?h = Some fs1" "fsinv (fy_vfs fs1)" "moved d d (fy_vfs h) (fy_vfs fs1)" "tabs_ok fs1"
      "surplus fs1 = surplus fs" "refs_at nil fs1" "fy_ft fs1 = fy_ft ?h"
      "fy_file fs1 = (fy_file fs)(f := if slots fs f = {(t, i)} then None else Some (x\<lparr>f_numrefs := int (card (slots ?h f))\<rparr>))"
    using drop_file [of ?h f x] vh tb(5,6) assms(4) last by (auto simp: d_def h_def)
  have n: "int (card (slots ?h f)) = f_numrefs x - 1"
    using sl int_card_Diff [OF finite_slots [OF wf(2)], of "(t, i)" f] assms(3) refs_atD(1) [OF wf(3) assms(4)] by (simp add: slots_def)
  have b: "remove_body ops True True t i h = Some (Inr (), fs1)" using tb fs1(1) h(3) by (simp add: remove_body_def)
  obtain sy where sy: "ft_removefile ops True True t i fs = Some (Inr (), put_sy sy fs1)"
      "moved d d (fy_vfs fs) ((fy_vfs fs1)\<lparr>vs_sy := sy\<rparr>)"
    using ft_locked_run [where body = "remove_body ops True True t i", OF wf(1) ft wf(5) b [unfolded h_def]] fs1(3)
    by (auto simp: h_def ft_removefile_def)
  have e: "entry fs1 = (entry fs)((t, i) := None)" using tb(7) h(6) fs1(7) by (simp add: entry_def)
  have "files_wf (put_sy sy fs1)"
    by (rule files_wf_moved [OF assms(1), of d d]) (use sy(2) fs1 ft in \<open>auto simp: h_def split: if_splits\<close>)
  then show ?thesis using sy fs1(2,5,8) inv_sy e n by (intro exI [of _ "put_sy sy fs1"]) simp
qed

text \<open>Emptying a table: every file that only this table refers to is closed, each once.\<close>

abbreviation table_locks :: "'x files \<Rightarrow> nat \<Rightarrow> nat option option" where
  "table_locks fs \<equiv> \<lambda>u. map_option ft_lock (fy_ft fs u)"

lemma destroy_loop:
  assumes "files_wf fs" "fsinv (fy_vfs fs)" "fy_ft fs t = Some ft" "0 \<le> i" "i + int n = tab_getsize (ft_files ft)"
    and "\<And>j. j < i \<Longrightarrow> entry fs (t, j) = None"
  shows "\<exists>fs' ft' d. destroy_loop ops (\<lambda>_. (True, True)) t n i fs = Some fs' \<and> files_wf fs' \<and> fsinv (fy_vfs fs') \<and>
     moved d d (fy_vfs fs) (fy_vfs fs') \<and> surplus fs' = surplus fs \<and> fy_ft fs' t = Some ft' \<and> ft_lock ft' = ft_lock ft \<and>
     entry fs' = (\<lambda>(u, j). if u = t then None else entry fs (u, j)) \<and> dom (fy_ft fs') = dom (fy_ft fs) \<and> table_locks fs' = table_locks fs \<and> fy_brk fs' = fy_brk fs \<and>
     (\<forall>f. fy_file fs' f = None \<longleftrightarrow> fy_file fs f = None \<or> slots fs f \<noteq> {} \<and> slots fs f \<subseteq> {t} \<times> UNIV)"
  using assms
proof (induction n arbitrary: i fs ft)
  case 0
  have wf: "tabs_ok fs" "vfs_wf (fy_vfs fs)" using 0(1) by (simp_all add: files_wf_def)
  have inv: "tab_invar (ft_files ft)" using wf(1) 0(3) by (auto simp: tabs_ok_def intro: tab_exact_invar)
  have none: "entry fs (t, j) = None" for j
    using 0(3,5) 0(6) [of j] tab.entry_range [OF inv, of j] by (cases "tab_entry (ft_files ft) j") (auto simp: entry_def)
  then have "entry fs = (\<lambda>(u, j). if u = t then None else entry fs (u, j))" by (auto simp: fun_eq_iff)
  moreover have "slots fs f \<subseteq> {t} \<times> UNIV \<longleftrightarrow> slots fs f = {}" for f using none by (auto simp: slots_def)
  ultimately show ?case using 0(1-3) moved_refl [OF wf(2)] by auto
next
  case (Suc n)
  have wf: "vfs_wf (fy_vfs fs)" "tabs_ok fs" "refs_at nil fs" "opens_ok fs" using Suc.prems(1) by (auto simp: files_wf_def)
  have inv: "tab_invar (ft_files ft)" using wf(2) Suc.prems(3) by (auto simp: tabs_ok_def intro: tab_exact_invar)
  have get: "tab_getguy (ft_files ft) i = Some (entry fs (t, i))"
    using tab_entry_eq [OF inv, of i] Suc.prems(3-5) by (simp add: entry_def)
  show ?case
  proof (cases "entry fs (t, i)")
    case None
    then have "entry fs (t, j) = None" if "j < i + 1" for j using Suc.prems(6) [of j] that by (cases "j = i") auto
    then show ?thesis using Suc.IH [OF Suc.prems(1-3), of "i + 1"] Suc.prems(3-5) get None by simp
  next
    case (Some f)
    obtain tb x where tb: "tab_remove True True (ft_files ft) i = Some (Inr (), tb)" "fy_file fs f = Some x"
        "tabs_ok (put_ft t (ft\<lparr>ft_files := tb\<rparr>) fs)" "refs_at (one f) (put_ft t (ft\<lparr>ft_files := tb\<rparr>) fs)"
        "entry (put_ft t (ft\<lparr>ft_files := tb\<rparr>) fs) = (entry fs)((t, i) := None)" "tab_getsize tb = tab_getsize (ft_files ft)"
      using clear_slot [OF wf(2,3) Suc.prems(3) Some] by auto
    let ?fs = "put_ft t (ft\<lparr>ft_files := tb\<rparr>) fs"
    have sl: "slots ?fs g = slots fs g - {(t, i)}" for g using slots_upd [OF tb(5), of g] by simp
    obtain fs1 d1 where fs1: "drop_file ops f ?fs = Some fs1" "fsinv (fy_vfs fs1)" "moved d1 d1 (fy_vfs fs) (fy_vfs fs1)" "tabs_ok fs1"
        "surplus fs1 = surplus fs" "refs_at nil fs1" "fy_ft fs1 = fy_ft ?fs" "fy_brk fs1 = fy_brk fs"
        "fy_file fs1 = (fy_file fs)(f := if slots ?fs f = {} then None else Some (x\<lparr>f_numrefs := int (card (slots ?fs f))\<rparr>))"
      using drop_file [of ?fs f x] wf Suc.prems(2) tb(2-4) by (auto simp: opens_ok_def)
    have wf1: "files_wf fs1"
      by (rule files_wf_moved [OF Suc.prems(1) fs1(3,4,6,5)]) (use fs1(7) Suc.prems(3) in \<open>auto split: if_splits\<close>)
    have e1: "entry fs1 = (entry fs)((t, i) := None)" using tb(5) fs1(7) by (simp add: entry_def)
    then have sl1: "slots fs1 g = slots fs g - {(t, i)}" for g using slots_upd [OF e1, of g] by simp
    have p: "fy_ft fs1 t = Some (ft\<lparr>ft_files := tb\<rparr>)" "0 \<le> i + 1" "i + 1 + int n = tab_getsize (ft_files (ft\<lparr>ft_files := tb\<rparr>))"
      using fs1(7) Suc.prems(4,5) tb(6) by simp_all
    have q: "entry fs1 (t, j) = None" if "j < i + 1" for j using Suc.prems(6) [of j] that e1 by (cases "j = i") auto
    obtain fs' ft' d' where fs': "destroy_loop ops (\<lambda>_. (True, True)) t n (i + 1) fs1 = Some fs'" "files_wf fs'"
        "fsinv (fy_vfs fs')" "moved d' d' (fy_vfs fs1) (fy_vfs fs')" "surplus fs' = surplus fs1" "fy_ft fs' t = Some ft'"
        "ft_lock ft' = ft_lock (ft\<lparr>ft_files := tb\<rparr>)" "entry fs' = (\<lambda>(u, j). if u = t then None else entry fs1 (u, j))"
        "dom (fy_ft fs') = dom (fy_ft fs1)" "fy_brk fs' = fy_brk fs1" "table_locks fs' = table_locks fs1"
        "\<forall>f. fy_file fs' f = None \<longleftrightarrow> fy_file fs1 f = None \<or> slots fs1 f \<noteq> {} \<and> slots fs1 f \<subseteq> {t} \<times> UNIV"
      using Suc.IH [OF wf1 fs1(2) p q] by blast
    have "entry fs' = (\<lambda>(u, j). if u = t then None else entry fs (u, j))" using fs'(8) e1 by (auto simp: fun_eq_iff)
    moreover have "dom (fy_ft fs') = dom (fy_ft fs)" using fs'(9) fs1(7) Suc.prems(3) by (auto simp: insert_absorb domI)
    moreover have "fy_file fs' g = None \<longleftrightarrow> fy_file fs g = None \<or> slots fs g \<noteq> {} \<and> slots fs g \<subseteq> {t} \<times> UNIV" for g
    proof (cases "g = f")
      case True
      have "(t, i) \<in> slots fs f" using Some by (simp add: slots_def)
      then show ?thesis using True fs'(12) fs1(9) sl sl1 tb(2) by (auto split: if_splits)
    next
      case False
      then have "(t, i) \<notin> slots fs g" using Some by (simp add: slots_def)
      then show ?thesis using False fs'(12) fs1(9) sl1 [of g] by simp
    qed
    moreover have "table_locks fs' = table_locks fs" using fs'(11) fs1(7) Suc.prems(3) by (auto simp: fun_eq_iff)
    ultimately show ?thesis
      using get Some Suc.prems(3) tb(1) fs1(1,5,8) fs'(1-7,10) moved_trans [OF fs1(3) fs'(4)] by auto
  qed
qed

lemma destroy:
  assumes "files_wf fs" "fsinv (fy_vfs fs)" "fy_ft fs t = Some ft" "ft_lock ft = Some a" "unslept a (fy_sy fs)"
  shows "\<exists>fs'. ft_destroy ops (\<lambda>_. (True, True)) t fs = Some fs' \<and> files_wf fs' \<and> fsinv (fy_vfs fs') \<and> surplus fs' = surplus fs \<and>
     (\<forall>l. l \<noteq> Some a \<longrightarrow> own_lock (fy_vfs fs) l \<longrightarrow> own_lock (fy_vfs fs') l) \<and> sy_ts (fy_sy fs') = sy_ts (fy_sy fs) \<and>
     sy_cv (fy_sy fs') = sy_cv (fy_sy fs) \<and> table_locks fs' = (table_locks fs)(t := None) \<and>
     dom (fy_ft fs') = dom (fy_ft fs) - {t} \<and> entry fs' = (\<lambda>(u, j). if u = t then None else entry fs (u, j)) \<and>
     (\<forall>f. fy_file fs' f = None \<longleftrightarrow> fy_file fs f = None \<or> slots fs f \<noteq> {} \<and> slots fs f \<subseteq> {t} \<times> UNIV)"
proof -
  have inv: "tab_invar (ft_files ft)" using assms(1,3) by (auto simp: files_wf_def tabs_ok_def intro: tab_exact_invar)
  then have sz: "0 \<le> tab_getsize (ft_files ft)" by (simp add: tab_elems_num)
  have none: "entry fs (t, j) = None" if "j < 0" for j using tab.entry_range [OF inv, of j] that assms(3)
    by (cases "tab_entry (ft_files ft) j") (auto simp: entry_def)
  obtain fs1 ft1 d where fs1: "destroy_loop ops (\<lambda>_. (True, True)) t (nat (tab_getsize (ft_files ft))) 0 fs = Some fs1"
      "files_wf fs1" "fsinv (fy_vfs fs1)" "moved d d (fy_vfs fs) (fy_vfs fs1)" "surplus fs1 = surplus fs" "fy_ft fs1 t = Some ft1"
      "ft_lock ft1 = ft_lock ft" "entry fs1 = (\<lambda>(u, j). if u = t then None else entry fs (u, j))" "dom (fy_ft fs1) = dom (fy_ft fs)" "table_locks fs1 = table_locks fs"
      "\<forall>f. fy_file fs1 f = None \<longleftrightarrow> fy_file fs f = None \<or> slots fs f \<noteq> {} \<and> slots fs f \<subseteq> {t} \<times> UNIV"
    using destroy_loop [OF assms(1-3), of 0 "nat (tab_getsize (ft_files ft))"] sz none by auto
  have wf: "vfs_wf (fy_vfs fs1)" "tabs_ok fs1" "refs_at nil fs1" "opens_ok fs1" "locks_ok fs1" using fs1(2) by (auto simp: files_wf_def)
  have "tab_invar (ft_files ft1)" using wf(2) fs1(6) by (auto simp: tabs_ok_def intro: tab_exact_invar)
  then obtain r where r: "tab_destroy (ft_files ft1) = Some r" using tab_destroy_returns by blast
  have own: "own_lock (fy_vfs fs1) (Some a)" using wf(5) fs1(6,7) assms(4) by (metis locks_ok_def)
  have ld: "lock_destroy a (fy_sy fs1) = Some ((fy_sy fs1)\<lparr>sy_lock := (sy_lock (fy_sy fs1))(a := None)\<rparr>)"
    using own assms(5) fs1(4) by (intro lock_destroy_idle) (simp_all add: own_lock_def moved_def)
  let ?st = "(fy_vfs fs1)\<lparr>vs_sy := (fy_sy fs1)\<lparr>sy_lock := (sy_lock (fy_sy fs1))(a := None)\<rparr>\<rparr>"
  let ?fs = "fs1\<lparr>fy_vfs := ?st, fy_ft := (fy_ft fs1)(t := None)\<rparr>"
  have run: "ft_destroy ops (\<lambda>_. (True, True)) t fs = Some ?fs"
    using assms(3,4) fs1(1,6,7) r ld by (simp add: ft_destroy_def)
  note gone = lock_gone [OF wf(1), of a] own [unfolded own_lock_def]
  have e: "entry ?fs = entry fs1" using fs1(8) by (auto simp: entry_def fun_eq_iff)
  then have sl: "slots ?fs = slots fs1" by (intro ext) (simp add: slots_def)
  have sp: "surplus ?fs = surplus fs1" by (simp add: surplus_def files_of_def fun_eq_iff oc_def rc_def)
  have "locks_ok ?fs"
    unfolding locks_ok_def
  proof (intro conjI allI impI)
    fix u fu
    assume "fy_ft ?fs u = Some fu"
    then have "fy_ft fs1 u = Some fu" "u \<noteq> t" by (auto split: if_splits)
    moreover from this have "ft_lock fu \<noteq> Some a" using wf(5) fs1(6,7) assms(4) unfolding locks_ok_def by metis
    ultimately show "own_lock (fy_vfs ?fs) (ft_lock fu)" using gone wf(5) by (auto simp: locks_ok_def)
  next
    fix u u' fu fu'
    assume "fy_ft ?fs u = Some fu" "fy_ft ?fs u' = Some fu'" "ft_lock fu = ft_lock fu'"
    then show "u = u'" using wf(5) by (auto simp: locks_ok_def split: if_splits)
  qed
  moreover have "tabs_ok ?fs" using wf(2) by (simp add: tabs_ok_def)
  moreover have "refs_at nil ?fs" using wf(3) refs_at_cong [OF sl] by simp
  ultimately have "files_wf ?fs" using gone wf(4) opens_ok_surplus [OF sp] by (simp add: files_wf_def)
  moreover have "dom (fy_ft ?fs) = dom (fy_ft fs) - {t}" using fs1(9) by auto
  moreover have "own_lock (fy_vfs ?fs) l" if "l \<noteq> Some a" "own_lock (fy_vfs fs) l" for l
    using gone that own_lock_moved [OF fs1(4)] by simp
  moreover have "table_locks ?fs = (table_locks fs)(t := None)" using fs1(10) by (auto simp: fun_eq_iff)
  moreover have "sy_ts (fy_sy ?fs) = sy_ts (fy_sy fs)" "sy_cv (fy_sy ?fs) = sy_cv (fy_sy fs)" using fs1(4) by (simp_all add: moved_def)
  ultimately show ?thesis using run e sp fs1(3,5,8,11) inv_sy by (intro exI [of _ ?fs] conjI) simp_all
qed

end

section \<open>A failed duplication\<close>

text \<open>
  When the free list cannot be copied the entries are in the new table already, but the files do not count them.
  Destroying the new table, as the caller does, then gives up references that were never taken.
\<close>

lemma destroy_loop_add:
  "destroy_loop ops oks t (m + n) i fs = do { fs1 \<leftarrow> destroy_loop ops oks t m i fs; destroy_loop ops oks t n (i + int m) fs1 }"
proof (induction m arbitrary: i fs)
  case (Suc m)
  show ?case using Suc [of "i + 1"] by (simp add: add.assoc split: bind_splits)
qed simp

lemma destroy_loop_skip:
  assumes "fy_ft fs t = Some ft" "\<And>j. i \<le> j \<Longrightarrow> j < i + int n \<Longrightarrow> tab_getguy (ft_files ft) j = Some None"
  shows "destroy_loop ops oks t n i fs = Some fs"
  using assms(2)
proof (induction n arbitrary: i)
  case (Suc n)
  have "tab_getguy (ft_files ft) i = Some None" using Suc.prems [of i] by simp
  then show ?case using Suc.IH [of "i + 1"] Suc.prems assms(1) by simp
qed simp

lemma destroy_loop_one:
  assumes "fy_ft fs t = Some ft" "tab_invar (ft_files ft)" "\<And>j. tab_entry (ft_files ft) j = (if j = i then Some f else None)"
  shows "\<exists>tb. tab_invar tb \<and> destroy_loop ops (\<lambda>_. (True, True)) t (nat (tab_getsize (ft_files ft))) 0 fs =
     drop_file ops f (put_ft t (ft\<lparr>ft_files := tb\<rparr>) fs)"
proof -
  let ?tb0 = "ft_files ft" and ?n = "nat (tab_getsize (ft_files ft))"
  have i: "0 \<le> i" "i < tab_getsize ?tb0" using tab.entry_range [OF assms(2), of i] assms(3) [of i] by simp_all
  obtain r tb where tb: "tab_remove True True ?tb0 i = Some (r, tb)" "tab_invar tb" "tab_entry tb = (tab_entry ?tb0)(i := None)"
      "tab_getsize tb = tab_getsize ?tb0"
    using tab.remove [OF assms(2), of i True] assms(3) [of i] by auto
  have split: "?n = nat i + Suc (nat (tab_getsize ?tb0 - i - 1))" using i by linarith
  have "destroy_loop ops (\<lambda>_. (True, True)) t (nat i) 0 fs = Some fs"
    by (rule destroy_loop_skip [OF assms(1)]) (use i assms(3) tab_entry_eq [OF assms(2)] in auto)
  moreover have "tab_getguy ?tb0 i = Some (Some f)" using i assms(3) tab_entry_eq [OF assms(2), of i] by simp
  moreover have "destroy_loop ops (\<lambda>_. (True, True)) t (nat (tab_getsize ?tb0 - i - 1)) (i + 1) fs1 = Some fs1"
    if d: "drop_file ops f (put_ft t (ft\<lparr>ft_files := tb\<rparr>) fs) = Some fs1" for fs1
  proof -
    have ft1: "fy_ft fs1 t = Some (ft\<lparr>ft_files := tb\<rparr>)"
      using d by (auto simp: drop_file_def f_destroy_def Let_def Option.bind_eq_Some_conv split: if_splits)
    show ?thesis
      by (rule destroy_loop_skip [OF ft1]) (use i assms(3) tb(3,4) tab_entry_eq [OF tb(2)] in auto)
  qed
  ultimately have "destroy_loop ops (\<lambda>_. (True, True)) t ?n 0 fs = drop_file ops f (put_ft t (ft\<lparr>ft_files := tb\<rparr>) fs)"
    unfolding split destroy_loop_add
    using assms(1) tb(1) i by (cases "drop_file ops f (put_ft t (ft\<lparr>ft_files := tb\<rparr>) fs)") simp_all
  then show ?thesis using tb(2) by blast
qed

text \<open>One file open on the null device, with one descriptor in table 101; table 102 is new.\<close>

definition wit_tab :: "nat ktable" where
  "wit_tab = \<lparr>tab_array = \<lparr>arr_num = 1, arr_max = 1, arr_v = Some [Some (Some 100)]\<rparr>, tab_slots = the (ll_create True)\<rparr>"

definition wit_new :: "nat ktable" where
  "wit_new = the (tab_create True True True)"

definition wit_files :: "unit files" where
  "wit_files = \<lparr>fy_vfs = wit_dev {5, 6, 7, 8, 10, 20, 30, 31} 2 1,
     fy_file = [100 \<mapsto> \<lparr>f_status = 0, f_offset = 0, f_v = 0, f_lock = Some 10, f_numrefs = 1\<rparr>],
     fy_ft = [101 \<mapsto> \<lparr>ft_files = wit_tab, ft_lock = Some 8\<rparr>, 102 \<mapsto> \<lparr>ft_files = wit_new, ft_lock = Some 20\<rparr>],
     fy_brk = 103\<rparr>"

lemma wit_new_create: "tab_create True True True = Some wit_new"
  by (simp add: wit_new_def tab_create_def array_create_def ll_create_def)

lemma wit_new: "tab_exact wit_new" "tab_getsize wit_new = 0" "tab_entry wit_new j = None"
proof -
  note new = tab_create_invar [OF wit_new_create]
  show "tab_entry wit_new j = None" using new(2) by (auto simp: tab_entry_def)
  show "tab_exact wit_new" "tab_getsize wit_new = 0" using new tab_elems_num [OF new(1)] by (simp_all add: tab_exact_def)
qed

lemma wit_tab: "tab_exact wit_tab" "tab_getsize wit_tab = 1" "tab_entry wit_tab j = (if j = 0 then Some 100 else None)"
proof -
  have el: "tab_elems wit_tab = [Some 100]" by (simp add: wit_tab_def array_elems_def)
  then show e: "tab_entry wit_tab j = (if j = 0 then Some 100 else None)" for j by (auto simp: tab_entry_def)
  have "array_invar (tab_array wit_tab)" by (simp add: wit_tab_def array_invar_def array_wf_def array_full_def)
  moreover have "ll_invar (tab_slots wit_tab)" "ll_elems (tab_slots wit_tab) = []"
    using ll_create_rep [of True] ll_rep_elems by (fastforce simp: wit_tab_def ll_create_def ll_invar_def)+
  ultimately have "tab_invar wit_tab" by (simp add: tab_invar_def)
  then show "tab_exact wit_tab" "tab_getsize wit_tab = 1" using el e tab_elems_num [of wit_tab] by (auto simp: tab_exact_def)
qed

lemma wit_files_entry: "entry wit_files s = (if s = (101, 0) then Some 100 else None)"
  by (cases s) (auto simp: wit_files_def entry_def wit_tab(3) wit_new(3))

lemma wit_files_slots: "slots wit_files f = (if f = 100 then {(101, 0)} else {})"
  by (auto simp: slots_def wit_files_entry)

lemma wit_files_wf: "files_wf wit_files"
proof -
  have "tabs_ok wit_files" using wit_tab wit_new by (auto simp: wit_files_def tabs_ok_def PROC_NFILES_MAX_def split: if_splits)
  moreover have "refs_at nil wit_files" by (auto simp: refs_at_def wit_files_slots) (auto simp: wit_files_def split: if_splits)
  moreover have "opens_ok wit_files"
  proof -
    have "files_of wit_files v = (if v = 0 then {100} else {})" for v by (auto simp: wit_files_def files_of_def split: if_splits)
    then show ?thesis by (auto simp: opens_ok_def surplus_def) (auto simp: wit_files_def wit_dev_sel)
  qed
  moreover have "locks_ok wit_files"
    using wit_dev_idle [of 8 "{5, 6, 7, 8, 10, 20, 30, 31}" 2 1] wit_dev_idle [of 20 "{5, 6, 7, 8, 10, 20, 30, 31}" 2 1]
    by (auto simp: locks_ok_def wit_files_def own_lock_def wit_dev_sel split: if_splits)
  moreover have "vfs_wf (fy_vfs wit_files)" using wit_dev_ok(1) [of "{5, 6, 7, 8, 10, 20, 30, 31}" 1 2] by (simp add: wit_files_def)
  ultimately show ?thesis by (simp add: files_wf_def)
qed

lemma wit_files_inv: "dev_inv (fy_vfs wit_files)"
  using wit_dev_ok(2) [of "{5, 6, 7, 8, 10, 20, 30, 31}" 1 2] by (simp add: wit_files_def)

lemma wit_files_unslept: "unslept 8 (fy_sy wit_files)" "unslept 20 (fy_sy wit_files)"
  by (simp_all add: wit_files_def wit_dev_def splhigh_def splx_def thread_hassleepers_def wit_tsys_def array_getguy_def array_getnum_def
      sleeping_on_def wit_thread_def cell_def)

definition wit_al :: "bool \<Rightarrow> dup_allocs" where
  "wit_al ok = \<lparr>da_array = True, da_add = (\<lambda>_. False), da_list = ok, da_copy = (\<lambda>_. True), da_ptr = (\<lambda>_. True), da_node = (\<lambda>_. True)\<rparr>"

lemma wit_files_ft: "fy_ft wit_files 101 = Some \<lparr>ft_files = wit_tab, ft_lock = Some 8\<rparr>" "fy_ft wit_files 102 = Some \<lparr>ft_files = wit_new, ft_lock = Some 20\<rparr>"
  by (simp_all add: wit_files_def)

section \<open>Properties\<close>







end
