(* ===== verification/Kern_Process.thy ===== *)
theory Kern_Process
  imports Kern_File Kern_Vm
begin

text \<open>
  Processes (\<^verbatim>\<open>kern/process/process.c\<close>) and the table of processes (\<^verbatim>\<open>processtable.c\<close>): creation, exit, and the
  parts of the kernel's state that belong to a process.
\<close>

section \<open>Data\<close>

text \<open>The children are the pids that the pointers in \<^verbatim>\<open>p_childrenpids\<close> point to.\<close>

record process =
  p_has_exited :: int
  p_exitcode :: int
  p_parentpid :: int
  p_pid :: int
  p_file_table :: nat
  p_page_table :: pagetable
  p_childrenpids :: "int karray"
  p_waitcv :: "nat option"
  p_lock :: "nat option"
  p_thread :: "nat option"

text \<open>
  The kernel: open files with everything below them, virtual memory, the processes and address spaces in memory, the
  process table with its lock, and the field \<^verbatim>\<open>pid\<close> of the threads. The synchronisation objects and threads are those of
  the file part; the functions of the virtual memory part that are called here do not use theirs.
\<close>

record ('d, 'e) kern =
  k_fs :: "'d files"
  k_vm :: "'e vmsys"
  k_proc :: "nat \<Rightarrow> process option"
  k_as :: "nat \<Rightarrow> addrspace option"
  k_ptab :: "nat ktable"
  k_ptlock :: "nat option"
  k_pid :: "nat \<Rightarrow> int"
  k_brk :: nat

abbreviation k_sy :: "('d, 'e) kern \<Rightarrow> syn" where
  "k_sy k \<equiv> fy_sy (k_fs k)"

abbreviation put_ksy :: "syn \<Rightarrow> ('d, 'e) kern \<Rightarrow> ('d, 'e) kern" where
  "put_ksy sy k \<equiv> k\<lparr>k_fs := put_sy sy (k_fs k)\<rparr>"

abbreviation put_proc :: "nat \<Rightarrow> process \<Rightarrow> ('d, 'e) kern \<Rightarrow> ('d, 'e) kern" where
  "put_proc p x k \<equiv> k\<lparr>k_proc := (k_proc k)(p \<mapsto> x)\<rparr>"

section \<open>The process table\<close>

definition processtable_bootstrap :: "bool \<Rightarrow> bool \<Rightarrow> bool \<Rightarrow> nat option \<Rightarrow> ('d, 'e) kern \<Rightarrow> ('d, 'e) kern option" where
  "processtable_bootstrap ok oka okl l k = do {
     tb \<leftarrow> tab_create ok oka okl;
     a \<leftarrow> l;
     sy \<leftarrow> new_lock l (k_sy k);
     Some (put_ksy sy (k\<lparr>k_ptab := tb, k_ptlock := l\<rparr>)) }"

definition pt_locked :: "(('d, 'e) kern \<Rightarrow> ('r \<times> ('d, 'e) kern) option) \<Rightarrow> ('d, 'e) kern \<Rightarrow> ('r \<times> ('d, 'e) kern) option" where
  "pt_locked body k = do {
     sy1 \<leftarrow> lock_take (k_ptlock k) (k_sy k);
     (r, k1) \<leftarrow> body (put_ksy sy1 k);
     sy2 \<leftarrow> lock_give (k_ptlock k1) (k_sy k1);
     Some (r, put_ksy sy2 k1) }"

definition processtable_insert :: "bool \<Rightarrow> nat \<Rightarrow> ('d, 'e) kern \<Rightarrow> ((errno + int) \<times> ('d, 'e) kern) option" where
  "processtable_insert ok p = pt_locked (\<lambda>k. do {
     (r, tb) \<leftarrow> tab_add ok (k_ptab k) p;
     Some (r, k\<lparr>k_ptab := tb\<rparr>) })"

definition processtable_remove :: "bool \<Rightarrow> bool \<Rightarrow> int \<Rightarrow> ('d, 'e) kern \<Rightarrow> ('d, 'e) kern option" where
  "processtable_remove okp okn pid k = do {
     (r, k1) \<leftarrow> pt_locked (\<lambda>k. do {
       (r, tb) \<leftarrow> tab_remove okp okn (k_ptab k) pid;
       kassert (r \<noteq> Inl (-1));
       Some (r, k\<lparr>k_ptab := tb\<rparr>) }) k;
     Some k1 }"

definition processtable_getsize :: "('d, 'e) kern \<Rightarrow> (int \<times> ('d, 'e) kern) option" where
  "processtable_getsize = pt_locked (\<lambda>k. Some (tab_getsize (k_ptab k), k))"

definition processtable_getnum :: "('d, 'e) kern \<Rightarrow> (int \<times> ('d, 'e) kern) option" where
  "processtable_getnum = pt_locked (\<lambda>k. Some (tab_getnum (k_ptab k), k))"

definition processtable_get :: "int \<Rightarrow> ('d, 'e) kern \<Rightarrow> (nat option \<times> ('d, 'e) kern) option" where
  "processtable_get pid k =
     (if pid < 0 then Some (None, k)
      else do {
        (sz, k1) \<leftarrow> processtable_getsize k;
        if pid \<ge> sz then Some (None, k1)
        else pt_locked (\<lambda>k. do { p \<leftarrow> tab_getguy (k_ptab k) pid; Some (p, k) }) k1 })"

definition get_curprocess :: "('d, 'e) kern \<Rightarrow> (nat option \<times> ('d, 'e) kern) option" where
  "get_curprocess k = do {
     t \<leftarrow> ts_cur (sy_ts (k_sy k));
     processtable_get (k_pid k t) k }"

section \<open>Creation\<close>

text \<open>The allocations of \<^verbatim>\<open>p_create\<close>, and the addresses of the lock and the condition variable.\<close>

record proc_allocs =
  pa_proc :: bool
  pa_ft :: bool
  pa_ft_tab :: "bool \<times> bool \<times> bool"
  pa_ft_lock :: "nat option"
  pa_pt :: "bool \<times> bool \<times> bool"
  pa_cv :: "nat option"
  pa_lock :: "nat option"
  pa_children :: bool
  pa_insert :: bool

definition ft_drop :: "'d vnode_ops \<Rightarrow> (int \<Rightarrow> bool \<times> bool) \<Rightarrow> nat \<Rightarrow> ('d, 'e) kern \<Rightarrow> ('d, 'e) kern option" where
  "ft_drop ops oks t k = do {
     fs \<leftarrow> ft_destroy ops oks t (k_fs k);
     Some (k\<lparr>k_fs := fs\<rparr>) }"

definition pt_drop :: "pagetable \<Rightarrow> ('d, 'e) kern \<Rightarrow> ('d, 'e) kern option" where
  "pt_drop pt k = do {
     vm \<leftarrow> pt_destroy pt (k_vm k);
     Some (k\<lparr>k_vm := vm\<rparr>) }"

definition new_cv :: "nat option \<Rightarrow> syn \<Rightarrow> syn option" where
  "new_cv c sy = (case c of
     None \<Rightarrow> Some sy
   | Some a \<Rightarrow> do {
       v \<leftarrow> cv_create True True True True;
       Some (sy\<lparr>sy_cv := (sy_cv sy)(a \<mapsto> v)\<rparr>) })"

text \<open>
  When the process cannot be entered into the table the array of its children is destroyed twice, which frees
  memory that is free already: the value is \<open>None\<close>. The file table that is given up on the other error paths is
  empty, so \<^verbatim>\<open>ft_destroy\<close> allocates nothing.
\<close>

definition p_create :: "'d vnode_ops \<Rightarrow> proc_allocs \<Rightarrow> ('d, 'e) kern \<Rightarrow> (nat option \<times> ('d, 'e) kern) option" where
  "p_create ops al k =
     (if \<not> pa_proc al then Some (None, k)
      else do {
        (ft, fs) \<leftarrow> (case pa_ft_tab al of (okt, oka, okl) \<Rightarrow> ft_create (pa_ft al) okt oka okl (pa_ft_lock al) (k_fs k));
        let k1 = k\<lparr>k_fs := fs\<rparr>;
        (case ft of
           None \<Rightarrow> Some (None, k1)
         | Some t \<Rightarrow>
             (case (case pa_pt al of (ok, oka, okl) \<Rightarrow> pt_create ok oka okl) of
                None \<Rightarrow> do { k2 \<leftarrow> ft_drop ops (\<lambda>_. (True, True)) t k1; Some (None, k2) }
              | Some pt \<Rightarrow>
                  if pa_cv al = None then do { k2 \<leftarrow> ft_drop ops (\<lambda>_. (True, True)) t k1; k3 \<leftarrow> pt_drop pt k2; Some (None, k3) }
                  else do {
                    c \<leftarrow> pa_cv al;
                    sy1 \<leftarrow> new_cv (pa_cv al) (k_sy k1);
                    let k2 = put_ksy sy1 k1;
                    if pa_lock al = None then do {
                      k3 \<leftarrow> ft_drop ops (\<lambda>_. (True, True)) t k2;
                      k4 \<leftarrow> pt_drop pt k3;
                      sy2 \<leftarrow> cv_destroy c (k_sy k4);
                      Some (None, put_ksy sy2 k4) }
                    else do {
                      l \<leftarrow> pa_lock al;
                      sy2 \<leftarrow> new_lock (pa_lock al) (k_sy k2);
                      let k3 = put_ksy sy2 k2;
                      (case array_create (pa_children al) of
                         None \<Rightarrow> do {
                           k4 \<leftarrow> ft_drop ops (\<lambda>_. (True, True)) t k3;
                           k5 \<leftarrow> pt_drop pt k4;
                           sy3 \<leftarrow> cv_destroy c (k_sy k5);
                           sy4 \<leftarrow> lock_destroy l sy3;
                           Some (None, put_ksy sy4 k5) }
                       | Some ch \<Rightarrow> do {
                           let p = k_brk k3;
                           let x = \<lparr>p_has_exited = 0, p_exitcode = -1, p_parentpid = 0, p_pid = 0, p_file_table = t,
                              p_page_table = pt, p_childrenpids = ch, p_waitcv = Some c, p_lock = Some l, p_thread = None\<rparr>;
                           (r, k4) \<leftarrow> processtable_insert (pa_insert al) p (put_proc p x (k3\<lparr>k_brk := Suc p\<rparr>));
                           (case r of
                              Inl e \<Rightarrow> None
                            | Inr index \<Rightarrow> Some (Some p, put_proc p (x\<lparr>p_pid := index\<rparr>) k4)) }) } })) })"

definition p_assign_thread :: "nat \<Rightarrow> nat \<Rightarrow> ('d, 'e) kern \<Rightarrow> ('d, 'e) kern option" where
  "p_assign_thread p t k = do {
     x \<leftarrow> k_proc k p;
     Some ((put_proc p (x\<lparr>p_thread := Some t\<rparr>) k)\<lparr>k_pid := (k_pid k)(t := p_pid x)\<rparr>) }"

text \<open>\<open>t\<close> is the address of the first thread.\<close>

definition process_bootstrap ::
    "'d vnode_ops \<Rightarrow> bool \<times> bool \<times> bool \<Rightarrow> nat option \<Rightarrow> proc_allocs \<Rightarrow> bool \<times> bool \<times> bool \<times> bool \<Rightarrow> nat \<Rightarrow>
     ('d, 'e) kern \<Rightarrow> ('d, 'e) kern option" where
  "process_bootstrap ops oks l al okt t k = do {
     k1 \<leftarrow> (case oks of (ok, oka, okl) \<Rightarrow> processtable_bootstrap ok oka okl l k);
     (r, k2) \<leftarrow> p_create ops al k1;
     p \<leftarrow> r;
     ts \<leftarrow> (case okt of (oks, okz, okt, okn) \<Rightarrow> thread_bootstrap oks okz okt okn t (sy_ts (k_sy k2)));
     p_assign_thread p t (put_ksy ((k_sy k2)\<lparr>sy_ts := ts\<rparr>) k2) }"

text \<open>
  The files for the console. The three files share the vnode, which is opened once and referenced three times.
  \<open>okd\<close>: the name can be copied; \<open>ls\<close>: the locks of the files; \<open>oks\<close>: the entries can be stored.
\<close>

definition console_file :: "bool \<Rightarrow> nat option \<Rightarrow> int \<Rightarrow> nat \<Rightarrow> 'd files \<Rightarrow> (nat \<times> 'd files) option" where
  "console_file ok l flags v fs = do {
     (r, fs1) \<leftarrow> f_create ok l flags 0 v fs;
     f \<leftarrow> r;
     Some (f, fs1) }"

definition console_store :: "bool \<Rightarrow> nat \<Rightarrow> nat \<Rightarrow> 'd files \<Rightarrow> 'd files option" where
  "console_store ok t f fs = do {
     (r, fs1) \<leftarrow> ft_storefile ok t f fs;
     kassert (case r of Inl e \<Rightarrow> False | Inr fd \<Rightarrow> True);
     Some fs1 }"

definition set_refs :: "nat \<Rightarrow> int \<Rightarrow> 'd files \<Rightarrow> 'd files option" where
  "set_refs f n fs = do { x \<leftarrow> fy_file fs f; Some (put_file f (x\<lparr>f_numrefs := n\<rparr>) fs) }"

definition console_files_bootstrap ::
    "'d vnode_ops \<Rightarrow> bool \<Rightarrow> (nat \<Rightarrow> bool) \<Rightarrow> (nat \<Rightarrow> nat option) \<Rightarrow> (nat \<Rightarrow> bool) \<Rightarrow> ('d, 'e) kern \<Rightarrow> ('d, 'e) kern option" where
  "console_files_bootstrap ops okd okf ls oks k = do {
     (cur, k1) \<leftarrow> get_curprocess k;
     kassert okd;
     (r, st) \<leftarrow> vfs_open ops ''con:'' O_RDONLY (fy_vfs (k_fs k1));
     v \<leftarrow> (case r of Inl e \<Rightarrow> None | Inr v \<Rightarrow> Some v);
     (f0, fs1) \<leftarrow> console_file (okf 0) (ls 0) O_RDONLY v ((k_fs k1)\<lparr>fy_vfs := st\<rparr>);
     (f1, fs2) \<leftarrow> console_file (okf 1) (ls 1) O_WRONLY v fs1;
     (f2, fs3) \<leftarrow> console_file (okf 2) (ls 2) O_WRONLY v fs2;
     p \<leftarrow> cur;
     x \<leftarrow> k_proc k1 p;
     fs4 \<leftarrow> console_store (oks 0) (p_file_table x) f0 fs3;
     fs5 \<leftarrow> console_store (oks 1) (p_file_table x) f1 fs4;
     fs6 \<leftarrow> console_store (oks 2) (p_file_table x) f2 fs5;
     fs7 \<leftarrow> set_refs f0 3 fs6;
     fs8 \<leftarrow> set_refs f1 3 fs7;
     fs9 \<leftarrow> set_refs f2 3 fs8;
     st1 \<leftarrow> vnode_incref v (fy_vfs fs9);
     st2 \<leftarrow> vnode_incref v st1;
     Some (k1\<lparr>k_fs := fs9\<lparr>fy_vfs := st2\<rparr>\<rparr>) }"

section \<open>Exit\<close>

definition destroy_synch :: "process \<Rightarrow> ('d, 'e) kern \<Rightarrow> ('d, 'e) kern option" where
  "destroy_synch x k = do {
     l \<leftarrow> p_lock x;
     sy1 \<leftarrow> lock_destroy l (k_sy k);
     c \<leftarrow> p_waitcv x;
     sy2 \<leftarrow> cv_destroy c sy1;
     Some (put_ksy sy2 k) }"

text \<open>Freeing the saved pids reads every entry of the array of children.\<close>

fun free_pids :: "int karray \<Rightarrow> nat \<Rightarrow> int \<Rightarrow> unit option" where
  "free_pids a 0 i = Some ()"
| "free_pids a (Suc n) i = do { pid \<leftarrow> array_getguy a i; free_pids a n (i + 1) }"

definition p_destroy_at :: "'d vnode_ops \<Rightarrow> (int \<Rightarrow> bool \<times> bool) \<Rightarrow> nat \<Rightarrow> ('d, 'e) kern \<Rightarrow> ('d, 'e) kern option" where
  "p_destroy_at ops oks p k = do {
     x \<leftarrow> k_proc k p;
     k1 \<leftarrow> ft_drop ops oks (p_file_table x) k;
     k2 \<leftarrow> pt_drop (p_page_table x) k1;
     k3 \<leftarrow> destroy_synch x k2;
     free_pids (p_childrenpids x) (nat (array_getnum (p_childrenpids x))) 0;
     Some (k3\<lparr>k_proc := (k_proc k3)(p := None)\<rparr>) }"

text \<open>The arguments of \<^verbatim>\<open>thread_exit\<close>, which switches to another thread, come first.\<close>

definition p_destroy :: "bool \<Rightarrow> bool \<Rightarrow> (tsys \<Rightarrow> tsys) \<Rightarrow> 'd vnode_ops \<Rightarrow> (int \<Rightarrow> bool \<times> bool) \<Rightarrow> ('d, 'e) kern \<Rightarrow> ('d, 'e) kern option" where
  "p_destroy asd ok idle ops oks k = do {
     (cur, k1) \<leftarrow> get_curprocess k;
     p \<leftarrow> cur;
     k2 \<leftarrow> p_destroy_at ops oks p k1;
     ts \<leftarrow> thread_exit asd ok idle (sy_ts (k_sy k2));
     Some (put_ksy ((k_sy k2)\<lparr>sy_ts := ts\<rparr>) k2) }"

text \<open>The children of a process that exits get pid 0 as their parent.\<close>

fun orphan_loop :: "nat \<Rightarrow> nat \<Rightarrow> int \<Rightarrow> ('d, 'e) kern \<Rightarrow> ('d, 'e) kern option" where
  "orphan_loop p 0 i k = Some k"
| "orphan_loop p (Suc n) i k = do {
     x \<leftarrow> k_proc k p;
     childpid \<leftarrow> array_getguy (p_childrenpids x) i;
     (c, k1) \<leftarrow> processtable_get childpid k;
     k2 \<leftarrow> (case c of
         None \<Rightarrow> Some k1
       | Some q \<Rightarrow> do {
           y \<leftarrow> k_proc k1 q;
           Some (if p_parentpid y = p_pid x then put_proc q (y\<lparr>p_parentpid := 0\<rparr>) k1 else k1) });
     orphan_loop p n (i + 1) k2 }"

text \<open>\<^verbatim>\<open>kill_process\<close> up to the call of \<^verbatim>\<open>thread_exit\<close>: under the lock, and after it.\<close>

definition announce_exit :: "(nat \<Rightarrow> bool) \<Rightarrow> int \<Rightarrow> nat \<Rightarrow> ('d, 'e) kern \<Rightarrow> ('d, 'e) kern option" where
  "announce_exit okf exitcode p k = do {
     x \<leftarrow> k_proc k p;
     sy1 \<leftarrow> lock_take (p_lock x) (k_sy k);
     let k1 = put_proc p (x\<lparr>p_exitcode := exitcode, p_has_exited := 1\<rparr>) (put_ksy sy1 k);
     c \<leftarrow> p_waitcv x;
     l \<leftarrow> p_lock x;
     sy2 \<leftarrow> cv_signal okf c l (k_sy k1);
     k2 \<leftarrow> orphan_loop p (nat (array_getnum (p_childrenpids x))) 0 (put_ksy sy2 k1);
     sy3 \<leftarrow> lock_give (p_lock x) (k_sy k2);
     Some (put_ksy sy3 k2) }"

definition leave_process :: "'d vnode_ops \<Rightarrow> (int \<Rightarrow> bool \<times> bool) \<Rightarrow> (nat \<Rightarrow> bool) \<Rightarrow> bool \<Rightarrow> bool \<Rightarrow> int \<Rightarrow> ('d, 'e) kern \<Rightarrow> ('d, 'e) kern option" where
  "leave_process ops oks okf okp okn exitcode k = do {
     (cur, k1) \<leftarrow> get_curprocess k;
     p \<leftarrow> cur;
     k2 \<leftarrow> announce_exit okf exitcode p k1;
     y \<leftarrow> k_proc k2 p;
     if p_parentpid y = 0 then do {
       k3 \<leftarrow> processtable_remove okp okn (p_pid y) k2;
       p_destroy_at ops oks p k3 }
     else Some k2 }"

definition kill_process ::
    "bool \<Rightarrow> bool \<Rightarrow> (tsys \<Rightarrow> tsys) \<Rightarrow> 'd vnode_ops \<Rightarrow> (int \<Rightarrow> bool \<times> bool) \<Rightarrow> (nat \<Rightarrow> bool) \<Rightarrow> bool \<Rightarrow> bool \<Rightarrow> int \<Rightarrow> ('d, 'e) kern \<Rightarrow> ('d, 'e) kern option" where
  "kill_process asd ok idle ops oks okf okp okn exitcode k = do {
     k1 \<leftarrow> leave_process ops oks okf okp okn exitcode k;
     ts \<leftarrow> thread_exit asd ok idle (sy_ts (k_sy k1));
     Some (put_ksy ((k_sy k1)\<lparr>sy_ts := ts\<rparr>) k1) }"

section \<open>Facts on the process table\<close>

definition ptab_ok :: "('d, 'e) kern \<Rightarrow> bool" where
  "ptab_ok k \<longleftrightarrow> tab_exact (k_ptab k) \<and> own_lock (fy_vfs (k_fs k)) (k_ptlock k)"

text \<open>Every entry of the process table is a process in memory.\<close>

definition procs_live :: "('d, 'e) kern \<Rightarrow> bool" where
  "procs_live k \<longleftrightarrow> (\<forall>pid p. tab_entry (k_ptab k) pid = Some p \<longrightarrow> k_proc k p \<noteq> None)"

lemma put_ksy_twice [simp]: "put_ksy s (put_ksy s' k) = put_ksy s k"
  by simp

lemma pt_locked_same:
  assumes "lock_idle (k_ptlock k) (k_sy k)" "body (put_ksy (lock_hold (k_ptlock k) (k_sy k)) k) = Some (r, k1)"
    and "k_ptlock k1 = k_ptlock k" "k_sy k1 = lock_hold (k_ptlock k) (k_sy k)"
  shows "pt_locked body k = Some (r, put_ksy (k_sy k) k1)"
  using assms by (simp add: pt_locked_def)

lemma processtable_get_eq:
  assumes inv: "tab_invar (k_ptab k)" and idle: "lock_idle (k_ptlock k) (k_sy k)"
  shows "processtable_get pid k = Some (tab_entry (k_ptab k) pid, k)"
proof -
  have sz: "processtable_getsize k = Some (tab_getsize (k_ptab k), k)"
    using idle by (simp add: processtable_getsize_def pt_locked_def)
  have out: "tab_entry (k_ptab k) pid = None" if "pid < 0 \<or> tab_getsize (k_ptab k) \<le> pid"
    using tab.entry_range [OF inv, of pid] that by (cases "tab_entry (k_ptab k) pid") auto
  have get: "tab_getguy (k_ptab k) pid = Some (tab_entry (k_ptab k) pid)" if "0 \<le> pid" "pid < tab_getsize (k_ptab k)"
    using tab_entry_eq [OF inv, of pid] that by simp
  show ?thesis
    using sz out get idle by (auto simp: processtable_get_def pt_locked_def not_less)
qed

lemma ptab_okD: "ptab_ok k \<Longrightarrow> tab_invar (k_ptab k)" "ptab_ok k \<Longrightarrow> lock_idle (k_ptlock k) (k_sy k)"
  by (simp_all add: ptab_ok_def own_lock_def tab_exact_invar)

lemma get_curprocess_eq:
  assumes "ptab_ok k" "ts_cur (sy_ts (k_sy k)) = Some t"
  shows "get_curprocess k = Some (tab_entry (k_ptab k) (k_pid k t), k)"
  using assms by (simp add: get_curprocess_def processtable_get_eq ptab_okD)

lemma processtable_insert_eq:
  assumes "ptab_ok k" "tab_getsize (k_ptab k) < 2 ^ 29"
  shows "\<exists>r tb. processtable_insert ok p k = Some (r, k\<lparr>k_ptab := tb\<rparr>) \<and> tab_exact tb \<and>
     ((\<exists>i. r = Inr i \<and> tab_entry (k_ptab k) i = None \<and> tab_entry tb = (tab_entry (k_ptab k))(i := Some p)) \<or>
      r = Inl ENOMEM \<and> \<not> ok \<and> tab_entry tb = tab_entry (k_ptab k))"
proof -
  obtain r tb where tb: "tab_add ok (k_ptab k) p = Some (r, tb)" "tab_exact tb"
      "(\<exists>i. r = Inr i \<and> tab_entry (k_ptab k) i = None \<and> tab_entry tb = (tab_entry (k_ptab k))(i := Some p)) \<or>
       r = Inl ENOMEM \<and> \<not> ok \<and> tab_entry tb = tab_entry (k_ptab k)"
    using tab_exact_add [of "k_ptab k" ok p] assms by (auto simp: ptab_ok_def)
  have "processtable_insert ok p k = Some (r, k\<lparr>k_ptab := tb\<rparr>)"
    using assms(1) tb(1) by (simp add: processtable_insert_def pt_locked_def ptab_ok_def own_lock_def)
  then show ?thesis using tb(2,3) by blast
qed

lemma processtable_remove_eq:
  assumes "ptab_ok k" "tab_entry (k_ptab k) pid \<noteq> None"
  shows "\<exists>tb. processtable_remove True True pid k = Some (k\<lparr>k_ptab := tb\<rparr>) \<and> tab_exact tb \<and>
     tab_entry tb = (tab_entry (k_ptab k))(pid := None)"
proof -
  obtain tb where tb: "tab_remove True True (k_ptab k) pid = Some (Inr (), tb)" "tab_exact tb"
      "tab_entry tb = (tab_entry (k_ptab k))(pid := None)"
    using tab_exact_remove [of "k_ptab k" pid] assms by (auto simp: ptab_ok_def)
  have "processtable_remove True True pid k = Some (k\<lparr>k_ptab := tb\<rparr>)"
    using assms(1) tb(1) by (simp add: processtable_remove_def pt_locked_def ptab_ok_def own_lock_def)
  then show ?thesis using tb(2,3) by blast
qed

section \<open>Creation\<close>

abbreviation all_proc_allocs :: "proc_allocs \<Rightarrow> bool" where
  "all_proc_allocs al \<equiv> pa_proc al \<and> pa_ft al \<and> pa_ft_tab al = (True, True, True) \<and> pa_pt al = (True, True, True) \<and> pa_children al \<and> pa_insert al"

lemma new_cv_eq: "new_cv (Some c) sy = Some (sy\<lparr>sy_cv := (sy_cv sy)(c \<mapsto> \<lparr>cv_queue = q_create True True 10\<rparr>)\<rparr>)"
  by (simp add: new_cv_def cv_create_def)

text \<open>The file table, the condition variable and the lock of a new process.\<close>

lemma create_parts:
  assumes "files_wf fs" "free_locks (fy_vfs fs)" "ts_cur (sy_ts (fy_sy fs)) \<noteq> None"
    and "a \<noteq> l" "sy_lock (fy_sy fs) a = None" "sy_lock (fy_sy fs) l = None"
  shows "\<exists>fs1 ft sy1 sy2. ft_create True True True True (Some a) fs = Some (Some (fy_brk fs), fs1) \<and>
     new_cv (Some c) (fy_sy fs1) = Some sy1 \<and> new_lock (Some l) sy1 = Some sy2 \<and> files_wf (put_sy sy2 fs1) \<and>
     entry (put_sy sy2 fs1) = entry fs \<and> fy_file (put_sy sy2 fs1) = fy_file fs \<and> fy_ft fs (fy_brk fs) = None \<and>
     fy_ft (put_sy sy2 fs1) = (fy_ft fs)(fy_brk fs \<mapsto> ft) \<and> tab_create True True True = Some (ft_files ft) \<and>
     surplus (put_sy sy2 fs1) = surplus fs \<and> sy_ts sy2 = sy_ts (fy_sy fs) \<and> rc (fy_vfs fs1) = rc (fy_vfs fs) \<and>
     vs_cwd (fy_vfs fs1) = vs_cwd (fy_vfs fs) \<and>
     (\<forall>m. own_lock (fy_vfs fs) m \<longrightarrow> own_lock (fy_vfs (put_sy sy2 fs1)) m)"
proof -
  obtain fs1 ft where fs1: "ft_create True True True True (Some a) fs = Some (Some (fy_brk fs), fs1)" "files_wf fs1"
      "moved nil nil (fy_vfs fs) (fy_vfs fs1)" "surplus fs1 = surplus fs" "entry fs1 = entry fs" "fy_file fs1 = fy_file fs"
      "fy_ft fs (fy_brk fs) = None" "fy_ft fs1 = (fy_ft fs)(fy_brk fs \<mapsto> ft)" "tab_create True True True = Some (ft_files ft)"
      "\<forall>b. b \<noteq> a \<longrightarrow> sy_lock (fy_sy fs1) b = sy_lock (fy_sy fs) b"
    using create_table [OF assms(1,5,3,2)] by blast
  let ?sy1 = "(fy_sy fs1)\<lparr>sy_cv := (sy_cv (fy_sy fs1))(c \<mapsto> \<lparr>cv_queue = q_create True True 10\<rparr>)\<rparr>"
  let ?fs1 = "put_sy ?sy1 fs1"
  have wf1: "files_wf ?fs1" using fs1(2) files_wf_cv by blast
  then have wf: "vfs_wf (fy_vfs ?fs1)" "tabs_ok ?fs1" "refs_at nil ?fs1" by (simp_all add: files_wf_def)
  have "sy_lock ?sy1 l = None" using fs1(10) assms(4,6) by auto
  then obtain sy2 where sy2: "new_lock (Some l) ?sy1 = Some sy2" "moved nil nil (fy_vfs ?fs1) ((fy_vfs ?fs1)\<lparr>vs_sy := sy2\<rparr>)" "sy_ts sy2 = sy_ts ?sy1"
    using new_lock_moved [OF wf(1)] by auto
  have "files_wf (put_sy sy2 fs1)"
    using sy2(2) wf by (intro files_wf_moved [OF wf1, of nil nil]) auto
  moreover have "own_lock (fy_vfs (put_sy sy2 fs1)) m" if "own_lock (fy_vfs fs) m" for m
  proof -
    have "own_lock (fy_vfs fs1) m" by (rule own_lock_moved [OF fs1(3) that])
    then have "own_lock (fy_vfs ?fs1) m" by (simp add: own_lock_def lock_idle_def)
    then show ?thesis using own_lock_moved [OF sy2(2)] by simp
  qed
  moreover have "sy_ts sy2 = sy_ts (fy_sy fs)" "rc (fy_vfs fs1) = rc (fy_vfs fs)" "vs_cwd (fy_vfs fs1) = vs_cwd (fy_vfs fs)"
    using sy2(3) fs1(3) by (simp_all add: moved_def fun_eq_iff)
  ultimately show ?thesis
    using fs1 sy2(1) by (intro exI [of _ fs1] exI [of _ ft] exI [of _ ?sy1] exI [of _ sy2]) (simp add: new_cv_eq)
qed

lemma create_process:
  assumes "files_wf (k_fs k)" "free_locks (fy_vfs (k_fs k))" "ts_cur (sy_ts (k_sy k)) \<noteq> None" "ptab_ok k" "tab_getsize (k_ptab k) < 2 ^ 29"
    and "all_proc_allocs al" "pa_ft_lock al = Some a" "pa_cv al = Some c" "pa_lock al = Some l"
    and "a \<noteq> l" "sy_lock (k_sy k) a = None" "sy_lock (k_sy k) l = None"
  shows "\<exists>fs ft tb pid x. p_create ops al k = Some (Some (k_brk k),
       k\<lparr>k_fs := fs, k_brk := Suc (k_brk k), k_ptab := tb, k_proc := (k_proc k)(k_brk k \<mapsto> x)\<rparr>) \<and>
     tab_exact tb \<and> tab_entry (k_ptab k) pid = None \<and> tab_entry tb = (tab_entry (k_ptab k))(pid \<mapsto> k_brk k) \<and>
     p_pid x = pid \<and> p_parentpid x = 0 \<and> p_has_exited x = 0 \<and> p_file_table x = fy_brk (k_fs k) \<and> files_wf fs \<and>
     entry fs = entry (k_fs k) \<and> fy_file fs = fy_file (k_fs k) \<and> fy_ft (k_fs k) (fy_brk (k_fs k)) = None \<and>
     fy_ft fs = (fy_ft (k_fs k))(fy_brk (k_fs k) \<mapsto> ft) \<and> tab_create True True True = Some (ft_files ft) \<and>
     surplus fs = surplus (k_fs k) \<and> sy_ts (fy_sy fs) = sy_ts (k_sy k) \<and> rc (fy_vfs fs) = rc (fy_vfs (k_fs k)) \<and>
     vs_cwd (fy_vfs fs) = vs_cwd (fy_vfs (k_fs k)) \<and> own_lock (fy_vfs fs) (k_ptlock k)"
proof -
  obtain fs1 ft sy1 sy2 where p: "ft_create True True True True (Some a) (k_fs k) = Some (Some (fy_brk (k_fs k)), fs1)"
      "new_cv (Some c) (fy_sy fs1) = Some sy1" "new_lock (Some l) sy1 = Some sy2" "files_wf (put_sy sy2 fs1)"
      "entry (put_sy sy2 fs1) = entry (k_fs k)" "fy_file (put_sy sy2 fs1) = fy_file (k_fs k)" "fy_ft (k_fs k) (fy_brk (k_fs k)) = None"
      "fy_ft (put_sy sy2 fs1) = (fy_ft (k_fs k))(fy_brk (k_fs k) \<mapsto> ft)" "tab_create True True True = Some (ft_files ft)"
      "surplus (put_sy sy2 fs1) = surplus (k_fs k)" "sy_ts sy2 = sy_ts (k_sy k)" "rc (fy_vfs fs1) = rc (fy_vfs (k_fs k))"
      "vs_cwd (fy_vfs fs1) = vs_cwd (fy_vfs (k_fs k))"
      "\<forall>m. own_lock (fy_vfs (k_fs k)) m \<longrightarrow> own_lock (fy_vfs (put_sy sy2 fs1)) m"
    using create_parts [OF assms(1-3,10-12), of c] by (elim exE conjE) (rule that)
  obtain pt where pt: "pt_create True True True = Some pt" by (simp add: pt_create_def array_create_def ll_create_def)
  define x where "x = \<lparr>p_has_exited = 0, p_exitcode = -1, p_parentpid = 0, p_pid = 0, p_file_table = fy_brk (k_fs k),
      p_page_table = pt, p_childrenpids = the (array_create True), p_waitcv = Some c, p_lock = Some l, p_thread = None\<rparr>"
  define k3 where "k3 = put_proc (k_brk k) x (k\<lparr>k_fs := put_sy sy2 fs1, k_brk := Suc (k_brk k)\<rparr>)"
  have own: "own_lock (fy_vfs (put_sy sy2 fs1)) (k_ptlock k)" using p(14) assms(4) by (simp add: ptab_ok_def)
  then have "ptab_ok k3" using assms(4) by (simp add: k3_def ptab_ok_def)
  then obtain r tb where tb: "processtable_insert True (k_brk k) k3 = Some (r, k3\<lparr>k_ptab := tb\<rparr>)" "tab_exact tb"
      "\<exists>pid. r = Inr pid \<and> tab_entry (k_ptab k) pid = None \<and> tab_entry tb = (tab_entry (k_ptab k))(pid \<mapsto> k_brk k)"
    using processtable_insert_eq [of k3 True "k_brk k"] assms(5) by (auto simp: k3_def)
  then obtain pid where pid: "r = Inr pid" "tab_entry (k_ptab k) pid = None" "tab_entry tb = (tab_entry (k_ptab k))(pid \<mapsto> k_brk k)" by blast
  let ?fs = "put_sy sy2 fs1"
  have "p_create ops al k = Some (Some (k_brk k), k\<lparr>k_fs := ?fs, k_brk := Suc (k_brk k), k_ptab := tb,
      k_proc := (k_proc k)(k_brk k \<mapsto> x\<lparr>p_pid := pid\<rparr>)\<rparr>)"
    using assms(6-9) p(1-3) pt tb(1) pid(1)
    by (simp add: p_create_def Let_def k3_def x_def array_create_def)
  moreover have "rc (fy_vfs ?fs) = rc (fy_vfs (k_fs k))" using p(12) by (simp add: rc_def fun_eq_iff)
  ultimately show ?thesis
    using tb(2) pid(2,3) p(4-11,13) own
    by (intro exI [of _ ?fs] exI [of _ ft] exI [of _ tb] exI [of _ pid] exI [of _ "x\<lparr>p_pid := pid\<rparr>"]) (simp add: x_def)
qed

section \<open>Exit\<close>

text \<open>The processes after the loop over the children \<open>cs\<close> of the process with the given pid.\<close>

definition disown :: "int \<Rightarrow> bool \<Rightarrow> process \<Rightarrow> process" where
  "disown pid child y = (if p_parentpid y = pid \<and> child then y\<lparr>p_parentpid := 0\<rparr> else y)"

definition orphaned :: "nat ktable \<Rightarrow> int set \<Rightarrow> int \<Rightarrow> (nat \<Rightarrow> process option) \<Rightarrow> nat \<Rightarrow> process option" where
  "orphaned tb cs pid m q = map_option (disown pid (\<exists>c \<in> cs. tab_entry tb c = Some q)) (m q)"

lemma disown_twice: "disown pid b (disown pid a y) = disown pid (a \<or> b) y"
  by (auto simp: disown_def)

lemma disown_False [simp]: "disown pid False = (\<lambda>y. y)"
  by (simp add: disown_def fun_eq_iff)

lemma disown_sels [simp]:
  "p_childrenpids (disown pid b y) = p_childrenpids y" "p_pid (disown pid b y) = p_pid y"
  by (simp_all add: disown_def)

lemma proc_fs_commute: "k\<lparr>k_proc := m, k_fs := f\<rparr> = k\<lparr>k_fs := f, k_proc := m\<rparr>"
  by simp

lemma orphaned_empty [simp]: "orphaned tb {} pid m = m"
  by (simp add: orphaned_def fun_eq_iff option.map_ident)

lemma orphaned_insert: "orphaned tb cs pid (orphaned tb {c} pid m) = orphaned tb (insert c cs) pid m"
  by (simp add: orphaned_def fun_eq_iff option.map_comp comp_def disown_twice)

lemma orphan_loop_spec:
  assumes "tab_invar (k_ptab k)" "lock_idle (k_ptlock k) (k_sy k)" "k_proc k p = Some x" "array_invar (p_childrenpids x)"
    and "procs_live k" "i + n = length (array_elems (p_childrenpids x))"
  shows "orphan_loop p n (int i) k = Some (k\<lparr>k_proc := orphaned (k_ptab k) (set (drop i (array_elems (p_childrenpids x)))) (p_pid x) (k_proc k)\<rparr>)"
  using assms
proof (induction n arbitrary: i k x)
  case 0
  then show ?case by simp
next
  case (Suc n)
  let ?a = "p_childrenpids x"
  define c where "c = array_elems ?a ! i"
  have i: "i < length (array_elems ?a)" using Suc.prems(6) by simp
  then have get: "array_getguy ?a (int i) = Some c" using arr.getguy [OF Suc.prems(4), of "int i"] by (simp add: c_def)
  have dr: "set (drop i (array_elems ?a)) = insert c (set (drop (Suc i) (array_elems ?a)))"
    using Cons_nth_drop_Suc [OF i] by (metis c_def list.simps(15))
  note pg = processtable_get_eq [OF Suc.prems(1,2), of c]
  define m where "m = orphaned (k_ptab k) {c} (p_pid x) (k_proc k)"
  define k2 where "k2 = k\<lparr>k_proc := m\<rparr>"
  have step: "orphan_loop p (Suc n) (int i) k = orphan_loop p n (int (Suc i)) k2"
  proof (cases "tab_entry (k_ptab k) c")
    case None
    then have "m = k_proc k" by (simp add: m_def orphaned_def fun_eq_iff option.map_ident)
    then have "k2 = k" by (simp add: k2_def)
    then show ?thesis using Suc.prems(3) get pg None by (simp add: add.commute)
  next
    case (Some q)
    then obtain y where y: "k_proc k q = Some y" using Suc.prems(5) unfolding procs_live_def by blast
    have "m = (k_proc k)(q \<mapsto> if p_parentpid y = p_pid x then y\<lparr>p_parentpid := 0\<rparr> else y)"
      using Some y by (auto simp: m_def orphaned_def fun_eq_iff disown_def option.map_ident)
    then have "k2 = (if p_parentpid y = p_pid x then put_proc q (y\<lparr>p_parentpid := 0\<rparr>) k else k)"
      using y by (simp add: k2_def fun_upd_idem)
    then show ?thesis using Suc.prems(3) get pg Some y by (simp add: add.commute)
  qed
  obtain x2 where x2: "m p = Some x2" "p_childrenpids x2 = ?a" "p_pid x2 = p_pid x"
    using Suc.prems(3) by (auto simp: m_def orphaned_def)
  have "orphan_loop p n (int (Suc i)) k2 = Some (k2\<lparr>k_proc := orphaned (k_ptab k2) (set (drop (Suc i) (array_elems (p_childrenpids x2)))) (p_pid x2) (k_proc k2)\<rparr>)"
    by (rule Suc.IH) (use Suc.prems x2 in \<open>auto simp: k2_def m_def orphaned_def procs_live_def\<close>)
  then show ?case using step x2(2,3) dr by (simp add: k2_def m_def orphaned_insert)
qed

text \<open>The part of \<^verbatim>\<open>kill_process\<close> under the lock of the process.\<close>

lemma announce_exit_spec:
  assumes "ptab_ok k" "ts_ok (sy_ts (k_sy k))" "k_proc k p = Some x" "p_lock x = Some l" "lock_idle (Some l) (k_sy k)" "k_ptlock k \<noteq> Some l"
    and "p_waitcv x = Some c" "sy_cv (k_sy k) c = Some v" "cv_queue v = Some q" "q_wf q" "array_invar (p_childrenpids x)"
    and "procs_live k"
  defines "cs \<equiv> set (array_elems (p_childrenpids x))"
  shows "\<exists>ts q'. announce_exit okf exitcode p k = Some (put_ksy ((k_sy k)\<lparr>sy_ts := ts, sy_cv := (sy_cv (k_sy k))(c \<mapsto> \<lparr>cv_queue = Some q'\<rparr>)\<rparr>)
       (k\<lparr>k_proc := orphaned (k_ptab k) cs (p_pid x) ((k_proc k)(p \<mapsto> x\<lparr>p_exitcode := exitcode, p_has_exited := 1\<rparr>))\<rparr>)) \<and>
     ts_ok ts \<and> ts_cur ts = ts_cur (sy_ts (k_sy k)) \<and>
     (\<forall>b u. asleep_on ts b u = (asleep_on (sy_ts (k_sy k)) b u \<and> (q_elems q = [] \<or> b \<noteq> hd (q_elems q))))"
proof -
  let ?x = "x\<lparr>p_exitcode := exitcode, p_has_exited := 1\<rparr>" and ?h = "lock_hold (Some l) (k_sy k)"
  obtain ts q' where sg: "cv_signal okf c l ?h = Some (?h\<lparr>sy_ts := ts, sy_cv := (sy_cv (k_sy k))(c \<mapsto> \<lparr>cv_queue = Some q'\<rparr>)\<rparr>)"
      "ts_ok ts" "ts_cur ts = ts_cur (sy_ts (k_sy k))"
      "\<forall>b u. asleep_on ts b u = (asleep_on (sy_ts (k_sy k)) b u \<and> (q_elems q = [] \<or> b \<noteq> hd (q_elems q)))"
    using cv_signal_first [of ?h c v q l okf] lock_hold_mine [OF assms(5)] assms(2,8-10) by auto
  let ?cv = "(sy_cv (k_sy k))(c \<mapsto> \<lparr>cv_queue = Some q'\<rparr>)"
  define k1 where "k1 = put_proc p ?x (put_ksy (?h\<lparr>sy_ts := ts, sy_cv := ?cv\<rparr>) k)"
  note chg = lock_change_ts [OF sg(3), of _ ?cv]
  have n: "nat (array_getnum (p_childrenpids x)) = length (array_elems (p_childrenpids x))" using arr.getnum [OF assms(11)] by simp
  have idle: "lock_idle (k_ptlock k) (?h\<lparr>sy_ts := ts, sy_cv := ?cv\<rparr>)"
    using chg lock_idle_hold [of "Some l" "k_ptlock k"] ptab_okD(2) [OF assms(1)] assms(6) by (metis (full_types))
  have live: "procs_live k1" using assms(12) by (auto simp: k1_def procs_live_def)
  have "orphan_loop p (0 + length (array_elems (p_childrenpids ?x))) (int 0) k1 =
      Some (k1\<lparr>k_proc := orphaned (k_ptab k1) (set (drop 0 (array_elems (p_childrenpids ?x)))) (p_pid ?x) (k_proc k1)\<rparr>)"
    by (rule orphan_loop_spec) (use ptab_okD(1) [OF assms(1)] idle assms(11) live in \<open>simp_all add: k1_def\<close>)
  then have lp: "orphan_loop p (nat (array_getnum (p_childrenpids x))) 0 k1 =
      Some (k1\<lparr>k_proc := orphaned (k_ptab k) cs (p_pid x) ((k_proc k)(p \<mapsto> ?x))\<rparr>)"
    using n by (simp add: k1_def cs_def)
  have "lock_give (Some l) (?h\<lparr>sy_ts := ts, sy_cv := ?cv\<rparr>) = Some ((k_sy k)\<lparr>sy_ts := ts, sy_cv := ?cv\<rparr>)"
    using lock_give_hold [of "Some l" "(k_sy k)\<lparr>sy_ts := ts, sy_cv := ?cv\<rparr>"] chg assms(5) by simp
  then have "announce_exit okf exitcode p k = Some (put_ksy ((k_sy k)\<lparr>sy_ts := ts, sy_cv := ?cv\<rparr>)
      (k\<lparr>k_proc := orphaned (k_ptab k) cs (p_pid x) ((k_proc k)(p \<mapsto> ?x))\<rparr>))"
    using assms(3-5,7) sg(1) lp by (simp add: announce_exit_def k1_def proc_fs_commute)
  then show ?thesis using sg(2-4) by blast
qed

text \<open>\<open>removable\<close>: a process whose parts are all idle, so that it can be freed; \<open>vm\<close> is the memory without its page table.\<close>

definition removable :: "('d, 'e) kern \<Rightarrow> nat \<Rightarrow> 'e vmsys \<Rightarrow> bool" where
  "removable k p vm \<longleftrightarrow> (\<exists>x ft a l c v q. k_proc k p = Some x \<and> fy_ft (k_fs k) (p_file_table x) = Some ft \<and> ft_lock ft = Some a \<and> unslept a (k_sy k) \<and>
     pt_destroy (p_page_table x) (k_vm k) = Some vm \<and> p_lock x = Some l \<and> own_lock (fy_vfs (k_fs k)) (Some l) \<and> unslept l (k_sy k) \<and>
     (\<forall>t ft. fy_ft (k_fs k) t = Some ft \<longrightarrow> ft_lock ft \<noteq> Some l) \<and> k_ptlock k \<noteq> Some l \<and> k_ptlock k \<noteq> Some a \<and>
     p_waitcv x = Some c \<and> sy_cv (k_sy k) c = Some v \<and> cv_queue v = Some q \<and> q_empty q \<and> unslept c (k_sy k) \<and> array_invar (p_childrenpids x))"

lemma free_pids_returns: "array_invar a \<Longrightarrow> i + n = length (array_elems a) \<Longrightarrow> free_pids a n (int i) = Some ()"
proof (induction n arbitrary: i)
  case (Suc n)
  then have "array_getguy a (int i) = Some (array_elems a ! i)" by (simp add: arr.getguy)
  then show ?case using Suc.IH [of "Suc i"] Suc.prems by (simp add: add.commute)
qed simp

context file_systems
begin

lemma destroy_process:
  assumes "files_wf (k_fs k)" "fsinv (fy_vfs (k_fs k))" "removable k p vm" "k_proc k p = Some x"
  shows "\<exists>fs. p_destroy_at ops (\<lambda>_. (True, True)) p k = Some (k\<lparr>k_fs := fs, k_vm := vm, k_proc := (k_proc k)(p := None)\<rparr>) \<and>
     files_wf fs \<and> fsinv (fy_vfs fs) \<and> surplus fs = surplus (k_fs k) \<and> dom (fy_ft fs) = dom (fy_ft (k_fs k)) - {p_file_table x} \<and>
     entry fs = (\<lambda>s. if fst s = p_file_table x then None else entry (k_fs k) s) \<and>
     (own_lock (fy_vfs (k_fs k)) (k_ptlock k) \<longrightarrow> own_lock (fy_vfs fs) (k_ptlock k))"
proof -
  obtain ft a l c v q where x: "fy_ft (k_fs k) (p_file_table x) = Some ft" "ft_lock ft = Some a" "unslept a (k_sy k)"
      "pt_destroy (p_page_table x) (k_vm k) = Some vm" "p_lock x = Some l" "own_lock (fy_vfs (k_fs k)) (Some l)" "unslept l (k_sy k)"
      "\<forall>t ft. fy_ft (k_fs k) t = Some ft \<longrightarrow> ft_lock ft \<noteq> Some l" "k_ptlock k \<noteq> Some l" "k_ptlock k \<noteq> Some a"
      "p_waitcv x = Some c" "sy_cv (k_sy k) c = Some v" "cv_queue v = Some q" "q_empty q" "unslept c (k_sy k)" "array_invar (p_childrenpids x)"
    using assms(3,4) unfolding removable_def by fastforce
  obtain fs where fs: "ft_destroy ops (\<lambda>_. (True, True)) (p_file_table x) (k_fs k) = Some fs" "files_wf fs" "fsinv (fy_vfs fs)"
      "surplus fs = surplus (k_fs k)" "\<forall>l. l \<noteq> Some a \<longrightarrow> own_lock (fy_vfs (k_fs k)) l \<longrightarrow> own_lock (fy_vfs fs) l"
      "sy_ts (fy_sy fs) = sy_ts (k_sy k)" "sy_cv (fy_sy fs) = sy_cv (k_sy k)" "table_locks fs = (table_locks (k_fs k))(p_file_table x := None)"
      "dom (fy_ft fs) = dom (fy_ft (k_fs k)) - {p_file_table x}" "entry fs = (\<lambda>(u, j). if u = p_file_table x then None else entry (k_fs k) (u, j))"
    using destroy [OF assms(1,2) x(1-3)] by blast
  have la: "Some l \<noteq> Some a" using x(1,2,8) by auto
  then have own: "own_lock (fy_vfs fs) (Some l)" using fs(5) x(6) by blast
  let ?sy1 = "(fy_sy fs)\<lparr>sy_lock := (sy_lock (fy_sy fs))(l := None)\<rparr>"
  let ?fs1 = "put_sy ?sy1 fs"
  let ?sy2 = "?sy1\<lparr>sy_cv := (sy_cv ?sy1)(c := None)\<rparr>"
  have ld: "lock_destroy l (fy_sy fs) = Some ?sy1"
    using own x(7) fs(6) by (intro lock_destroy_idle) (simp_all add: own_lock_def)
  have cd: "cv_destroy c ?sy1 = Some ?sy2"
    using x(12-15) fs(6,7) by (simp add: cv_destroy_def splhigh_def splx_def q_destroy_def)
  have "fy_ft fs u = Some fu \<Longrightarrow> ft_lock fu \<noteq> Some l" for u fu
    using fun_cong [OF fs(8), of u] x(8) by (cases "fy_ft (k_fs k) u") (auto split: if_splits)
  then have wf1: "files_wf ?fs1" by (intro files_wf_lock_gone [OF fs(2) own])
  have wf2: "files_wf (put_sy ?sy2 fs)" using files_wf_cv [where fs = ?fs1 and m = "(sy_cv ?sy1)(c := None)"] wf1 by simp
  have n: "free_pids (p_childrenpids x) (nat (array_getnum (p_childrenpids x))) 0 = Some ()"
    using free_pids_returns [OF x(16), of 0 "length (array_elems (p_childrenpids x))"] arr.getnum [OF x(16)] by simp
  have run: "p_destroy_at ops (\<lambda>_. (True, True)) p k = Some (k\<lparr>k_fs := put_sy ?sy2 fs, k_vm := vm, k_proc := (k_proc k)(p := None)\<rparr>)"
    using assms(4) fs(1) x(4,5,11) ld cd n by (simp add: p_destroy_at_def ft_drop_def pt_drop_def destroy_synch_def)
  have "own_lock (fy_vfs (put_sy ?sy2 fs)) (k_ptlock k)" if "own_lock (fy_vfs (k_fs k)) (k_ptlock k)"
  proof -
    have "own_lock (fy_vfs fs) (k_ptlock k)" using fs(5) that x(10) by blast
    then have "own_lock (fy_vfs ?fs1) (k_ptlock k)"
      using lock_gone(4) [of "fy_vfs fs" l "k_ptlock k"] own x(9) fs(2) by (simp add: own_lock_def files_wf_def)
    then show ?thesis by (simp add: own_lock_def lock_idle_def)
  qed
  moreover have "entry fs = (\<lambda>s. if fst s = p_file_table x then None else entry (k_fs k) s)" using fs(10) by (auto simp: fun_eq_iff)
  ultimately show ?thesis using run wf2 fs(3,4,9) inv_sy by (intro exI [of _ "put_sy ?sy2 fs"]) simp
qed

end

section \<open>A process with an open file\<close>

text \<open>Process 100 has pid 0, the file table 101 of \<open>wit_files\<close>, and lock 31; the lock of the process table is 30.\<close>

definition wit_proc :: process where
  "wit_proc = \<lparr>p_has_exited = 0, p_exitcode = -1, p_parentpid = 0, p_pid = 0, p_file_table = 101,
     p_page_table = the (pt_create True True True), p_childrenpids = the (array_create True), p_waitcv = Some 40,
     p_lock = Some 31, p_thread = Some 0\<rparr>"

definition wit_kern :: "(unit, unit) kern" where
  "wit_kern = \<lparr>k_fs = wit_files, k_vm = wit_vm (), k_proc = [100 \<mapsto> wit_proc], k_as = Map.empty, k_ptab = wit_tab,
     k_ptlock = Some 30, k_pid = (\<lambda>_. 0), k_brk = 101\<rparr>"

lemma wit_kern_sel [simp]:
  "k_fs wit_kern = wit_files" "k_proc wit_kern = [100 \<mapsto> wit_proc]" "k_ptab wit_kern = wit_tab" "k_pid wit_kern t = 0"
  "p_file_table wit_proc = 101"
  by (simp_all add: wit_kern_def wit_proc_def)

lemma wit_kern_ptab: "ptab_ok wit_kern"
  using wit_dev_idle [of 30 "{5, 6, 7, 8, 10, 20, 30, 31}" 2 1]
  by (simp add: ptab_ok_def wit_tab(1) own_lock_def wit_files_def wit_dev_sel wit_kern_def)

lemma wit_kern_cur: "ts_cur (sy_ts (fy_sy wit_files)) = Some 0"
  by (simp add: wit_files_def wit_dev_def wit_tsys_def)

text \<open>The process with parent 7 and its condition variable, for the exit.\<close>

definition wit_child :: "(unit, unit) kern" where
  "wit_child = put_ksy ((fy_sy wit_files)\<lparr>sy_cv := [40 \<mapsto> \<lparr>cv_queue = q_create True True 10\<rparr>]\<rparr>)
     (wit_kern\<lparr>k_proc := [100 \<mapsto> wit_proc\<lparr>p_parentpid := 7\<rparr>]\<rparr>)"

lemma wit_child_sel:
  "k_fs wit_child = put_sy ((fy_sy wit_files)\<lparr>sy_cv := [40 \<mapsto> \<lparr>cv_queue = q_create True True 10\<rparr>]\<rparr>) wit_files"
  "k_proc wit_child = [100 \<mapsto> wit_proc\<lparr>p_parentpid := 7\<rparr>]" "k_ptab wit_child = wit_tab" "k_pid wit_child t = 0" "k_ptlock wit_child = Some 30"
  "k_vm wit_child = wit_vm ()"
  by (simp_all add: wit_child_def wit_kern_def)

lemma wit_child_idle: "l \<in> {30, 31} \<Longrightarrow> lock_idle (Some l) (k_sy wit_child)"
  using wit_dev_idle [of l "{5, 6, 7, 8, 10, 20, 30, 31}" 2 1] by (auto simp: wit_child_sel wit_files_def lock_idle_def)

lemma wit_child_ptab: "ptab_ok wit_child"
  using wit_child_idle [of 30]
  by (simp add: ptab_ok_def own_lock_def wit_child_sel wit_tab(1)) (simp add: wit_files_def wit_dev_sel)

lemma wit_proc_children: "array_invar (p_childrenpids wit_proc)"
  by (simp add: wit_proc_def array_create_def array_invar_def array_wf_def array_full_def)

lemma pt_create_destroy:
  assumes "pt_create ok oka okl = Some pt"
  shows "pt_destroy pt st = Some st"
  using assms
  by (auto simp: pt_create_def pt_destroy_def array_create_def ll_create_def array_getnum_def empty_fifo.simps ll_empty_def ll_destroy_def
      split: if_splits option.splits)

lemma wit_proc_pages: "pt_destroy (p_page_table wit_proc) st = Some st"
proof -
  obtain pt where "pt_create True True True = Some pt" by (simp add: pt_create_def array_create_def ll_create_def)
  then show ?thesis using pt_create_destroy by (simp add: wit_proc_def)
qed

lemma wit_queue: "\<exists>q. q_create True True 10 = Some (q :: nat kqueue) \<and> q_wf q \<and> q_empty q"
  by (auto simp: q_create_def q_wf_def q_fresh_def q_empty_def)

section \<open>Properties\<close>

text \<open>
  Claim C9: a process that exits while its parent lives stays behind for it. \<^verbatim>\<open>kill_process\<close> reaches its end; the
  process keeps its entry in the process table and records that it has exited, and with which code; of the other processes
  exactly its own children change, and only their parent, which becomes 0; open files are untouched, and the first
  thread that waits for the process is woken, and no other.
\<close>

theorem exit_leaves_zombie:
  assumes "ptab_ok k" "ts_ok (sy_ts (k_sy k))" "ts_cur (sy_ts (k_sy k)) = Some t" "tab_entry (k_ptab k) (k_pid k t) = Some p"
    and "k_proc k p = Some x" "p_parentpid x \<noteq> 0" "p_parentpid x \<noteq> p_pid x"
    and "p_lock x = Some l" "lock_idle (Some l) (k_sy k)" "k_ptlock k \<noteq> Some l"
    and "p_waitcv x = Some c" "sy_cv (k_sy k) c = Some v" "cv_queue v = Some q" "q_wf q" "array_invar (p_childrenpids x)"
    and "procs_live k"
  shows "\<exists>k'. leave_process ops oks okf okp okn exitcode k = Some k' \<and> k_ptab k' = k_ptab k \<and>
     k_proc k' p = Some (x\<lparr>p_exitcode := exitcode, p_has_exited := 1\<rparr>) \<and>
     (\<forall>r y. r \<noteq> p \<and> k_proc k r = Some y \<longrightarrow> k_proc k' r = Some (
        if p_parentpid y = p_pid x \<and> (\<exists>c \<in> set (array_elems (p_childrenpids x)). tab_entry (k_ptab k) c = Some r)
        then y\<lparr>p_parentpid := 0\<rparr> else y)) \<and>
     entry (k_fs k') = entry (k_fs k) \<and> fy_file (k_fs k') = fy_file (k_fs k) \<and>
     (\<forall>b u. asleep_on (sy_ts (k_sy k')) b u = (asleep_on (sy_ts (k_sy k)) b u \<and> (q_elems q = [] \<or> b \<noteq> hd (q_elems q))))"
proof -
  obtain ts q' where a: "announce_exit okf exitcode p k =
      Some (put_ksy ((k_sy k)\<lparr>sy_ts := ts, sy_cv := (sy_cv (k_sy k))(c \<mapsto> \<lparr>cv_queue = Some q'\<rparr>)\<rparr>)
        (k\<lparr>k_proc := orphaned (k_ptab k) (set (array_elems (p_childrenpids x))) (p_pid x)
          ((k_proc k)(p \<mapsto> x\<lparr>p_exitcode := exitcode, p_has_exited := 1\<rparr>))\<rparr>))"
      "\<forall>b u. asleep_on ts b u = (asleep_on (sy_ts (k_sy k)) b u \<and> (q_elems q = [] \<or> b \<noteq> hd (q_elems q)))"
    using announce_exit_spec [OF assms(1,2,5,8-16)] by blast
  let ?x = "x\<lparr>p_exitcode := exitcode, p_has_exited := 1\<rparr>"
  have "get_curprocess k = Some (Some p, k)" using get_curprocess_eq [OF assms(1,3)] assms(4) by simp
  then have run: "leave_process ops oks okf okp okn exitcode k = announce_exit okf exitcode p k"
    using a(1) assms(6,7) by (simp add: leave_process_def orphaned_def disown_def)
  show ?thesis unfolding run a(1)
    using a(2) assms(7) by (simp add: orphaned_def disown_def)
qed

theorem exit_leaves_zombie_witness:
  "\<exists>k'. leave_process (dev_vnode_ops devnull_ops) (\<lambda>_. (True, True)) (\<lambda>_. True) True True 3 wit_child = Some k' \<and>
     k_ptab k' = wit_tab \<and> k_proc k' 100 = Some (wit_proc\<lparr>p_parentpid := 7, p_exitcode := 3, p_has_exited := 1\<rparr>)"
proof -
  have "ts_ok (sy_ts (k_sy wit_child))" using wit_ts_ok by (simp add: wit_child_sel wit_files_def wit_dev_def)
  moreover obtain q where "q_create True True 10 = Some (q :: nat kqueue)" "q_wf q" using wit_queue by blast
  ultimately show ?thesis
    using exit_leaves_zombie [OF wit_child_ptab, where t = 0 and p = 100 and x = "wit_proc\<lparr>p_parentpid := 7\<rparr>" and l = 31 and c = 40
        and v = "\<lparr>cv_queue = q_create True True 10\<rparr>" and q = q] wit_child_idle [of 31] wit_proc_children
      wit_kern_cur by (fastforce simp: wit_child_sel wit_proc_def wit_tab(3) procs_live_def split: if_splits)
qed

end
