(* ===== verification/Kern_Syscall.thy ===== *)
theory Kern_Syscall
  imports Kern_Process
begin

text \<open>
  The system calls on files and processes (\<^verbatim>\<open>kern/userprog/sys*.c\<close>). A call gives its error code or its return
  value, with the memory of the caller and the state of the kernel.
\<close>

section \<open>Files\<close>

definition PATH_MAX :: nat where "PATH_MAX = 1024"

definition cur_process :: "nat option \<Rightarrow> ('d, 'e) kern \<Rightarrow> process option" where
  "cur_process cur k = do { p \<leftarrow> cur; k_proc k p }"

definition filename_invalid :: "32 word \<Rightarrow> uspace \<Rightarrow> ((errno + unit) \<times> uspace) option" where
  "filename_invalid filename u =
     (if filename = 0 then Some (Inl EFAULT, u)
      else do {
        (r, _, u1) \<leftarrow> copyinstr u filename (replicate PATH_MAX 0) (of_nat PATH_MAX);
        Some (map_sum (\<lambda>e. e) (\<lambda>_. ()) r, u1) })"

text \<open>
  \<^verbatim>\<open>vfs_open\<close> gets the pointer of the user: the kernel reads the string where it lies, and \<^verbatim>\<open>getdevice\<close> puts a null
  byte over a colon in it. The access mode is checked before, so nothing is written when it is wrong.
\<close>

definition user_string :: "uspace \<Rightarrow> 32 word \<Rightarrow> string" where
  "user_string u a =
     map (\<lambda>b. char_of (unat b)) (takeWhile (\<lambda>b. b \<noteq> 0) (map (\<lambda>i. us_bytes u (a + of_nat i)) [0..<PATH_MAX]))"

definition cut_colon :: "32 word \<Rightarrow> int \<Rightarrow> uspace \<Rightarrow> uspace option" where
  "cut_colon filename flags u = (case first_mark (user_string u filename) 0 of (colon, slash) \<Rightarrow>
     if flags AND O_ACCMODE \<noteq> 3 \<and> colon > 0 then user_write filename (nat colon) 0 u else Some u)"

text \<open>\<open>okf\<close>, \<open>l\<close>: the allocations of \<^verbatim>\<open>f_create\<close>; \<open>oks\<close>: that of \<^verbatim>\<open>ft_storefile\<close>.\<close>

definition install_file ::
    "'d vnode_ops \<Rightarrow> bool \<Rightarrow> nat option \<Rightarrow> bool \<Rightarrow> process option \<Rightarrow> nat \<Rightarrow> int \<Rightarrow> 'd files \<Rightarrow> ((errno + int) \<times> 'd files) option" where
  "install_file ops okf l oks cur v flags fs = do {
     (fo, fs1) \<leftarrow> f_create okf l flags 0 v fs;
     (case fo of
        None \<Rightarrow> do {
          st1 \<leftarrow> vfs_close ops v (fy_vfs fs1);
          Some (Inl ENOMEM, fs1\<lparr>fy_vfs := st1\<rparr>) }
      | Some f \<Rightarrow> do {
          p \<leftarrow> cur;
          (fd, fs2) \<leftarrow> ft_storefile oks (p_file_table p) f fs1;
          (case fd of
             Inl e \<Rightarrow> do {
               fs3 \<leftarrow> f_destroy f fs2;
               st1 \<leftarrow> vfs_close ops v (fy_vfs fs3);
               Some (Inl e, fs3\<lparr>fy_vfs := st1\<rparr>) }
           | Inr n \<Rightarrow> Some (Inr n, fs2)) }) }"

definition open_file ::
    "'d vnode_ops \<Rightarrow> bool \<Rightarrow> nat option \<Rightarrow> bool \<Rightarrow> process option \<Rightarrow> string \<Rightarrow> int \<Rightarrow> 'd files \<Rightarrow> ((errno + int) \<times> 'd files) option" where
  "open_file ops okf l oks cur filename flags fs = do {
     (r, st) \<leftarrow> vfs_open ops filename flags (fy_vfs fs);
     (case r of
        Inl e \<Rightarrow> Some (Inl e, fs\<lparr>fy_vfs := st\<rparr>)
      | Inr v \<Rightarrow> install_file ops okf l oks cur v flags (fs\<lparr>fy_vfs := st\<rparr>)) }"

definition sys_open ::
    "'d vnode_ops \<Rightarrow> bool \<Rightarrow> nat option \<Rightarrow> bool \<Rightarrow> 32 word \<Rightarrow> int \<Rightarrow> uspace \<Rightarrow> ('d, 'e) kern \<Rightarrow>
     ((errno + int) \<times> uspace \<times> ('d, 'e) kern) option" where
  "sys_open ops okf l oks filename flags u k = do {
     (cur, k1) \<leftarrow> get_curprocess k;
     (r, u1) \<leftarrow> filename_invalid filename u;
     (case r of
        Inl e \<Rightarrow> Some (Inl e, u1, k1)
      | Inr _ \<Rightarrow> do {
          u2 \<leftarrow> cut_colon filename flags u1;
          (fd, fs) \<leftarrow> open_file ops okf l oks (cur_process cur k1) (user_string u1 filename) flags (k_fs k1);
          Some (fd, u2, k1\<lparr>k_fs := fs\<rparr>) }) }"

text \<open>\<open>okp\<close>, \<open>okn\<close>: the allocations of \<^verbatim>\<open>tab_remove\<close>.\<close>

definition sys_close :: "'d vnode_ops \<Rightarrow> bool \<Rightarrow> bool \<Rightarrow> int \<Rightarrow> ('d, 'e) kern \<Rightarrow> ((errno + int) \<times> ('d, 'e) kern) option" where
  "sys_close ops okp okn fd k = do {
     (cur, k1) \<leftarrow> get_curprocess k;
     p \<leftarrow> cur_process cur k1;
     (f, fs) \<leftarrow> ft_getfile (p_file_table p) fd (k_fs k1);
     (case f of
        Inl e \<Rightarrow> Some (Inl e, k1\<lparr>k_fs := fs\<rparr>)
      | Inr _ \<Rightarrow> do {
          (r, fs1) \<leftarrow> ft_removefile ops okp okn (p_file_table p) fd fs;
          Some (map_sum (\<lambda>e. e) (\<lambda>_. 0) r, k1\<lparr>k_fs := fs1\<rparr>) }) }"

text \<open>The uio of a transfer between a file and the memory of the caller.\<close>

definition user_uio :: "32 word \<Rightarrow> nat \<Rightarrow> int \<Rightarrow> uio_rw \<Rightarrow> ('d, 'e) kern \<Rightarrow> uio option" where
  "user_uio buf buflen offset rw k = do {
     t \<leftarrow> ts_cur (sy_ts (k_sy k));
     th \<leftarrow> ts_thr (sy_ts (k_sy k)) t;
     Some \<lparr>iov_kbase = 0, iov_ubase = buf, iov_len = buflen, uio_offset = offset, uio_resid = buflen,
       uio_segflg = UIO_USERSPACE, uio_rw = rw, uio_space = t_vmspace th\<rparr> }"

definition set_offset :: "nat \<Rightarrow> int \<Rightarrow> 'd files \<Rightarrow> 'd files option" where
  "set_offset f offset fs = do { x \<leftarrow> fy_file fs f; Some (put_file f (x\<lparr>f_offset := offset\<rparr>) fs) }"

definition read_file ::
    "'d vnode_ops \<Rightarrow> nat \<Rightarrow> 32 word \<Rightarrow> nat \<Rightarrow> xfer \<Rightarrow> ('d, 'e) kern \<Rightarrow> ((errno + int) \<times> xfer \<times> ('d, 'e) kern) option" where
  "read_file ops f buf buflen x k = do {
     fi \<leftarrow> fy_file (k_fs k) f;
     sy1 \<leftarrow> lock_take (f_lock fi) (k_sy k);
     let k1 = put_ksy sy1 k;
     let how = f_status fi AND O_ACCMODE;
     if how = O_RDONLY \<or> how = O_RDWR then do {
       u \<leftarrow> user_uio buf buflen (f_offset fi) UIO_READ k1;
       (r, u1, x1, st) \<leftarrow> VOP ''read'' (f_v fi) (vop_read ops (f_v fi) u x) (fy_vfs (k_fs k1));
       kassert (r = Inr ());
       let n = c_int (int buflen - int (uio_resid u1));
       kassert (n \<ge> 0);
       fs1 \<leftarrow> set_offset f (uio_offset u1) ((k_fs k1)\<lparr>fy_vfs := st\<rparr>);
       sy2 \<leftarrow> lock_give (f_lock fi) (fy_sy fs1);
       Some (Inr n, x1, k1\<lparr>k_fs := put_sy sy2 fs1\<rparr>) }
     else do {
       sy2 \<leftarrow> lock_give (f_lock fi) (k_sy k1);
       Some (Inl EBADF, x, put_ksy sy2 k1) } }"

definition sys_read ::
    "'d vnode_ops \<Rightarrow> int \<Rightarrow> 32 word \<Rightarrow> nat \<Rightarrow> xfer \<Rightarrow> ('d, 'e) kern \<Rightarrow> ((errno + int) \<times> xfer \<times> ('d, 'e) kern) option" where
  "sys_read ops fd buf buflen x k = do {
     (cur, k1) \<leftarrow> get_curprocess k;
     if buf = 0 then Some (Inl EFAULT, x, k1)
     else do {
       (r, _, us) \<leftarrow> copyin (x_user x) buf (replicate 4 0) 4;
       let x1 = x\<lparr>x_user := us\<rparr>;
       (case r of
          Inl e \<Rightarrow> Some (Inl e, x1, k1)
        | Inr _ \<Rightarrow> do {
            p \<leftarrow> cur_process cur k1;
            (f, fs) \<leftarrow> ft_getfile (p_file_table p) fd (k_fs k1);
            (case f of
               Inl e \<Rightarrow> Some (Inl (if e = ENOENT then EBADF else e), x1, k1\<lparr>k_fs := fs\<rparr>)
             | Inr f \<Rightarrow> read_file ops f buf buflen x1 (k1\<lparr>k_fs := fs\<rparr>)) }) } }"

text \<open>After \<^verbatim>\<open>VOP_WRITE\<close> the test looks at \<^verbatim>\<open>*err\<close>, which is 0 there, not at the result.\<close>

definition write_bytes ::
    "'d vnode_ops \<Rightarrow> nat \<Rightarrow> 32 word \<Rightarrow> nat \<Rightarrow> xfer \<Rightarrow> ('d, 'e) kern \<Rightarrow> (int \<times> xfer \<times> ('d, 'e) kern) option" where
  "write_bytes ops f buf buflen x k = do {
     fi \<leftarrow> fy_file (k_fs k) f;
     u \<leftarrow> user_uio buf buflen (f_offset fi) UIO_WRITE k;
     (r, u1, x1, st) \<leftarrow> VOP ''write'' (f_v fi) (vop_write ops (f_v fi) u x) (fy_vfs (k_fs k));
     fs1 \<leftarrow> set_offset f (uio_offset u1) ((k_fs k)\<lparr>fy_vfs := st\<rparr>);
     sy \<leftarrow> lock_give (f_lock fi) (fy_sy fs1);
     Some (c_int (int buflen - int (uio_resid u1)), x1, k\<lparr>k_fs := put_sy sy fs1\<rparr>) }"

definition write_file ::
    "'d vnode_ops \<Rightarrow> nat \<Rightarrow> 32 word \<Rightarrow> nat \<Rightarrow> xfer \<Rightarrow> ('d, 'e) kern \<Rightarrow> ((errno + int) \<times> xfer \<times> ('d, 'e) kern) option" where
  "write_file ops f buf buflen x k = do {
     fi \<leftarrow> fy_file (k_fs k) f;
     sy1 \<leftarrow> lock_take (f_lock fi) (k_sy k);
     let k1 = put_ksy sy1 k;
     let status = f_status fi AND O_ACCMODE;
     (err, x1) \<leftarrow>
       (if status \<noteq> O_WRONLY \<and> status \<noteq> O_RDWR then Some (Inl EBADF, x)
        else if buf = 0 then Some (Inl EFAULT, x)
        else do {
          (r, _, us) \<leftarrow> copyin (x_user x) buf (replicate 4 0) 4;
          Some (r, x\<lparr>x_user := us\<rparr>) });
     (case err of
        Inl e \<Rightarrow> do {
          sy2 \<leftarrow> lock_give (f_lock fi) (k_sy k1);
          Some (Inl e, x1, put_ksy sy2 k1) }
      | Inr _ \<Rightarrow> do {
          (n, x2, k2) \<leftarrow> write_bytes ops f buf buflen x1 k1;
          Some (Inr n, x2, k2) }) }"

definition sys_write ::
    "'d vnode_ops \<Rightarrow> int \<Rightarrow> 32 word \<Rightarrow> nat \<Rightarrow> xfer \<Rightarrow> ('d, 'e) kern \<Rightarrow> ((errno + int) \<times> xfer \<times> ('d, 'e) kern) option" where
  "sys_write ops fd buf buflen x k = do {
     (cur, k1) \<leftarrow> get_curprocess k;
     p \<leftarrow> cur_process cur k1;
     (f, fs) \<leftarrow> ft_getfile (p_file_table p) fd (k_fs k1);
     (case f of
        Inl e \<Rightarrow> Some (Inl EBADF, x, k1\<lparr>k_fs := fs\<rparr>)
      | Inr f \<Rightarrow> write_file ops f buf buflen x (k1\<lparr>k_fs := fs\<rparr>)) }"

section \<open>Processes\<close>

definition sys_getpid :: "('d, 'e) kern \<Rightarrow> int option" where
  "sys_getpid k = do { t \<leftarrow> ts_cur (sy_ts (k_sy k)); Some (k_pid k t) }"

definition sys__exit ::
    "bool \<Rightarrow> bool \<Rightarrow> (tsys \<Rightarrow> tsys) \<Rightarrow> 'd vnode_ops \<Rightarrow> (int \<Rightarrow> bool \<times> bool) \<Rightarrow> (nat \<Rightarrow> bool) \<Rightarrow> bool \<Rightarrow> bool \<Rightarrow> int \<Rightarrow>
     ('d, 'e) kern \<Rightarrow> ('d, 'e) kern option" where
  "sys__exit asd ok idle ops oks okf okp okn exitcode k = kill_process asd ok idle ops oks okf okp okn exitcode k"

text \<open>
  \<^verbatim>\<open>thread_fork\<close> in the kernel: the reference to the current directory, and, when the caller has an address space,
  the copy of it, the link between the new process \<open>p\<close> and the new thread \<open>t\<close>, and the flush of the translation
  buffer. \<open>okas\<close>: the allocation of \<^verbatim>\<open>as_copy\<close>.
\<close>

definition inherit_cwd :: "'d vfs \<Rightarrow> 'd vfs option" where
  "inherit_cwd st = (case vs_cwd st of None \<Rightarrow> Some st | Some v \<Rightarrow> vnode_incref v st)"

definition return_cwd :: "'d vnode_ops \<Rightarrow> 'd vfs \<Rightarrow> 'd vfs option" where
  "return_cwd ops st = (case vs_cwd st of None \<Rightarrow> Some st | Some v \<Rightarrow> vnode_decref ops v st)"

definition link_child :: "nat \<Rightarrow> nat \<Rightarrow> addrspace \<Rightarrow> ('d, 'e) kern \<Rightarrow> ('d, 'e) kern option" where
  "link_child p t as k = do {
     me \<leftarrow> ts_cur (sy_ts (k_sy k));
     x \<leftarrow> k_proc k p;
     let a = k_brk k;
     k1 \<leftarrow> p_assign_thread p t (put_proc p (x\<lparr>p_parentpid := k_pid k me\<rparr>) (k\<lparr>k_as := (k_as k)(a \<mapsto> as), k_brk := Suc a\<rparr>));
     vm \<leftarrow> as_activate (k_vm k1);
     Some (k1\<lparr>k_vm := vm\<rparr>) }"

definition fork_thread ::
    "'d vnode_ops \<Rightarrow> fork_allocs \<Rightarrow> bool \<Rightarrow> nat \<Rightarrow> nat \<Rightarrow> ('d, 'e) kern \<Rightarrow> ((errno + nat) \<times> ('d, 'e) kern) option" where
  "fork_thread ops fa okas p t k = do {
     me \<leftarrow> ts_cur (sy_ts (k_sy k));
     th \<leftarrow> ts_thr (sy_ts (k_sy k)) me;
     if thread_create (fa_thread fa) (fa_name fa) = None \<or> \<not> fa_stack fa then do {
       (r, ts) \<leftarrow> thread_fork fa (Inl ENOMEM) t (sy_ts (k_sy k));
       Some (r, put_ksy ((k_sy k)\<lparr>sy_ts := ts\<rparr>) k) }
     else do {
       st \<leftarrow> inherit_cwd (fy_vfs (k_fs k));
       let k1 = k\<lparr>k_fs := (k_fs k)\<lparr>fy_vfs := st\<rparr>\<rparr>;
       (ascopy, k2) \<leftarrow> (case t_vmspace th of
            None \<Rightarrow> Some (Inr 0, k1)
          | Some a \<Rightarrow> do {
              old \<leftarrow> k_as k1 a;
              (case as_copy okas old of
                 Inl e \<Rightarrow> Some (Inl e, k1)
               | Inr as \<Rightarrow> do { k2 \<leftarrow> link_child p t as k1; Some (Inr (k_brk k1), k2) }) });
       (r, ts) \<leftarrow> thread_fork fa ascopy t (sy_ts (k_sy k2));
       let k3 = put_ksy ((k_sy k2)\<lparr>sy_ts := ts\<rparr>) k2;
       (case (ascopy, r) of
          (Inr _, Inl e) \<Rightarrow> do {
            st1 \<leftarrow> return_cwd ops (fy_vfs (k_fs k3));
            Some (r, k3\<lparr>k_fs := (k_fs k3)\<lparr>fy_vfs := st1\<rparr>\<rparr>) }
        | _ \<Rightarrow> Some (r, k3)) } }"

text \<open>
  \<^verbatim>\<open>sys_fork\<close>. \<open>sf_tf\<close>, \<open>sf_pid\<close>: the copy of the trap frame and the saved pid can be allocated, which the code does not
  check. When \<^verbatim>\<open>ft_duplicate\<close> fails, the new process and the trap frame are freed and used all the same:
  whatever happens next the call does not return properly.
\<close>

record sfork_allocs =
  sf_tf :: bool
  sf_proc :: proc_allocs
  sf_dup :: dup_allocs
  sf_thread :: fork_allocs
  sf_as :: bool
  sf_drop :: "int \<Rightarrow> bool \<times> bool"
  sf_pid :: bool
  sf_child :: bool

definition sys_fork ::
    "'d vnode_ops \<Rightarrow> sfork_allocs \<Rightarrow> nat \<Rightarrow> ('d, 'e) kern \<Rightarrow> ((errno + int) \<times> ('d, 'e) kern) option" where
  "sys_fork ops al t k = do {
     (cur, k1) \<leftarrow> get_curprocess k;
     kassert (sf_tf al);
     (np, k2) \<leftarrow> p_create ops (sf_proc al) k1;
     (case np of
        None \<Rightarrow> Some (Inl ENOMEM, k2)
      | Some p \<Rightarrow> do {
          parent \<leftarrow> cur;
          px \<leftarrow> k_proc k2 parent;
          x \<leftarrow> k_proc k2 p;
          (r, fs) \<leftarrow> ft_duplicate (sf_dup al) (p_file_table px) (p_file_table x) (k_fs k2);
          kassert (r = Inr ());
          (r1, k3) \<leftarrow> fork_thread ops (sf_thread al) (sf_as al) p t (k2\<lparr>k_fs := fs\<rparr>);
          (case r1 of
             Inl e \<Rightarrow> do {
               k4 \<leftarrow> ft_drop ops (sf_drop al) (p_file_table x) k3;
               Some (Inl e, k4\<lparr>k_proc := (k_proc k4)(p := None)\<rparr>) }
           | Inr _ \<Rightarrow> do {
               kassert (sf_pid al);
               py \<leftarrow> k_proc k3 parent;
               (_, ch) \<leftarrow> array_add (sf_child al) (p_childrenpids py) (p_pid x);
               Some (Inr (p_pid x), put_proc parent (py\<lparr>p_childrenpids := ch\<rparr>) k3) }) }) }"

subsection \<open>Waiting\<close>

text \<open>The checks of the arguments, up to and including those under the lock of the child, which is held after it.\<close>

definition waitpid_check :: "int \<Rightarrow> 32 word \<Rightarrow> int \<Rightarrow> uspace \<Rightarrow> ((errno + unit) \<times> uspace) option" where
  "waitpid_check pid status options u =
     (if options \<noteq> 0 then Some (Inl EINVAL, u)
      else if status = 0 then Some (Inl EFAULT, u)
      else do {
        (r, _, u1) \<leftarrow> copyin u status (replicate 4 0) 4;
        Some (if r = Inr () \<and> sint status smod 4 \<noteq> 0 then Inl EFAULT else r, u1) })"

definition waitpid_child :: "int \<Rightarrow> ('d, 'e) kern \<Rightarrow> ((errno + nat) \<times> ('d, 'e) kern) option" where
  "waitpid_child pid k = do {
     (proc, k1) \<leftarrow> processtable_get pid k;
     (case proc of
        None \<Rightarrow> Some (Inl EINVAL, k1)
      | Some p \<Rightarrow> do {
          x \<leftarrow> k_proc k1 p;
          sy1 \<leftarrow> lock_take (p_lock x) (k_sy k1);
          let k2 = put_ksy sy1 k1;
          t \<leftarrow> ts_cur (sy_ts (k_sy k2));
          if p_parentpid x \<noteq> k_pid k2 t then do {
            sy2 \<leftarrow> lock_give (p_lock x) (k_sy k2);
            Some (Inl EINVAL, put_ksy sy2 k2) }
          else Some (Inr p, k2) }) }"

text \<open>
  One round of the wait: \<^verbatim>\<open>cv_wait\<close> gives the lock up, sleeps, and takes the lock again. \<open>others\<close> is what the other
  threads do while the caller sleeps.
\<close>

definition waitpid_round :: "(('d, 'e) kern \<Rightarrow> ('d, 'e) kern option) \<Rightarrow> nat \<Rightarrow> ('d, 'e) kern \<Rightarrow> ('d, 'e) kern option" where
  "waitpid_round others p k = do {
     x \<leftarrow> k_proc k p;
     c \<leftarrow> p_waitcv x;
     l \<leftarrow> p_lock x;
     sy1 \<leftarrow> cv_wait_release (\<lambda>_. True) c l (k_sy k);
     sy2 \<leftarrow> cv_wait_sleep True True (\<lambda>ts. ts) c sy1;
     k1 \<leftarrow> others (put_ksy sy2 k);
     sy3 \<leftarrow> cv_wait_resume (ts_spl (sy_ts sy1)) (k_sy k1);
     sy4 \<leftarrow> lock_take (Some l) sy3;
     Some (put_ksy sy4 k1) }"

partial_function (option) waitpid_loop ::
    "(('d, 'e) kern \<Rightarrow> ('d, 'e) kern option) \<Rightarrow> nat \<Rightarrow> ('d, 'e) kern \<Rightarrow> ('d, 'e) kern option" where
  "waitpid_loop others p k = do {
     x \<leftarrow> k_proc k p;
     if p_has_exited x \<noteq> 0 then Some k
     else do { k1 \<leftarrow> waitpid_round others p k; waitpid_loop others p k1 } }"

declare waitpid_loop.simps [code]

text \<open>The status is stored through the pointer of the user, as four bytes, the most significant first.\<close>

definition int_bytes :: "int \<Rightarrow> 8 word list" where
  "int_bytes n = map (\<lambda>i. ucast (drop_bit (8 * (3 - i)) (word_of_int n :: 32 word))) [0..<4]"

definition store_int :: "32 word \<Rightarrow> int \<Rightarrow> uspace \<Rightarrow> uspace option" where
  "store_int a n u = do {
     (fine, u1) \<leftarrow> store_bytes u a 0 4 (int_bytes n);
     kassert fine;
     Some u1 }"

definition waitpid_finish ::
    "'d vnode_ops \<Rightarrow> (int \<Rightarrow> bool \<times> bool) \<Rightarrow> bool \<Rightarrow> bool \<Rightarrow> int \<Rightarrow> 32 word \<Rightarrow> nat \<Rightarrow> uspace \<Rightarrow> ('d, 'e) kern \<Rightarrow>
     (uspace \<times> ('d, 'e) kern) option" where
  "waitpid_finish ops oks okp okn pid status p u k = do {
     x \<leftarrow> k_proc k p;
     u1 \<leftarrow> store_int status (p_exitcode x) u;
     k1 \<leftarrow> processtable_remove okp okn pid k;
     sy \<leftarrow> lock_give (p_lock x) (k_sy k1);
     k2 \<leftarrow> p_destroy_at ops oks p (put_ksy sy k1);
     Some (u1, k2) }"

definition sys_waitpid ::
    "'d vnode_ops \<Rightarrow> (('d, 'e) kern \<Rightarrow> ('d, 'e) kern option) \<Rightarrow> (int \<Rightarrow> bool \<times> bool) \<Rightarrow> bool \<Rightarrow> bool \<Rightarrow>
     int \<Rightarrow> 32 word \<Rightarrow> int \<Rightarrow> uspace \<Rightarrow> ('d, 'e) kern \<Rightarrow> ((errno + int) \<times> uspace \<times> ('d, 'e) kern) option" where
  "sys_waitpid ops others oks okp okn pid status options u k = do {
     (r, u1) \<leftarrow> waitpid_check pid status options u;
     (case r of
        Inl e \<Rightarrow> Some (Inl e, u1, k)
      | Inr _ \<Rightarrow> do {
          (c, k1) \<leftarrow> waitpid_child pid k;
          (case c of
             Inl e \<Rightarrow> Some (Inl e, u1, k1)
           | Inr p \<Rightarrow> do {
               k2 \<leftarrow> waitpid_loop others p k1;
               (u2, k3) \<leftarrow> waitpid_finish ops oks okp okn pid status p u1 k2;
               Some (Inr pid, u2, k3) }) }) }"

section \<open>Opening and closing\<close>

lemma files_of_same: "fy_file fs' = fy_file fs \<Longrightarrow> files_of fs' = files_of fs"
  by (intro ext) (simp add: files_of_def)

lemma file_vfs_commute: "fs\<lparr>fy_vfs := st, fy_file := m\<rparr> = fs\<lparr>fy_file := m, fy_vfs := st\<rparr>"
  by simp

context file_systems
begin

text \<open>A file that no descriptor refers to is given up together with its open of the vnode.\<close>

lemma abandon_file:
  assumes "files_wf fs" "fsinv (fy_vfs fs)" "fy_file fs f = Some x" "slots fs f = {}"
  shows "\<exists>fs1 st. f_destroy f fs = Some fs1 \<and> vfs_close ops (f_v x) (fy_vfs fs1) = Some st \<and> fsinv st \<and>
     moved (\<lambda>w. - one (f_v x) w) (\<lambda>w. - one (f_v x) w) (fy_vfs fs) st \<and> files_wf (fs1\<lparr>fy_vfs := st\<rparr>) \<and>
     surplus (fs1\<lparr>fy_vfs := st\<rparr>) = surplus fs \<and> fs1 = fs\<lparr>fy_file := (fy_file fs)(f := None)\<rparr>"
proof -
  have wf: "vfs_wf (fy_vfs fs)" "tabs_ok fs" "refs_at nil fs" "opens_ok fs" using assms(1) by (auto simp: files_wf_def)
  have "f \<in> files_of fs (f_v x)" using assms(3) by (auto simp: files_of_def)
  then have "0 < card (files_of fs (f_v x))" using finite_files_of [OF wf(2)] by (auto simp: card_gt_0_iff)
  moreover have "int (card (files_of fs (f_v x))) \<le> oc (fy_vfs fs) (f_v x)" using wf(4) by (simp add: opens_ok_def surplus_def)
  ultimately have "1 \<le> oc (fy_vfs fs) (f_v x)" by linarith
  then obtain st where st: "vfs_close ops (f_v x) (fy_vfs fs) = Some st" "fsinv st"
      "moved (\<lambda>w. - one (f_v x) w) (\<lambda>w. - one (f_v x) w) (fy_vfs fs) st"
    using vfs_close_drops [OF wf(1) assms(2)] by blast
  let ?fs1 = "fs\<lparr>fy_file := (fy_file fs)(f := None)\<rparr>"
  have sp: "surplus (?fs1\<lparr>fy_vfs := st\<rparr>) = surplus fs" using surplus_close [OF wf(2) assms(3) st(3)] by (simp add: file_vfs_commute)
  have "refs_at nil (?fs1\<lparr>fy_vfs := st\<rparr>)" by (rule refs_at_upd [OF wf(3), of f]) (simp_all add: assms(4))
  then have "files_wf (?fs1\<lparr>fy_vfs := st\<rparr>)"
    using tabs_ok_put_file(2) [OF wf(2) assms(3)] sp st(3) by (intro files_wf_moved [OF assms(1)]) auto
  then show ?thesis using st sp assms(3) by (simp add: f_destroy_def)
qed

text \<open>What happens to an opened vnode: it belongs to a new descriptor, or it is closed again.\<close>

lemma install_file:
  assumes "files_wf fs" "fsinv (fy_vfs fs)" "0 < fst (surplus fs v)" "cur = Some p" "fy_ft fs (p_file_table p) = Some ft"
    and "sy_lock (fy_sy fs) a = None"
  shows "\<exists>r fs' d. install_file ops okf (Some a) oks cur v flags fs = Some (r, fs') \<and> files_wf fs' \<and> fsinv (fy_vfs fs') \<and>
     moved d d (fy_vfs fs) (fy_vfs fs') \<and> surplus fs' = (\<lambda>w. (fst (surplus fs w) - one v w, snd (surplus fs w) - one v w)) \<and>
     (case r of
        Inl e \<Rightarrow> entry fs' = entry fs \<and> fy_file fs' = fy_file fs
      | Inr fd \<Rightarrow> \<exists>f x. fy_file fs f = None \<and> fy_file fs' = (fy_file fs)(f \<mapsto> x) \<and> f_status x = flags \<and> f_offset x = 0 \<and>
          entry fs (p_file_table p, fd) = None \<and> entry fs' = (entry fs)((p_file_table p, fd) := Some f))"
proof (cases okf)
  case False
  have wf: "vfs_wf (fy_vfs fs)" "tabs_ok fs" "refs_at nil fs" "opens_ok fs" using assms(1) by (auto simp: files_wf_def)
  have "1 \<le> oc (fy_vfs fs) v" using assms(3) by (simp add: surplus_def)
  then obtain st where st: "vfs_close ops v (fy_vfs fs) = Some st" "fsinv st" "moved (\<lambda>w. - one v w) (\<lambda>w. - one v w) (fy_vfs fs) st"
    using vfs_close_drops [OF wf(1) assms(2)] by blast
  let ?fs = "fs\<lparr>fy_vfs := st\<rparr>"
  have sp: "surplus ?fs = (\<lambda>w. (fst (surplus fs w) - one v w, snd (surplus fs w) - one v w))"
    using moved_oc [OF st(3)] moved_rc [OF st(3)] by (simp add: surplus_def fun_eq_iff)
  have "0 \<le> fst (surplus ?fs w)" for w using wf(4) assms(3) by (cases "w = v") (simp_all add: sp opens_ok_def)
  then have "files_wf ?fs" using st(3) wf(2,3) by (intro files_wf_step [OF assms(1)]) (auto simp: opens_ok_def)
  then show ?thesis using False st sp
    by (intro exI [of _ "Inl ENOMEM"] exI [of _ ?fs] exI [of _ "\<lambda>w. - one v w"]) (simp add: install_file_def f_create_def)
next
  case True
  let ?t = "p_file_table p" and ?sp = "\<lambda>w. (fst (surplus fs w) - one v w, snd (surplus fs w) - one v w)"
  define f where "f = fy_brk fs"
  define x where "x = \<lparr>f_status = flags, f_offset = 0, f_v = v, f_lock = Some a, f_numrefs = 0\<rparr>"
  obtain fs1 where fs1: "f_create True (Some a) flags 0 v fs = Some (Some f, fs1)" "files_wf fs1"
      "moved nil nil (fy_vfs fs) (fy_vfs fs1)" "entry fs1 = entry fs" "fy_ft fs1 = fy_ft fs" "fy_file fs f = None" "slots fs f = {}"
      "surplus fs1 = ?sp" "fy_file fs1 = (fy_file fs)(f \<mapsto> x)"
    using create_file [OF assms(1,6,3), of flags 0] by (auto simp: x_def f_def)
  have inv1: "fsinv (fy_vfs fs1)" using fs1(1) assms(2) inv_sy by (auto simp: f_create_def new_lock_def Let_def lock_create_def)
  have sl: "slots fs1 f = {}" using fs1(4,7) by (simp add: slots_def)
  have ff: "fy_file fs1 f = Some x" "fy_ft fs1 ?t = Some ft" using fs1(5,9) assms(5) by simp_all
  obtain r fs2 where fs2: "ft_storefile oks ?t f fs1 = Some (r, fs2)" "files_wf fs2" "fy_vfs fs2 = fy_vfs fs1"
      "surplus fs2 = surplus fs1" and st2: "case r of
        Inl e \<Rightarrow> (e = EMFILE \<and> card {i. entry fs1 (?t, i) \<noteq> None} = 50 \<or> e = ENOMEM \<and> \<not> oks) \<and> entry fs2 = entry fs1 \<and> fy_file fs2 = fy_file fs1
      | Inr i \<Rightarrow> card {i. entry fs1 (?t, i) \<noteq> None} < 50 \<and> entry fs1 (?t, i) = None \<and> entry fs2 = (entry fs1)((?t, i) := Some f) \<and>
          fy_file fs2 = (fy_file fs1)(f \<mapsto> x\<lparr>f_numrefs := 1\<rparr>)"
    using storefile [OF fs1(2) ff(2,1) sl, of oks] by blast
  show ?thesis
  proof (cases r)
    case (Inr fd)
    then show ?thesis
      using True fs1 fs2 st2 assms(4) inv1
      by (intro exI [of _ "Inr fd"] exI [of _ fs2] exI [of _ nil] conjI) (auto simp: install_file_def x_def intro!: exI [of _ f])
  next
    case (Inl e)
    have i2: "fsinv (fy_vfs fs2)" "fy_file fs2 f = Some x" "slots fs2 f = {}"
      using fs2(3) st2 Inl inv1 ff(1) sl by (simp_all add: slots_def)
    obtain fs3 st3 where fs3: "f_destroy f fs2 = Some fs3" "vfs_close ops v (fy_vfs fs3) = Some st3" "fsinv st3"
        "moved (\<lambda>w. - one v w) (\<lambda>w. - one v w) (fy_vfs fs2) st3" "files_wf (fs3\<lparr>fy_vfs := st3\<rparr>)"
        "surplus (fs3\<lparr>fy_vfs := st3\<rparr>) = surplus fs2" "fs3 = fs2\<lparr>fy_file := (fy_file fs2)(f := None)\<rparr>"
      using abandon_file [OF fs2(2) i2] by (auto simp: x_def)
    have "moved (\<lambda>w. - one v w) (\<lambda>w. - one v w) (fy_vfs fs) st3" using moved_trans [OF fs1(3) fs3(4) [unfolded fs2(3)]] by simp
    moreover have "entry fs3 = entry fs" "fy_file fs3 = fy_file fs" using fs3(7) st2 Inl fs1(4,6,9) by (simp_all add: fun_upd_idem)
    ultimately show ?thesis
      using True Inl fs1(1,8) fs2(1,4) fs3(1-3,5,6) assms(4)
      by (intro exI [of _ "Inl e"] exI [of _ "fs3\<lparr>fy_vfs := st3\<rparr>"] exI [of _ "\<lambda>w. - one v w"]) (simp add: install_file_def)
  qed
qed

lemma open_file:
  assumes "files_wf fs" "fsinv (fy_vfs fs)" "room 2 (fy_vfs fs)" "free_locks (fy_vfs fs)"
    and "cur = Some p" "fy_ft fs (p_file_table p) = Some ft"
    and "\<And>r st. vfs_open ops path flags (fy_vfs fs) = Some (r, st) \<Longrightarrow> sy_lock (vs_sy st) a = None"
  shows "\<exists>r fs' d. open_file ops okf (Some a) oks cur path flags fs = Some (r, fs') \<and> files_wf fs' \<and> fsinv (fy_vfs fs') \<and>
     moved d d (fy_vfs fs) (fy_vfs fs') \<and> surplus fs' = surplus fs \<and>
     (case r of
        Inl e \<Rightarrow> entry fs' = entry fs \<and> fy_file fs' = fy_file fs
      | Inr fd \<Rightarrow> \<exists>f x. fy_file fs f = None \<and> fy_file fs' = (fy_file fs)(f \<mapsto> x) \<and> f_status x = flags \<and> f_offset x = 0 \<and>
          entry fs (p_file_table p, fd) = None \<and> entry fs' = (entry fs)((p_file_table p, fd) := Some f))"
proof -
  have wf: "vfs_wf (fy_vfs fs)" "tabs_ok fs" "refs_at nil fs" "opens_ok fs" using assms(1) by (auto simp: files_wf_def)
  obtain r st where o: "vfs_open ops path flags (fy_vfs fs) = Some (r, st)" "fsinv st"
      "case r of Inl _ \<Rightarrow> moved nil nil (fy_vfs fs) st | Inr v \<Rightarrow> moved (one v) (one v) (fy_vfs fs) st"
    using vfs_open_opens [OF wf(1) assms(2-4), of path flags] unfolding opens_def by blast
  let ?fs = "fs\<lparr>fy_vfs := st\<rparr>"
  show ?thesis
  proof (cases r)
    case (Inl e)
    have m: "moved nil nil (fy_vfs fs) st" using o(3) Inl by simp
    have sp: "surplus ?fs = surplus fs" using moved_oc [OF m] moved_rc [OF m] by (simp add: surplus_def fun_eq_iff)
    have "files_wf ?fs" by (rule files_wf_moved [OF assms(1), of nil nil]) (use m wf sp in auto)
    then show ?thesis
      using o(1,2) Inl m sp by (intro exI [of _ "Inl e"] exI [of _ ?fs] exI [of _ nil]) (simp add: open_file_def)
  next
    case (Inr v)
    have m: "moved (one v) (one v) (fy_vfs fs) st" using o(3) Inr by simp
    have sp: "surplus ?fs = (\<lambda>w. (fst (surplus fs w) + one v w, snd (surplus fs w) + one v w))"
      using moved_oc [OF m] moved_rc [OF m] by (simp add: surplus_def fun_eq_iff)
    have "opens_ok ?fs" using wf(4) by (auto simp: opens_ok_def sp)
    then have wf1: "files_wf ?fs" using m wf(2,3) by (intro files_wf_step [OF assms(1)]) auto
    have pos: "0 < fst (surplus ?fs v)" using wf(4) by (simp add: sp opens_ok_def add_nonneg_pos)
    obtain r' fs' d where i: "install_file ops okf (Some a) oks cur v flags ?fs = Some (r', fs')" "files_wf fs'" "fsinv (fy_vfs fs')"
        "moved d d st (fy_vfs fs')" "surplus fs' = (\<lambda>w. (fst (surplus ?fs w) - one v w, snd (surplus ?fs w) - one v w))"
        "case r' of Inl e \<Rightarrow> entry fs' = entry ?fs \<and> fy_file fs' = fy_file ?fs
         | Inr fd \<Rightarrow> \<exists>f x. fy_file ?fs f = None \<and> fy_file fs' = (fy_file ?fs)(f \<mapsto> x) \<and> f_status x = flags \<and> f_offset x = 0 \<and>
             entry ?fs (p_file_table p, fd) = None \<and> entry fs' = (entry ?fs)((p_file_table p, fd) := Some f)"
      using install_file [OF wf1 _ pos assms(5), of ft a okf oks flags] assms(6,7) o by auto
    have "surplus fs' = surplus fs" using i(5) sp by simp
    then show ?thesis using o(1) Inr i(1-3,6) moved_trans [OF m i(4)] by (cases r') (auto simp: open_file_def)
  qed
qed

lemma close_descriptor:
  assumes "files_wf (k_fs k)" "fsinv (fy_vfs (k_fs k))" "ptab_ok k" "ts_cur (sy_ts (k_sy k)) = Some t"
    and "tab_entry (k_ptab k) (k_pid k t) = Some p" "k_proc k p = Some x" "entry (k_fs k) (p_file_table x, fd) = Some f"
  defines "old \<equiv> entry (k_fs k)"
  shows "\<exists>fs. sys_close ops True True fd k = Some (Inr 0, k\<lparr>k_fs := fs\<rparr>) \<and> files_wf fs \<and> fsinv (fy_vfs fs) \<and> surplus fs = surplus (k_fs k) \<and>
     entry fs = old((p_file_table x, fd) := None) \<and>
     (slots (k_fs k) f = {(p_file_table x, fd)} \<longrightarrow> fy_file fs = (fy_file (k_fs k))(f := None))"
proof -
  obtain ft where ft: "fy_ft (k_fs k) (p_file_table x) = Some ft" using assms(7) by (auto simp: entry_def split: option.splits)
  obtain y where y: "fy_file (k_fs k) f = Some y" using refs_at_live [OF _ assms(7), of nil] assms(1) by (auto simp: files_wf_def)
  obtain fs where fs: "ft_removefile ops True True (p_file_table x) fd (k_fs k) = Some (Inr (), fs)" "files_wf fs" "fsinv (fy_vfs fs)"
      "surplus fs = surplus (k_fs k)" "entry fs = old((p_file_table x, fd) := None)"
      "fy_file fs = (fy_file (k_fs k))(f := if slots (k_fs k) f = {(p_file_table x, fd)} then None else Some (y\<lparr>f_numrefs := f_numrefs y - 1\<rparr>))"
    using removefile [OF assms(1,2,7) y] by (auto simp: old_def)
  have "ft_getfile (p_file_table x) fd (k_fs k) = Some (Inr f, k_fs k)" using getfile [OF assms(1) ft, of fd] assms(7) by simp
  then have "sys_close ops True True fd k = Some (Inr 0, k\<lparr>k_fs := fs\<rparr>)"
    using get_curprocess_eq [OF assms(3,4)] assms(5,6) fs(1) by (simp add: sys_close_def cur_process_def)
  then show ?thesis using fs by auto
qed

end

lemma copystr_fetch_returns:
  assumes "maxlen \<le> length dest"
  shows "\<exists>r d. copystr (\<lambda>i d. Some (user_read u a i)) (\<lambda>i x d. map_option Some (set_cell d (int i) x)) maxlen stop i dest = Some (r, d)"
  using assms
proof (induction "maxlen - i" arbitrary: i dest)
  case 0
  then show ?case by (simp add: copystr.simps [of _ _ maxlen stop i])
next
  case (Suc n)
  have "i < length dest" using Suc.hyps(2) Suc.prems by linarith
  then show ?case
    using Suc.hyps(1) [of "i + 1" "dest[i := the (user_read u a i)]"] Suc.hyps(2) Suc.prems
    by (auto simp: copystr.simps [of _ _ maxlen stop i] split: option.split)
qed

lemma copystr_finds:
  assumes "i \<le> n" "n < maxlen" "n < stop" "maxlen \<le> length dest" "us_readable u = (\<lambda>_. True)"
    and "\<And>j. j < n \<Longrightarrow> us_bytes u (a + of_nat j) \<noteq> 0" "us_bytes u (a + of_nat n) = 0"
  shows "\<exists>d. copystr (\<lambda>i d. Some (user_read u a i)) (\<lambda>i x d. map_option Some (set_cell d (int i) x)) maxlen stop i dest = Some (Inr (n + 1), d)"
  using assms(1,4)
proof (induction "n - i" arbitrary: i dest)
  case 0
  then show ?case using assms(2,3,5,7) by (simp add: copystr.simps [of _ _ maxlen stop i] user_read_def)
next
  case (Suc m)
  have "i < n" "i < length dest" using Suc.hyps(2) Suc.prems assms(2) by linarith+
  then show ?case
    using Suc.hyps(1) [of "i + 1" "dest[i := us_bytes u (a + of_nat i)]"] Suc.hyps(2) Suc.prems assms(2,3,5,6)
    by (simp add: copystr.simps [of _ _ maxlen stop i] user_read_def)
qed

lemma filename_invalid_returns:
  "\<exists>r u'. filename_invalid filename u = Some (r, u') \<and> us_bytes u' = us_bytes u \<and> us_writable u' = us_writable u"
proof (cases "filename = 0")
  case False
  show ?thesis
  proof (cases "copycheck filename 1024")
    case (Inl e)
    then show ?thesis using False by (simp add: filename_invalid_def copyinstr_def PATH_MAX_def)
  next
    case (Inr stop)
    obtain r d where "copystr (\<lambda>i d. Some (user_read (u\<lparr>us_badfault := True\<rparr>) filename i)) (\<lambda>i x d. map_option Some (set_cell d (int i) x))
        1024 (unat stop) 0 (replicate 1024 0) = Some (r, d)"
      using copystr_fetch_returns [of 1024 "replicate 1024 0" "u\<lparr>us_badfault := True\<rparr>" filename "unat stop" 0] by auto
    then show ?thesis using False Inr by (simp add: filename_invalid_def copyinstr_def PATH_MAX_def)
  qed
qed (simp add: filename_invalid_def)

lemma char_of_byte: "char_of (unat (of_nat (of_char c) :: 8 word)) = c"
proof -
  have "unat (of_nat (of_char c) :: 8 word) = of_char c" by (simp add: unat_of_nat take_bit_eq_mod)
  then show ?thesis by simp
qed

lemma user_string_reads:
  assumes "length s < PATH_MAX" "\<And>i. i < length s \<Longrightarrow> us_bytes u (a + of_nat i) = of_nat (of_char (s ! i))"
    and "\<And>i. i < length s \<Longrightarrow> us_bytes u (a + of_nat i) \<noteq> 0" "us_bytes u (a + of_nat (length s)) = 0"
  shows "user_string u a = s"
proof -
  let ?g = "\<lambda>i. us_bytes u (a + of_nat i)"
  have "[0..<PATH_MAX] = [0..<length s] @ length s # [Suc (length s)..<PATH_MAX]"
    using assms(1) upt_add_eq_append [of 0 "length s" "PATH_MAX - length s"] by (simp add: upt_conv_Cons)
  then have "takeWhile (\<lambda>b. b \<noteq> 0) (map ?g [0..<PATH_MAX]) = map ?g [0..<length s]"
    using assms(3,4) by (simp add: takeWhile_tail)
  moreover have "map (\<lambda>b. char_of (unat b)) (map ?g [0..<length s]) = s"
    using assms(2) by (intro nth_equalityI) (simp_all add: char_of_byte)
  ultimately show ?thesis by (simp add: user_string_def)
qed

lemma cut_colon_returns:
  assumes "\<And>i. us_writable u (filename + of_nat i)"
  shows "cut_colon filename flags u \<noteq> None"
proof -
  have "us_writable u (filename + of_nat (nat c))" for c by (rule assms)
  then show ?thesis by (simp add: cut_colon_def user_write_def del: of_nat_nat split: prod.split)
qed

lemma counts_of_surplus:
  assumes "surplus fs' = surplus fs" "fy_file fs' = fy_file fs"
  shows "oc (fy_vfs fs') v = oc (fy_vfs fs) v" "rc (fy_vfs fs') v = rc (fy_vfs fs) v"
  using fun_cong [OF assms(1), of v] files_of_same [OF assms(2)] by (simp_all add: surplus_def)

section \<open>Waiting for a child\<close>

text \<open>\<open>user_rw\<close>: \<open>n\<close> bytes of user memory that can be read and written.\<close>

definition user_rw :: "uspace \<Rightarrow> 32 word \<Rightarrow> nat \<Rightarrow> bool" where
  "user_rw u a n \<longleftrightarrow> unat a + n \<le> 2 ^ 31 \<and> (\<forall>i < n. us_readable u (a + of_nat i) \<and> us_writable u (a + of_nat i))"

lemma waitpid_check_ok:
  assumes "user_rw u status 4" "status \<noteq> 0" "sint status smod 4 = 0"
  shows "waitpid_check pid status 0 u = Some (Inr (), u\<lparr>us_badfault := False\<rparr>)"
proof -
  have "copycheck status 4 = Inr 4" using assms(1) copycheck_exact [of status 4] by (simp add: user_rw_def)
  then show ?thesis
    using copyin_cases [of 4 "replicate 4 0" u status] assms by (auto simp: waitpid_check_def user_rw_def)
qed

lemma int_bytes_length [simp]: "length (int_bytes n) = 4"
  by (simp add: int_bytes_def)

lemma store_int_ok:
  assumes "user_rw u a 4"
  shows "\<exists>u'. store_int a n u = Some u' \<and> (\<forall>i < 4. us_bytes u' (a + of_nat i) = int_bytes n ! i) \<and>
     (\<forall>b. (\<forall>i < 4. b \<noteq> a + of_nat i) \<longrightarrow> us_bytes u' b = us_bytes u b)"
proof -
  obtain u' where "store_bytes u a 0 4 (int_bytes n) = Some (True, u')" "\<forall>k < 4. us_bytes u' (a + of_nat k) = int_bytes n ! k"
    using store_bytes_writable [of 0 4 u a "int_bytes n"] assms by (auto simp: user_rw_def)
  then show ?thesis using store_bytes_frame(1) [of u a 0 4 "int_bytes n" True u'] by (auto simp: store_int_def)
qed

context file_systems
begin

lemma waitpid_finish_collects:
  assumes "files_wf (k_fs k)" "fsinv (fy_vfs (k_fs k))" "ptab_ok k" "tab_entry (k_ptab k) pid = Some p" "k_proc k p = Some x"
    and "removable k p vm" "user_rw u status 4"
  shows "\<exists>u' k'. waitpid_finish ops (\<lambda>_. (True, True)) True True pid status p u (put_ksy (lock_hold (p_lock x) (k_sy k)) k) = Some (u', k') \<and>
     (\<forall>i < 4. us_bytes u' (status + of_nat i) = int_bytes (p_exitcode x) ! i) \<and>
     (\<forall>b. (\<forall>i < 4. b \<noteq> status + of_nat i) \<longrightarrow> us_bytes u' b = us_bytes u b) \<and>
     ptab_ok k' \<and> tab_entry (k_ptab k') = (tab_entry (k_ptab k))(pid := None) \<and> k_proc k' = (k_proc k)(p := None) \<and>
     files_wf (k_fs k') \<and> fsinv (fy_vfs (k_fs k')) \<and> surplus (k_fs k') = surplus (k_fs k) \<and>
     entry (k_fs k') = (\<lambda>s. if fst s = p_file_table x then None else entry (k_fs k) s)"
proof -
  obtain l where l: "p_lock x = Some l" "own_lock (fy_vfs (k_fs k)) (Some l)" "k_ptlock k \<noteq> Some l"
    using assms(5,6) by (auto simp: removable_def)
  let ?h = "put_ksy (lock_hold (Some l) (k_sy k)) k"
  obtain u' where u': "store_int status (p_exitcode x) u = Some u'" "\<forall>i < 4. us_bytes u' (status + of_nat i) = int_bytes (p_exitcode x) ! i"
      "\<forall>b. (\<forall>i < 4. b \<noteq> status + of_nat i) \<longrightarrow> us_bytes u' b = us_bytes u b"
    using store_int_ok [OF assms(7)] by blast
  have "ptab_ok ?h" using assms(3) l(3) by (simp add: ptab_ok_def own_lock_def)
  then obtain tb where tb: "processtable_remove True True pid ?h = Some (?h\<lparr>k_ptab := tb\<rparr>)" "tab_exact tb"
      "tab_entry tb = (tab_entry (k_ptab k))(pid := None)"
    using processtable_remove_eq [of ?h pid] assms(4) by auto
  have g: "lock_give (Some l) (lock_hold (Some l) (k_sy k)) = Some (k_sy k)" using l(2) by (simp add: own_lock_def)
  let ?k = "k\<lparr>k_ptab := tb\<rparr>"
  have "files_wf (k_fs ?k)" "fsinv (fy_vfs (k_fs ?k))" "removable ?k p vm" "k_proc ?k p = Some x"
    using assms(1,2,5,6) by (simp_all add: removable_def)
  from destroy_process [OF this]
  obtain fs where fs: "p_destroy_at ops (\<lambda>_. (True, True)) p ?k = Some (?k\<lparr>k_fs := fs, k_vm := vm, k_proc := (k_proc ?k)(p := None)\<rparr>)"
      "files_wf fs" "fsinv (fy_vfs fs)" "surplus fs = surplus (k_fs ?k)" "dom (fy_ft fs) = dom (fy_ft (k_fs ?k)) - {p_file_table x}"
      "entry fs = (\<lambda>s. if fst s = p_file_table x then None else entry (k_fs ?k) s)"
      "own_lock (fy_vfs (k_fs ?k)) (k_ptlock ?k) \<longrightarrow> own_lock (fy_vfs fs) (k_ptlock ?k)"
    by (elim exE conjE) (rule that)
  have "put_ksy (k_sy k) (?h\<lparr>k_ptab := tb\<rparr>) = ?k" by simp
  then have "waitpid_finish ops (\<lambda>_. (True, True)) True True pid status p u ?h =
      Some (u', ?k\<lparr>k_fs := fs, k_vm := vm, k_proc := (k_proc k)(p := None)\<rparr>)"
    using assms(5) u'(1) tb(1) g fs(1) l(1) by (simp add: waitpid_finish_def)
  then show ?thesis using u'(2,3) tb(2,3) fs(2-4,6,7) assms(3) l(1) by (simp add: ptab_ok_def cong: if_cong)
qed

end

section \<open>Properties\<close>


text \<open>User memory with the string \<^verbatim>\<open>null:\<close> at 4096.\<close>

definition wit_user :: uspace where
  "wit_user = \<lparr>us_bytes = (\<lambda>a. if unat (a - 4096) < 5 then [110, 117, 108, 108, 58] ! unat (a - 4096) else 0), us_readable = (\<lambda>_. True),
     us_writable = (\<lambda>_. True), us_badfault = False\<rparr>"

lemma wit_user_byte:
  assumes "i \<le> 5"
  shows "us_bytes wit_user (4096 + of_nat i) = [110, 117, 108, 108, 58, 0] ! i"
proof -
  have "unat (of_nat i :: 32 word) = i" using assms by (intro unat_of_nat_32) simp
  moreover have "i = 0 \<or> i = 1 \<or> i = 2 \<or> i = 3 \<or> i = 4 \<or> i = 5" using assms by linarith
  ultimately show ?thesis by (auto simp: wit_user_def)
qed

lemma wit_user_nz: "i < 5 \<Longrightarrow> us_bytes wit_user (4096 + of_nat i) \<noteq> 0"
proof -
  assume i: "i < 5"
  then have "i = 0 \<or> i = 1 \<or> i = 2 \<or> i = 3 \<or> i = 4" by linarith
  then have "[110, 117, 108, 108, 58, 0] ! i \<noteq> (0 :: 8 word)" by (elim disjE) simp_all
  then show ?thesis using wit_user_byte [of i] i by simp
qed

lemma wit_user_string: "user_string wit_user 4096 = ''null:''"
proof (rule user_string_reads)
  fix i
  assume i: "i < length ''null:''"
  then have "i = 0 \<or> i = 1 \<or> i = 2 \<or> i = 3 \<or> i = 4" by auto
  then have "[110, 117, 108, 108, 58, 0] ! i = (of_nat (of_char (''null:'' ! i)) :: 8 word)" by (elim disjE) (simp_all add: of_char_def)
  then show "us_bytes wit_user (4096 + of_nat i) = of_nat (of_char (''null:'' ! i))" using wit_user_byte [of i] i by simp
  show "us_bytes wit_user (4096 + of_nat i) \<noteq> 0" using i by (intro wit_user_nz) simp
qed (use wit_user_byte [of 5] in \<open>simp_all add: PATH_MAX_def\<close>)

lemma wit_user_valid: "filename_invalid 4096 wit_user = Some (Inr (), wit_user)"
proof -
  let ?u = "wit_user\<lparr>us_badfault := True\<rparr>"
  obtain d where "copystr (\<lambda>i d. Some (user_read ?u 4096 i)) (\<lambda>i x d. map_option Some (set_cell d (int i) x)) 1024 1024 0 (replicate 1024 0) =
      Some (Inr 6, d)"
    using copystr_finds [of 0 5 1024 1024 "replicate 1024 0" ?u 4096] wit_user_nz wit_user_byte [of 5]
    by (auto simp: wit_user_def)
  moreover have "copycheck 4096 1024 = Inr 1024" by (simp add: copycheck_def USERTOP_def)
  ultimately show ?thesis by (simp add: filename_invalid_def copyinstr_def PATH_MAX_def wit_user_def)
qed

lemma wit_open:
  "map_option fst (open_file (dev_vnode_ops devnull_ops) True (Some 50) True (Some wit_proc) ''null:'' O_RDONLY wit_files) = Some (Inr 1)"
  "map_option (\<lambda>(r, st). sy_lock (vs_sy st) 50) (vfs_open (dev_vnode_ops devnull_ops) ''null:'' O_RDONLY (fy_vfs wit_files)) = Some None"
  by code_simp+

lemma wit_files_room: "room 2 (fy_vfs wit_files)" "free_locks (fy_vfs wit_files)"
  using wit_dev_ok(3) [of "{5, 6, 7, 8, 10, 20, 30, 31}" 1 2] by (simp_all add: wit_files_def room_def wit_dev_sel)



text \<open>The child of \<open>wit_child\<close> after its exit with code 3, seen by its parent.\<close>

definition wit_zombie :: "(unit, unit) kern" where
  "wit_zombie = wit_child\<lparr>k_pid := (\<lambda>_. 7), k_proc := [100 \<mapsto> wit_proc\<lparr>p_parentpid := 7, p_exitcode := 3, p_has_exited := 1\<rparr>]\<rparr>"

lemma wit_zombie_sel:
  "k_fs wit_zombie = put_sy ((fy_sy wit_files)\<lparr>sy_cv := [40 \<mapsto> \<lparr>cv_queue = q_create True True 10\<rparr>]\<rparr>) wit_files" "k_ptab wit_zombie = wit_tab"
  "k_proc wit_zombie = [100 \<mapsto> wit_proc\<lparr>p_parentpid := 7, p_exitcode := 3, p_has_exited := 1\<rparr>]" "k_pid wit_zombie t = 7"
  "k_ptlock wit_zombie = Some 30" "k_vm wit_zombie = wit_vm ()"
  by (simp_all add: wit_zombie_def wit_child_sel)

lemma wit_zombie_unslept: "unslept 8 (k_sy wit_zombie)" "unslept 31 (k_sy wit_zombie)" "unslept 40 (k_sy wit_zombie)"
  by (simp_all add: wit_zombie_sel wit_files_def wit_dev_def splhigh_def splx_def thread_hassleepers_def wit_tsys_def array_getguy_def
      array_getnum_def sleeping_on_def wit_thread_def cell_def)

lemma wit_zombie_removable: "removable wit_zombie 100 (wit_vm ())"
proof -
  have "own_lock (fy_vfs (k_fs wit_zombie)) (Some 31)"
    using wit_child_idle [of 31] by (simp add: own_lock_def wit_zombie_sel wit_child_sel) (simp add: wit_files_def wit_dev_sel)
  moreover obtain q where "q_create True True 10 = Some (q :: nat kqueue)" "q_empty q" using wit_queue by blast
  ultimately show ?thesis
    using wit_zombie_unslept wit_proc_children wit_proc_pages [of "wit_vm ()"] wit_files_ft(1)
    by (simp add: removable_def) (simp add: wit_zombie_sel wit_proc_def wit_files_def)
qed


section \<open>Fork\<close>

lemma inherit_cwd_moved:
  assumes "vfs_wf st" "room 1 st"
  shows "\<exists>d st'. inherit_cwd st = Some st' \<and> moved d nil st st'"
proof (cases "vs_cwd st")
  case None
  then show ?thesis using moved_refl [OF assms(1)] by (auto simp: inherit_cwd_def)
next
  case (Some v)
  have "oc st v + held st v \<le> rc st v" "0 \<le> oc st v"
    using assms(1) by (auto simp: vfs_wf_def vn_wf_def oc_def split: option.split)
  moreover have "1 \<le> held st v" using Some by (simp add: held_def)
  ultimately have "1 \<le> rc st v" by simp
  moreover have "rc st v < 2 ^ 31 - 1" using assms(2) by (simp add: room_def algebra_simps)
  ultimately obtain st' where "vnode_incref v st = Some st'" "moved (one v) nil st st'"
    using vnode_incref_moved [OF assms(1), of v] by blast
  then show ?thesis using Some by (intro exI [of _ "one v"] exI [of _ st']) (simp add: inherit_cwd_def)
qed

lemma thread_fork_allocs:
  assumes "thread_fork fa ascopy t st = Some (Inr u, st')"
  shows "\<exists>th. thread_create (fa_thread fa) (fa_name fa) = Some th \<and> fa_stack fa"
  using assms by (auto simp: thread_fork_def split: option.splits if_splits)

text \<open>The new thread belongs to the new process, whose parent is the caller.\<close>

lemma fork_thread_links:
  assumes "files_wf (k_fs k)" "room 1 (fy_vfs (k_fs k))" "ts_cur (sy_ts (k_sy k)) = Some me" "ts_thr (sy_ts (k_sy k)) me = Some th"
    and "t_vmspace th = Some a" "k_as k a = Some old" "k_proc k p = Some x" "as_activate (k_vm k) = Some vm"
    and "thread_fork fa (Inr (k_brk k)) t (sy_ts (k_sy k)) = Some (Inr u, ts)" "ts_cur ts \<noteq> None"
  shows "\<exists>fs k'. fork_thread ops fa True p t k = Some (Inr u, k') \<and>
     k' = k\<lparr>k_fs := fs, k_as := k_as k', k_brk := Suc (k_brk k), k_vm := vm, k_pid := (k_pid k)(t := p_pid x),
           k_proc := (k_proc k)(p \<mapsto> x\<lparr>p_parentpid := k_pid k me, p_thread := Some t\<rparr>)\<rparr> \<and>
     files_wf fs \<and> entry fs = entry (k_fs k) \<and> oc (fy_vfs fs) = oc (fy_vfs (k_fs k)) \<and> fy_file fs = fy_file (k_fs k) \<and> sy_ts (fy_sy fs) = ts"
proof -
  have wf: "vfs_wf (fy_vfs (k_fs k))" "tabs_ok (k_fs k)" "refs_at nil (k_fs k)" "opens_ok (k_fs k)" using assms(1) by (auto simp: files_wf_def)
  obtain d st where st: "inherit_cwd (fy_vfs (k_fs k)) = Some st" "moved d nil (fy_vfs (k_fs k)) st"
    using inherit_cwd_moved [OF wf(1) assms(2)] by blast
  then have s: "sy_ts (vs_sy st) = sy_ts (k_sy k)" "oc st = oc (fy_vfs (k_fs k))" by (simp_all add: moved_def fun_eq_iff)
  let ?fs = "(k_fs k)\<lparr>fy_vfs := st\<rparr>"
  have "files_wf ?fs"
  proof (rule files_wf_step [OF assms(1), of d nil])
    show "opens_ok ?fs" using wf(4) s(2) by (simp add: opens_ok_def surplus_def files_of_def)
  qed (use st(2) wf in auto)
  then have "files_wf (put_sy ((vs_sy st)\<lparr>sy_ts := ts\<rparr>) ?fs)" using files_wf_ts [of ts ?fs] assms(3,10) s(1) by simp
  moreover have "oc (st\<lparr>vs_sy := z\<rparr>) = oc (fy_vfs (k_fs k))" for z using s(2) by (simp add: oc_def fun_eq_iff)
  moreover have "entry (put_sy z ?fs) = entry (k_fs k)" for z by (simp add: entry_def fun_eq_iff)
  moreover define k' where "k' = k\<lparr>k_fs := put_sy ((vs_sy st)\<lparr>sy_ts := ts\<rparr>) ?fs, k_as := (k_as k)(k_brk k \<mapsto> the (as_create True)), k_brk := Suc (k_brk k),
      k_vm := vm, k_pid := (k_pid k)(t := p_pid x), k_proc := (k_proc k)(p \<mapsto> x\<lparr>p_parentpid := k_pid k me, p_thread := Some t\<rparr>)\<rparr>"
  moreover have "fork_thread ops fa True p t k = Some (Inr u, k')"
    using assms(3-9) s(1) st(1) thread_fork_allocs [OF assms(9)]
    by (elim exE) (simp add: fork_thread_def Let_def link_child_def p_assign_thread_def as_copy_def as_create_def k'_def)
  ultimately show ?thesis
    by (intro exI [of _ "put_sy ((vs_sy st)\<lparr>sy_ts := ts\<rparr>) ?fs"] exI [of _ k']) simp
qed


text \<open>The process of \<open>wit_kern\<close>, whose thread has the address space 50, with memory for everything.\<close>

definition wit_user_ts :: tsys where
  "wit_user_ts = (wit_tsys 4)\<lparr>ts_thr := (ts_thr (wit_tsys 4))(0 \<mapsto> (wit_thread None)\<lparr>t_vmspace := Some 50\<rparr>)\<rparr>"

definition wit_parent :: "(unit, unit) kern" where
  "wit_parent = put_ksy ((fy_sy wit_files)\<lparr>sy_ts := wit_user_ts\<rparr>) (wit_kern\<lparr>k_as := [50 \<mapsto> the (as_create True)]\<rparr>)"

definition wit_fork_allocs :: sfork_allocs where
  "wit_fork_allocs = \<lparr>sf_tf = True,
     sf_proc = \<lparr>pa_proc = True, pa_ft = True, pa_ft_tab = (True, True, True), pa_ft_lock = Some 60, pa_pt = (True, True, True),
       pa_cv = Some 61, pa_lock = Some 62, pa_children = True, pa_insert = True\<rparr>,
     sf_dup = \<lparr>da_array = True, da_add = (\<lambda>_. True), da_list = True, da_copy = (\<lambda>_. True), da_ptr = (\<lambda>_. True), da_node = (\<lambda>_. True)\<rparr>,
     sf_thread = \<lparr>fa_thread = True, fa_name = True, fa_stack = True, fa_sleepers = True, fa_zombies = True, fa_run = True, fa_runnable = True\<rparr>,
     sf_as = True, sf_drop = (\<lambda>_. (True, True)), sf_pid = True, sf_child = True\<rparr>"

lemma wit_parent_thread:
  "\<exists>ts. thread_fork (sf_thread wit_fork_allocs) (Inr 102) 7 wit_user_ts = Some (Inr 7, ts) \<and> ts_cur ts \<noteq> None"
proof -
  have "map_option (\<lambda>(r, s). (r, ts_cur s)) (thread_fork (sf_thread wit_fork_allocs) (Inr 102) 7 wit_user_ts) = Some (Inr 7, Some 0)"
    by code_simp
  then show ?thesis by auto
qed

lemma wit_parent_sel:
  "k_fs wit_parent = put_sy ((fy_sy wit_files)\<lparr>sy_ts := wit_user_ts\<rparr>) wit_files" "k_ptab wit_parent = wit_tab" "k_proc wit_parent = [100 \<mapsto> wit_proc]"
  "k_pid wit_parent u = 0" "k_ptlock wit_parent = Some 30" "k_brk wit_parent = 101" "k_as wit_parent = [50 \<mapsto> the (as_create True)]"
  "k_vm wit_parent = wit_vm ()"
  by (simp_all add: wit_parent_def wit_kern_def)

lemma wit_user_ts_sel: "ts_cur wit_user_ts = Some 0" "ts_thr wit_user_ts 0 = Some ((wit_thread None)\<lparr>t_vmspace := Some 50\<rparr>)"
  by (simp_all add: wit_user_ts_def wit_tsys_def)

lemma wit_parent_locks:
  "l \<in> {5, 6, 30} \<Longrightarrow> lock_idle (Some l) (k_sy wit_parent)" "l \<in> {60, 62} \<Longrightarrow> sy_lock (k_sy wit_parent) l = None"
  using wit_dev_idle [of l "{5, 6, 7, 8, 10, 20, 30, 31}" 2 1]
  by (auto simp: wit_parent_sel wit_files_def lock_idle_def wit_user_ts_sel wit_dev_def)

lemma wit_parent_ok: "files_wf (k_fs wit_parent)" "free_locks (fy_vfs (k_fs wit_parent))" "room 1 (fy_vfs (k_fs wit_parent))" "ptab_ok wit_parent"
proof -
  show "files_wf (k_fs wit_parent)" by (simp add: wit_parent_sel files_wf_ts wit_user_ts_sel wit_kern_cur wit_files_wf)
  show "free_locks (fy_vfs (k_fs wit_parent))"
    using wit_parent_locks(1) [of 5] wit_parent_locks(1) [of 6] by (simp add: free_locks_def wit_parent_sel) (simp add: wit_files_def wit_dev_def)
  show "room 1 (fy_vfs (k_fs wit_parent))" by (simp add: room_def rc_def wit_parent_sel wit_files_def wit_dev_def)
  show "ptab_ok wit_parent"
    using wit_parent_locks(1) [of 30] by (simp add: ptab_ok_def own_lock_def wit_parent_sel wit_tab(1)) (simp add: wit_files_def wit_dev_sel)
qed


end
