(* ===== verification/Spec2Isabelle.thy ===== *)
theory Spec2Isabelle
  imports Kern_Prelude Kern_Array Kern_Fifo Kern_Queue Kern_List Kern_Bitmap Kern_Table Kern_Libc Kern_Uio
    Kern_Coremap Kern_Thread Kern_Synch Kern_Vm Kern_Paging Kern_Vfs_Refs Kern_File Kern_Process Kern_Syscall
begin

text \<open>
  A model of the OS/161 teaching kernel of this repository, in the configuration \<^verbatim>\<open>ASST3\<close> (the options
  \<^verbatim>\<open>OPT_A1\<close>, \<^verbatim>\<open>OPT_A2\<close> and \<^verbatim>\<open>OPT_A3\<close> are on, \<^verbatim>\<open>dumbvm\<close> is off). Paths are relative to
  \<^verbatim>\<open>src/\<close>.

  \<^bold>\<open>Conventions.\<close> A function of the source is one definition with the name it has there. A call that does
  not return (a failed assertion, a panic, an access outside an object, the use of memory nobody has written,
  an endless loop) is \<open>None\<close>. An error code is the left part of a sum, of type \<open>errno\<close>. A null pointer that is a
  regular result is an option. State is passed explicitly. Each \<^verbatim>\<open>kmalloc\<close> whose failure the code handles is a
  boolean argument, a lock that \<^verbatim>\<open>lock_create\<close> may fail to make is an optional address; the theorems hold for all
  of them unless a hypothesis says otherwise. A C \<^verbatim>\<open>int\<close> is an \<open>int\<close> on which \<open>c_int\<close> marks the wrap-around where it
  can happen, an unsigned integer, an address or a mask is a 32-bit word. A loop whose bound is fixed at entry
  recurses on the number of rounds; a loop that may not end is a \<open>partial_function\<close> into \<open>option\<close>, and its theorems
  say that it returns.

  \<^bold>\<open>Parts and theories.\<close>
  \<^item> \<open>Kern_Prelude\<close>: error codes (\<^verbatim>\<open>kern/include/kern/errno.h\<close>), assertions, cells of memory blocks, C integers,
    scanning loops.
  \<^item> \<open>Kern_Array\<close> (\<^verbatim>\<open>kern/lib/array.c\<close>), \<open>Kern_Queue\<close> (\<^verbatim>\<open>queue.c\<close>), \<open>Kern_List\<close> (\<^verbatim>\<open>linkedlist.c\<close>),
    \<open>Kern_Bitmap\<close> (\<^verbatim>\<open>bitmap.c\<close>), \<open>Kern_Table\<close> (\<^verbatim>\<open>table.c\<close>): the containers. The locales \<open>vector\<close>, \<open>fifo\<close>
    (theory \<open>Kern_Fifo\<close>) and \<open>slot_table\<close> are their interfaces, interpreted on the code's definitions; the clients
    use the laws only. The lemmas show that arrays and queues behave as lists, that the table never disturbs an
    entry in use, and that a bitmap hands out the lowest free bit.
  \<^item> \<open>Kern_Libc\<close> (\<^verbatim>\<open>lib/libc\<close>): memory and string functions over byte-addressed memory.
  \<^item> \<open>Kern_Uio\<close> (\<^verbatim>\<open>kern/lib/copyinout.c\<close>, \<^verbatim>\<open>kern/userprog/uio.c\<close>): access to user memory; a fault during a copy is
    the failure of the access that faults.
  \<^item> \<open>Kern_Coremap\<close> (\<^verbatim>\<open>kern/vm/coremap.c\<close>, \<^verbatim>\<open>kern/arch/mips/mips/ram.c\<close>): page frames. Blocks in use never overlap.
  \<^item> \<open>Kern_Thread\<close> (\<^verbatim>\<open>kern/thread/thread.c\<close>, \<^verbatim>\<open>scheduler.c\<close>): threads, sleeping and waking, with an invariant that
    accounts for every thread.
  \<^item> \<open>Kern_Synch\<close> (\<^verbatim>\<open>kern/thread/synch.c\<close>): semaphores, locks and condition variables as step relations over threads;
    an operation that sleeps is split at the switch. Mutual exclusion, order of service and conservation are
    invariants of every reachable state. The last section gives the view of a critical section the other parts use.
  \<^item> \<open>Kern_Vm\<close> and \<open>Kern_Paging\<close> (\<^verbatim>\<open>kern/vm\<close>, \<^verbatim>\<open>kern/arch/mips/include/tlb.h\<close>): translation buffer, address
    spaces, page tables, swap file, fault handler and statistics.
  \<^item> \<open>Kern_Vfs\<close> and \<open>Kern_Vfs_Refs\<close> (\<^verbatim>\<open>kern/fs/vfs\<close>): vnodes, device table, pathnames and device files. The tables of
    operations of the file systems are a parameter; the locale \<open>file_systems\<close> states what the comments of
    \<^verbatim>\<open>vnode.h\<close> and \<^verbatim>\<open>fs.h\<close> demand of them, and devices are shown to meet it. Under it the path operations balance all
    reference counts on every branch.
  \<^item> \<open>Kern_File\<close> (\<^verbatim>\<open>kern/filedes\<close>): open files and the descriptor tables that share them. The invariant \<open>files_wf\<close>
    says that a file counts the descriptors that name it and holds one open of its vnode; storing, closing,
    duplicating and destroying keep it.
  \<^item> \<open>Kern_Process\<close> (\<^verbatim>\<open>kern/process\<close>): processes, the process table and the end of a process. The state \<open>kern\<close> puts
    the files, the virtual memory, the address spaces and the processes together.
  \<^item> \<open>Kern_Syscall\<close> (\<^verbatim>\<open>kern/userprog/sys*.c\<close>): the system calls on files and processes. Opening and closing restores
    all counts; a fork makes a child that shares the files of its parent; an exit leaves what \<^verbatim>\<open>waitpid\<close> collects,
    and the collection frees the process, its pid and its files.

  \<^bold>\<open>Bounds and fuel.\<close> No theorem depends on fuel: bounded loops take the bound the code computes, unbounded
  ones are partial functions. The mutual recursion of \<^verbatim>\<open>q_addtail\<close> and \<^verbatim>\<open>q_grow\<close> is cut at depth two, which the code
  cannot exceed because the grown buffer has room.

  \<^bold>\<open>Not modelled.\<close> Assembler, device drivers below the device interface (\<^verbatim>\<open>kern/dev\<close>), trap entry, console output and
  the menu are input and output or machine code; user programs under \<^verbatim>\<open>bin\<close>, \<^verbatim>\<open>sbin\<close> and \<^verbatim>\<open>testbin\<close> only call the
  kernel.
\<close>

end
